(* ===== verification/Prelude.thy ===== *)
theory Prelude
  imports Main "HOL-Library.Word" "HOL-Library.Multiset" "HOL-Library.Char_ord"
    "HOL-Library.List_Lexorder"
begin

text \<open>
  The shared vocabulary of the development: Go's machine types, the error values of the
  program and the outcome of a call (a value, an error, or a run-time panic), the pieces of
  the Go standard library that every component uses (decimal and hexadecimal printing,
  conversions between strings and byte slices), and the generic lemmas on outcomes, lists
  and words that the component proofs rest on.
\<close>

unbundle bit_operations_syntax

section \<open>Machine types\<close>

type_synonym byte = "8 word"
type_synonym bytes = "byte list"
type_synonym u32 = "32 word"
type_synonym u64 = "64 word"

section \<open>Rule collections\<close>

named_theorems ots_simps \<open>equations and characterisations used by the component proofs\<close>
named_theorems ots_roundtrip \<open>decoding what was encoded\<close>
named_theorems ots_len \<open>lengths of encodings and of operation results\<close>

section \<open>Printing: the verbs of fmt.Sprintf and encoding/hex\<close>

fun dec_nat :: "nat \<Rightarrow> string" where
  "dec_nat n = (if n < 10 then [char_of (48 + n)] else dec_nat (n div 10) @ [char_of (48 + n mod 10)])"

declare dec_nat.simps [simp del]

definition dec_int :: "int \<Rightarrow> string" where
  "dec_int i = (if i < 0 then CHR ''-'' # dec_nat (nat (- i)) else dec_nat (nat i))"

definition hex_digit :: "nat \<Rightarrow> char" where
  "hex_digit n = ''0123456789abcdef'' ! n"

definition hex_byte :: "byte \<Rightarrow> string" where
  "hex_byte b = [hex_digit (unat b div 16), hex_digit (unat b mod 16)]"

definition hex_EncodeToString :: "bytes \<Rightarrow> string" where
  "hex_EncodeToString bs = concat (map hex_byte bs)"

section \<open>Strings and byte slices\<close>

text \<open>A Go string is a sequence of bytes; \<open>[]byte(s)\<close> and \<open>string(b)\<close> copy it.\<close>

definition bytes_of_string :: "string \<Rightarrow> bytes" where
  "bytes_of_string s = map (\<lambda>c. word_of_nat (of_char c)) s"

definition string_of_bytes :: "bytes \<Rightarrow> string" where
  "string_of_bytes bs = map (\<lambda>b. char_of (unat b)) bs"

lemma byte_of_char_inverse [simp]: "char_of (unat (word_of_nat (of_char c) :: byte)) = c"
proof -
  have "unat (word_of_nat (of_char c) :: byte) = of_char c"
    by (simp add: unat_of_nat take_bit_eq_mod)
  then show ?thesis by simp
qed

lemma char_of_byte_inverse [simp]: "(word_of_nat (of_char (char_of (unat b) :: char)) :: byte) = b"
proof -
  have "unat b < 256" using unsigned_less [of b, where ?'a = nat] by simp
  then show ?thesis by simp
qed

lemma string_of_bytes_of_string [simp]: "string_of_bytes (bytes_of_string s) = s"
  by (simp only: string_of_bytes_def bytes_of_string_def map_map o_def byte_of_char_inverse map_ident)

lemma bytes_of_string_of_bytes [simp]: "bytes_of_string (string_of_bytes b) = b"
  by (simp only: string_of_bytes_def bytes_of_string_def map_map o_def char_of_byte_inverse map_ident)

lemma length_bytes_of_string [simp]: "length (bytes_of_string s) = length s"
  by (simp add: bytes_of_string_def)

lemma length_string_of_bytes [simp]: "length (string_of_bytes b) = length b"
  by (simp add: string_of_bytes_def)

lemma length_hex_EncodeToString [simp]: "length (hex_EncodeToString bs) = 2 * length bs"
  by (induction bs) (simp_all add: hex_EncodeToString_def hex_byte_def)

section \<open>Error values and outcomes\<close>

text \<open>
  One constructor per error type of the source. \<open>ErrorString\<close> is what \<open>fmt.Errorf\<close> and
  \<open>errors.New\<close> build.
\<close>

datatype go_error =
    DeserializationError string
  | BadMagicError bytes bytes
  | UnsupportedMajorVersion int
  | TruncationError string
  | TrailingGarbageError
  | RecursionLimitError
  | MsgValueError string
  | OpArgValueError string
  | ErrorString string

text \<open>
  The outcome of a call: a value with a nil error, a non-nil error, or a run-time panic, which
  unlike an error is not visible to the caller's \<open>err != nil\<close> checks.
\<close>

datatype 'a result = Ok 'a | Err go_error | Panic string

primrec andThen :: "'a result \<Rightarrow> ('a \<Rightarrow> 'b result) \<Rightarrow> 'b result" where
  "andThen (Ok x) f = f x"
| "andThen (Err e) f = Err e"
| "andThen (Panic p) f = Panic p"

primrec is_ok :: "'a result \<Rightarrow> bool" where
  "is_ok (Ok x) = True"
| "is_ok (Err e) = False"
| "is_ok (Panic p) = False"

primrec is_panic :: "'a result \<Rightarrow> bool" where
  "is_panic (Ok x) = False"
| "is_panic (Err e) = False"
| "is_panic (Panic p) = True"

lemma andThen_cong [fundef_cong]:
  "m = m' \<Longrightarrow> (\<And>x. m' = Ok x \<Longrightarrow> f x = f' x) \<Longrightarrow> andThen m f = andThen m' f'"
  by (cases m') auto

lemma andThen_eq_Ok: "andThen m f = Ok y \<longleftrightarrow> (\<exists>x. m = Ok x \<and> f x = Ok y)"
  by (cases m) auto

lemma andThen_eq_Panic: "andThen m f = Panic p \<longleftrightarrow> m = Panic p \<or> (\<exists>x. m = Ok x \<and> f x = Panic p)"
  by (cases m) auto

lemma andThen_OkE:
  assumes "andThen m f = Ok y"
  obtains x where "m = Ok x" and "f x = Ok y"
  using assms by (auto simp: andThen_eq_Ok)

text \<open>A caller that rewrites the error and passes panics on.\<close>

lemma case_result_eq_Ok:
  "(case m of Ok x \<Rightarrow> f x | Err e \<Rightarrow> Err (g e) | Panic p \<Rightarrow> Panic p) = Ok y \<longleftrightarrow>
   (\<exists>x. m = Ok x \<and> f x = Ok y)"
  by (cases m) auto

lemma andThen_assoc: "andThen (andThen m f) g = andThen m (\<lambda>x. andThen (f x) g)"
  by (cases m) auto

lemma is_ok_iff: "is_ok m \<longleftrightarrow> (\<exists>x. m = Ok x)"
  by (cases m) auto

lemma is_panic_iff: "is_panic m \<longleftrightarrow> (\<exists>p. m = Panic p)"
  by (cases m) auto

section \<open>Lists\<close>

lemma subset_same_length:
  "set xs \<subseteq> set ys \<Longrightarrow> distinct xs \<Longrightarrow> length xs = length ys \<Longrightarrow> set xs = set ys \<and> distinct ys"
  by (metis List.finite_set card_distinct card_length card_seteq distinct_card)

end
