(* ===== verification/Serialize.thy ===== *)
theory Serialize
  imports Prelude
begin

text \<open>
  The binary codec of \<^verbatim>\<open>internal/core/serialize/serialize.go\<close>. A \<open>Context\<close> wraps a
  \<open>bytes.Buffer\<close>. A reading context is the list of unread bytes: a read returns its value
  with the bytes left. A writing context is the list of bytes written so far: a write returns
  the longer list; \<open>bytes.Buffer\<close> never fails a write, so the write operations return no
  error. \<open>int\<close> is 64 bits wide: the conversion \<open>int(l)\<close> of a \<open>uint64\<close> is \<open>sint\<close>.
\<close>

unbundle bit_operations_syntax

section \<open>Error messages\<close>

fun error_string :: "go_error \<Rightarrow> string" where
  "error_string (DeserializationError m) = m"
| "error_string (BadMagicError expected actual) =
     ''expected magic bytes 0x'' @ hex_EncodeToString expected @ '', but got 0x'' @
     hex_EncodeToString actual @ '' instead''"
| "error_string (UnsupportedMajorVersion v) = ''unsupported major version '' @ dec_int v"
| "error_string (TruncationError m) = m"
| "error_string TrailingGarbageError = ''trailing garbage found after end of deserialized data''"
| "error_string RecursionLimitError =
     ''reached timestamp recursion depth limit while deserializing''"
| "error_string (MsgValueError m) = m"
| "error_string (OpArgValueError m) = m"
| "error_string (ErrorString m) = m"

section \<open>Contexts\<close>

type_synonym Context = bytes

definition NewContext :: "bytes \<Rightarrow> Context" where
  "NewContext data = data"

definition NewWriteContext :: Context where
  "NewWriteContext = []"

definition Bytes :: "Context \<Rightarrow> bytes" where
  "Bytes c = c"

definition writeByte :: "Context \<Rightarrow> byte \<Rightarrow> Context" where
  "writeByte c b = c @ [b]"

definition readByte :: "Context \<Rightarrow> (byte \<times> Context) result" where
  "readByte c = (case c of [] \<Rightarrow> Err (TruncationError ''EOF'') | b # c' \<Rightarrow> Ok (b, c'))"

definition WriteBool :: "Context \<Rightarrow> bool \<Rightarrow> Context" where
  "WriteBool c v = (if v then writeByte c 0xff else writeByte c 0x00)"

definition ReadBool :: "Context \<Rightarrow> (bool \<times> Context) result" where
  "ReadBool c = andThen (readByte c) (\<lambda>(b, c').
     if b = 0xff then Ok (True, c')
     else if b = 0x00 then Ok (False, c')
     else Err (DeserializationError
            (''read_bool() expected 0xff or 0x00; got '' @ dec_nat (unat b))))"

lemma unat_drop_bit_7: "unat (drop_bit 7 v) = unat (v :: u64) div 128"
  unfolding unat_drop_bit_eq by (simp add: drop_bit_eq_div)

lemma unat_drop_bit_7_less: "v \<noteq> 0 \<Longrightarrow> unat (drop_bit 7 v) < unat (v :: u64)"
  by (simp add: unat_drop_bit_7 unat_gt_0 del: drop_bit_numeral_minus_bit1)

function WriteVarUint_loop :: "Context \<Rightarrow> u64 \<Rightarrow> Context" where
  "WriteVarUint_loop c v =
     (if v \<noteq> 0 then
        (let b = ucast (v AND 0x7f) :: byte;
             v' = drop_bit 7 v;
             b' = (if v' \<noteq> 0 then b OR 0x80 else b)
         in WriteVarUint_loop (writeByte c b') v')
      else c)"
  by pat_completeness auto
termination
  by (relation "measure (\<lambda>(c, v). unat v)") (simp_all add: unat_drop_bit_7_less)

declare WriteVarUint_loop.simps [simp del]

definition WriteVarUint :: "Context \<Rightarrow> u64 \<Rightarrow> Context" where
  "WriteVarUint c v = (if v = 0 then writeByte c 0x00 else WriteVarUint_loop c v)"

text \<open>
  The loop of \<open>ReadVarUint\<close>, from the accumulated value and the current shift. Go's shift of
  a \<open>uint64\<close> by 64 or more is 0, as \<open>push_bit\<close> on words is.
\<close>

function ReadVarUint_loop :: "Context \<Rightarrow> u64 \<Rightarrow> nat \<Rightarrow> (u64 \<times> Context) result" where
  "ReadVarUint_loop c value shift =
     andThen (readByte c) (\<lambda>(b, c').
       let value' = value OR push_bit shift (ucast (b AND 0x7f))
       in if b AND 0x80 = 0 then Ok (value', c')
          else ReadVarUint_loop c' value' (shift + 7))"
  by pat_completeness auto
termination
  by (relation "measure (\<lambda>(c, value, shift). length c)")
    (auto simp: readByte_def split: list.splits)

declare ReadVarUint_loop.simps [simp del]

definition ReadVarUint :: "Context \<Rightarrow> (u64 \<times> Context) result" where
  "ReadVarUint c = ReadVarUint_loop c 0 0"

definition WriteUint8 :: "Context \<Rightarrow> byte \<Rightarrow> Context" where
  "WriteUint8 c v = writeByte c v"

definition ReadUint8 :: "Context \<Rightarrow> (byte \<times> Context) result" where
  "ReadUint8 c = readByte c"

definition WriteBytes :: "Context \<Rightarrow> bytes \<Rightarrow> Context" where
  "WriteBytes c v = c @ v"

text \<open>
  \<open>ReadBytes(n)\<close>: \<open>make([]byte, n)\<close> panics on a negative length and on one above the limit of the
  runtime for an allocation, which is \<open>2 ^ 48\<close> bytes on a 64-bit system; \<open>bytes.Buffer.Read\<close> fails with \<open>io.EOF\<close> only on an empty buffer and otherwise copies what is there, so a short
  buffer leaves the rest of the freshly made slice zero.
\<close>

definition maxAlloc :: int where [simp]: "maxAlloc = 2 ^ 48"

definition ReadBytes :: "Context \<Rightarrow> int \<Rightarrow> (bytes \<times> Context) result" where
  "ReadBytes c n =
     (if n = 0 then Ok ([], c)
      else if n < 0 \<or> n > maxAlloc then Panic ''runtime error: makeslice: len out of range''
      else if c = [] then
        Err (TruncationError (''tried to read '' @ dec_int n @ '' bytes: EOF''))
      else Ok (take (nat n) c @ replicate (nat n - length c) 0, drop (nat n) c))"

definition WriteVarBytes :: "Context \<Rightarrow> bytes \<Rightarrow> Context" where
  "WriteVarBytes c v = WriteBytes (WriteVarUint c (word_of_nat (length v))) v"

definition ReadVarBytes :: "Context \<Rightarrow> int \<Rightarrow> (bytes \<times> Context) result" where
  "ReadVarBytes c maxLen = andThen (ReadVarUint c) (\<lambda>(l, c').
     if maxLen \<ge> 0 \<and> sint l > maxLen then
       Err (DeserializationError
         (''varbytes max length exceeded; '' @ dec_nat (unat l) @ '' > '' @ dec_int maxLen))
     else ReadBytes c' (sint l))"

definition ReadVarBytesMinMax :: "Context \<Rightarrow> int \<Rightarrow> int \<Rightarrow> (bytes \<times> Context) result" where
  "ReadVarBytesMinMax c minLen maxLen = andThen (ReadVarUint c) (\<lambda>(l, c').
     if sint l > maxLen then
       Err (DeserializationError
         (''varbytes max length exceeded; '' @ dec_nat (unat l) @ '' > '' @ dec_int maxLen))
     else if sint l < minLen then
       Err (DeserializationError
         (''varbytes min length not met; '' @ dec_nat (unat l) @ '' < '' @ dec_int minLen))
     else ReadBytes c' (sint l))"

text \<open>On a failed read \<open>actual\<close> is nil, which prints as the empty string.\<close>

definition AssertMagic :: "Context \<Rightarrow> bytes \<Rightarrow> Context result" where
  "AssertMagic c expected =
     (case ReadBytes c (int (length expected)) of
        Panic p \<Rightarrow> Panic p
      | Err e \<Rightarrow> Err (BadMagicError expected [])
      | Ok (actual, c') \<Rightarrow>
          if expected \<noteq> actual then Err (BadMagicError expected actual) else Ok c')"

definition AssertEOF :: "Context \<Rightarrow> unit result" where
  "AssertEOF c = (if length c > 0 then Err TrailingGarbageError else Ok ())"

section \<open>Bytes of a variable-length integer\<close>

lemma seven_bits: "(0x7f :: 'a::len word) = mask 7"
  by (simp add: mask_eq_exp_minus_1)

lemma bit_flag_byte: "bit (0x80 :: byte) n \<longleftrightarrow> n = 7" "bit (0x80 :: int) n \<longleftrightarrow> n = 7"
proof -
  have "(0x80 :: byte) = 2 ^ 7" by simp
  then show "bit (0x80 :: byte) n \<longleftrightarrow> n = 7" by (simp only: bit_exp_iff) auto
  have "(0x80 :: int) = 2 ^ 7" by simp
  then show "bit (0x80 :: int) n \<longleftrightarrow> n = 7" by (simp only: bit_exp_iff) auto
qed

lemma varuint_payload [ots_simps]:
  "ucast ((ucast (v AND 0x7f) :: byte) AND 0x7f) = take_bit 7 (v :: u64)"
  "ucast (((ucast (v AND 0x7f) :: byte) OR 0x80) AND 0x7f) = take_bit 7 (v :: u64)"
  unfolding seven_bits by (rule bit_word_eqI, auto simp: bit_simps bit_flag_byte)+

lemma varuint_flag [ots_simps]:
  fixes v :: u64
  shows "(ucast (v AND 0x7f) :: byte) AND 0x80 = 0"
    and "((ucast (v AND 0x7f) :: byte) OR 0x80) AND 0x80 = 0 \<longleftrightarrow> False"
proof -
  show "(ucast (v AND 0x7f) :: byte) AND 0x80 = 0"
    unfolding seven_bits by (rule bit_word_eqI) (auto simp: bit_simps bit_flag_byte)
  have "bit (((ucast (v AND 0x7f) :: byte) OR 0x80) AND 0x80) 7"
    by (simp add: bit_simps)
  then show "((ucast (v AND 0x7f) :: byte) OR 0x80) AND 0x80 = 0 \<longleftrightarrow> False"
    by auto
qed

lemma take_drop_7: "take_bit 7 v OR push_bit 7 (drop_bit 7 v) = (v :: u64)"
proof (rule bit_word_eqI)
  fix n
  show "bit (take_bit 7 v OR push_bit 7 (drop_bit 7 v)) n = bit v n" if "n < LENGTH(64)"
    using that by (cases "n < 7") (auto simp: bit_simps)
qed

lemma push_take_drop_7:
  "(acc OR push_bit s (take_bit 7 v)) OR push_bit (s + 7) (drop_bit 7 v) = acc OR push_bit s (v :: u64)"
proof -
  have "push_bit s v = push_bit s (take_bit 7 v OR push_bit 7 (drop_bit 7 v))"
    by (simp only: take_drop_7)
  also have "\<dots> = push_bit s (take_bit 7 v) OR push_bit (s + 7) (drop_bit 7 v)"
    by (simp add: push_bit_or add.commute)
  finally show ?thesis by (simp only: or.assoc)
qed

text \<open>
  The reference encoding of an integer: seven payload bits per byte, lowest first, the top bit
  set on all bytes but the last.
\<close>

function varuint_enc :: "u64 \<Rightarrow> bytes" where
  "varuint_enc v =
     (if drop_bit 7 v = 0 then [ucast (v AND 0x7f)]
      else (ucast (v AND 0x7f) OR 0x80) # varuint_enc (drop_bit 7 v))"
  by pat_completeness auto
termination
proof (relation "measure unat")
  fix v :: u64
  assume "drop_bit 7 v \<noteq> 0"
  then have "v \<noteq> 0" by auto
  then show "(drop_bit 7 v, v) \<in> measure unat" by (simp add: unat_drop_bit_7_less)
qed simp

declare varuint_enc.simps [simp del]

lemma WriteVarUint_loop_enc: "v \<noteq> 0 \<Longrightarrow> WriteVarUint_loop c v = c @ varuint_enc v"
proof (induction c v rule: WriteVarUint_loop.induct)
  case (1 c v)
  then show ?case
    by (cases "drop_bit 7 v = 0")
      (simp_all add: WriteVarUint_loop.simps [of _ v] WriteVarUint_loop.simps [of _ 0]
         varuint_enc.simps [of v] writeByte_def)
qed

lemma WriteVarUint_enc: "WriteVarUint c v = c @ varuint_enc v"
  by (cases "v = 0")
    (simp_all add: WriteVarUint_def WriteVarUint_loop_enc writeByte_def varuint_enc.simps [of 0])

lemma readByte_simps [simp]:
  "readByte [] = Err (TruncationError ''EOF'')"
  "readByte (b # c) = Ok (b, c)"
  by (simp_all add: readByte_def)

lemma ReadVarUint_loop_enc:
  "ReadVarUint_loop (varuint_enc v @ rest) acc s = Ok (acc OR push_bit s v, rest)"
proof (induction v arbitrary: acc s rule: varuint_enc.induct)
  case (1 v)
  show ?case
  proof (cases "drop_bit 7 v = 0")
    case True
    then have "take_bit 7 v = v" using take_drop_7 [of v] by simp
    then show ?thesis using True
      by (simp add: varuint_enc.simps [of v] ReadVarUint_loop.simps ots_simps)
  next
    case False
    then show ?thesis using "1" [of _ "s + 7"] push_take_drop_7 [of acc s v]
      by (simp add: varuint_enc.simps [of v] ReadVarUint_loop.simps ots_simps)
  qed
qed

lemma varuint_enc_length: "unat v < 128 ^ n \<Longrightarrow> 0 < n \<Longrightarrow> length (varuint_enc v) \<le> n"
proof (induction v arbitrary: n rule: varuint_enc.induct)
  case (1 v)
  show ?case
  proof (cases "drop_bit 7 v = 0")
    case True
    then show ?thesis using "1.prems" by (simp add: varuint_enc.simps [of v])
  next
    case False
    then have "0 < unat v div 128" by (metis unat_drop_bit_7 unat_gt_0)
    then have "128 \<le> unat v" by (simp add: div_greater_zero_iff)
    then obtain m where m: "n = Suc m" "0 < m"
      using "1.prems" by (cases n; cases "n - 1") auto
    have "unat (drop_bit 7 v) < 128 ^ m"
      using "1.prems" m by (simp only: unat_drop_bit_7) (simp add: less_mult_imp_div_less mult.commute)
    then show ?thesis using "1.IH" [OF False, of m] m False by (simp add: varuint_enc.simps [of v])
  qed
qed

lemma varuint_enc_nonempty [simp]: "varuint_enc v \<noteq> []"
  by (simp add: varuint_enc.simps [of v])

lemma ReadVarUint_enc [ots_roundtrip]: "ReadVarUint (varuint_enc v @ rest) = Ok (v, rest)"
  by (simp add: ReadVarUint_def ReadVarUint_loop_enc)

lemma varuint_enc_length_10: "length (varuint_enc v) \<le> 10"
proof (rule varuint_enc_length)
  have "unat v < 2 ^ 64" using unsigned_less [of v, where ?'a = nat] by simp
  then show "unat v < 128 ^ 10" by simp
qed simp

section \<open>What reads consume, and when they panic\<close>

lemma ReadVarUint_loop_steps [simp]:
  "ReadVarUint_loop [] acc s = Err (TruncationError ''EOF'')"
  "ReadVarUint_loop (b # c) acc s =
     (if b AND 0x80 = 0 then Ok (acc OR push_bit s (ucast (b AND 0x7f)), c)
      else ReadVarUint_loop c (acc OR push_bit s (ucast (b AND 0x7f))) (s + 7))"
  by (simp_all add: ReadVarUint_loop.simps [of "[]"] ReadVarUint_loop.simps [of "b # c"] Let_def)

lemma ReadVarUint_loop_consumes:
  "ReadVarUint_loop c acc s = Ok (v, c') \<Longrightarrow> length c' < length c"
  by (induction c arbitrary: acc s) (fastforce split: if_splits)+

lemma ReadVarUint_loop_no_panic: "\<not> is_panic (ReadVarUint_loop c acc s)"
  by (induction c arbitrary: acc s) auto

lemma ReadVarUint_consumes: "ReadVarUint c = Ok (v, c') \<Longrightarrow> length c' < length c"
  by (simp add: ReadVarUint_def ReadVarUint_loop_consumes)

lemma ReadVarUint_no_panic: "\<not> is_panic (ReadVarUint c)"
  by (simp add: ReadVarUint_def ReadVarUint_loop_no_panic)

lemma ReadUint8_simps [simp]:
  "ReadUint8 [] = Err (TruncationError ''EOF'')"
  "ReadUint8 (b # c) = Ok (b, c)"
  by (simp_all add: ReadUint8_def)

lemma ReadUint8_OkD: "ReadUint8 c = Ok (b, c') \<Longrightarrow> c = b # c'"
  by (cases c) simp_all

lemma ReadUint8_no_panic: "\<not> is_panic (ReadUint8 c)"
  by (cases c) simp_all

lemma ReadBytes_append [ots_roundtrip]:
  "n = int (length v) \<Longrightarrow> n \<le> maxAlloc \<Longrightarrow> ReadBytes (v @ rest) n = Ok (v, rest)"
  by (auto simp: ReadBytes_def)

lemma ReadBytes_OkD:
  "ReadBytes c n = Ok (v, c') \<Longrightarrow> 0 \<le> n \<and> int (length v) = n \<and> length c' \<le> length c"
  by (auto simp: ReadBytes_def split: if_splits)

lemma ReadBytes_no_panic: "0 \<le> n \<Longrightarrow> n \<le> maxAlloc \<Longrightarrow> \<not> is_panic (ReadBytes c n)"
  by (simp add: ReadBytes_def)

lemma ReadVarBytes_consumes: "ReadVarBytes c m = Ok (v, c') \<Longrightarrow> length c' < length c"
  by (auto simp: ReadVarBytes_def andThen_eq_Ok split: if_splits
      dest!: ReadVarUint_consumes ReadBytes_OkD)

lemma ReadVarBytesMinMax_consumes: "ReadVarBytesMinMax c m n = Ok (v, c') \<Longrightarrow> length c' < length c"
  by (auto simp: ReadVarBytesMinMax_def andThen_eq_Ok split: if_splits
      dest!: ReadVarUint_consumes ReadBytes_OkD)

lemma ReadVarBytesMinMax_bounds:
  "ReadVarBytesMinMax c m n = Ok (v, c') \<Longrightarrow> m \<le> int (length v) \<and> int (length v) \<le> n"
  by (auto simp: ReadVarBytesMinMax_def andThen_eq_Ok split: if_splits dest!: ReadBytes_OkD)

lemma ReadVarBytesMinMax_no_panic:
  "0 \<le> m \<Longrightarrow> n \<le> maxAlloc \<Longrightarrow> \<not> is_panic (ReadVarBytesMinMax c m n)"
  using ReadVarUint_no_panic [of c]
  by (auto simp: ReadVarBytesMinMax_def is_panic_iff andThen_eq_Panic ReadBytes_def
      split: if_splits)

lemma ReadVarBytes_bound:
  "0 \<le> m \<Longrightarrow> ReadVarBytes c m = Ok (v, c') \<Longrightarrow> int (length v) \<le> m"
  by (auto simp: ReadVarBytes_def andThen_eq_Ok split: if_splits dest!: ReadBytes_OkD)

lemma odd_div_top_half: "u < 2 * m \<Longrightarrow> odd (u div m) \<longleftrightarrow> m \<le> (u :: nat)"
proof (cases "m \<le> u")
  case True
  assume "u < 2 * m"
  with True have "u div m = 1" by (simp add: div_nat_eqI)
  with True show ?thesis by simp
qed simp

lemma sint_neg_iff: "sint (l :: u64) < 0 \<longleftrightarrow> 2 ^ 63 \<le> unat l"
proof -
  have "unat l < 2 * 2 ^ 63" using unsigned_less [of l, where ?'a = nat] by simp
  then have "odd (unat l div 2 ^ 63) \<longleftrightarrow> 2 ^ 63 \<le> unat l"
    by (rule odd_div_top_half)
  moreover have "bit (unat l) 63 \<longleftrightarrow> bit l 63"
    by (simp add: bit_unsigned_iff)
  then have "bit l 63 \<longleftrightarrow> odd (unat l div 2 ^ 63)"
    by (simp only: bit_iff_odd [of "unat l"])
  moreover note this
  moreover have "sint l < 0 \<longleftrightarrow> bit l 63"
    using bit_last_iff [of l] by simp
  ultimately show ?thesis by blast
qed

lemma sint_small: "n < 2 ^ 63 \<Longrightarrow> sint (word_of_nat n :: u64) = int n"
proof -
  assume "n < 2 ^ 63"
  then have "uint (word_of_nat n :: u64) = int n"
    by (simp add: uint_nat unat_of_nat take_bit_nat_eq_self)
  with \<open>n < 2 ^ 63\<close> show ?thesis
    by (simp only: sint_uint) (simp add: signed_take_bit_int_eq_self)
qed

lemma ReadVarBytes_enc [ots_roundtrip]:
  "int (length v) \<le> maxAlloc \<Longrightarrow> m < 0 \<or> int (length v) \<le> m \<Longrightarrow>
   ReadVarBytes (WriteVarBytes [] v @ rest) m = Ok (v, rest)"
  by (auto simp: ReadVarBytes_def WriteVarBytes_def WriteBytes_def WriteVarUint_enc
      ots_roundtrip sint_small maxAlloc_def)

lemma ReadVarBytesMinMax_enc [ots_roundtrip]:
  "int (length v) \<le> maxAlloc \<Longrightarrow> m \<le> int (length v) \<Longrightarrow> int (length v) \<le> n \<Longrightarrow>
   ReadVarBytesMinMax (WriteVarBytes [] v @ rest) m n = Ok (v, rest)"
  by (auto simp: ReadVarBytesMinMax_def WriteVarBytes_def WriteBytes_def WriteVarUint_enc
      ots_roundtrip sint_small maxAlloc_def)

lemma WriteVarBytes_append: "WriteVarBytes c v = c @ WriteVarBytes [] v"
  by (simp add: WriteVarBytes_def WriteBytes_def WriteVarUint_enc)

section \<open>The codec interface\<close>

text \<open>
  What every encoder/decoder pair of the program promises to the code that composes it:
  decoding an encoding followed by any bytes returns the value and those bytes. The client
  lemmas say that such encodings can be concatenated without separators.
\<close>

locale codec =
  fixes enc :: "'a \<Rightarrow> bytes"
    and dec :: "bytes \<Rightarrow> ('a \<times> bytes) result"
    and valid :: "'a \<Rightarrow> bool"
  assumes dec_enc: "valid x \<Longrightarrow> dec (enc x @ rest) = Ok (x, rest)"
begin

lemma enc_prefix_free: "valid x \<Longrightarrow> valid y \<Longrightarrow> enc x @ r = enc y @ s \<Longrightarrow> x = y \<and> r = s"
  by (metis dec_enc result.inject(1) prod.inject)

lemma enc_inj: "valid x \<Longrightarrow> valid y \<Longrightarrow> enc x = enc y \<Longrightarrow> x = y"
  by (metis enc_prefix_free)

lemma concat_enc_inj:
  "list_all valid xs \<Longrightarrow> list_all valid ys \<Longrightarrow> length xs = length ys \<Longrightarrow>
   concat (map enc xs) = concat (map enc ys) \<Longrightarrow> xs = ys"
proof (induction xs arbitrary: ys)
  case (Cons x xs)
  then obtain y ys' where ys: "ys = y # ys'" by (cases ys) auto
  from Cons.prems ys have "valid x" "valid y" and
    "enc x @ concat (map enc xs) = enc y @ concat (map enc ys')" by auto
  then have "x = y" and "concat (map enc xs) = concat (map enc ys')"
    by (blast dest: enc_prefix_free)+
  with Cons.IH [of ys'] Cons.prems ys show ?case by simp
qed simp

end

interpretation varuint: codec varuint_enc ReadVarUint "\<lambda>_. True"
  by unfold_locales (simp add: ReadVarUint_enc)

interpretation varbytes: codec "WriteVarBytes []" "\<lambda>c. ReadVarBytes c m"
  "\<lambda>v. int (length v) \<le> maxAlloc \<and> (m < 0 \<or> int (length v) \<le> m)" for m
  by unfold_locales (simp add: ReadVarBytes_enc)

section \<open>Properties\<close>

text \<open>
  Variable-length integers round-trip: \<open>WriteVarUint\<close> appends between one and ten bytes to
  the context, and \<open>ReadVarUint\<close> reads those bytes back to the same 64-bit value, leaving the
  bytes that follow untouched.
\<close>

theorem varuint_roundtrip:
  "\<exists>e. WriteVarUint c v = c @ e \<and> 1 \<le> length e \<and> length e \<le> 10 \<and>
       ReadVarUint (e @ rest) = Ok (v, rest)"
proof (intro exI conjI)
  show "1 \<le> length (varuint_enc v)" by (cases "varuint_enc v") auto
qed (simp_all add: WriteVarUint_enc varuint_enc_length_10 ReadVarUint_enc)

text \<open>
  Length-prefixed byte strings round-trip whenever the reader's limit admits them.
\<close>

theorem varbytes_roundtrip:
  assumes "int (length v) \<le> maxAlloc" and "m < 0 \<or> int (length v) \<le> m"
  shows "\<exists>e. WriteVarBytes c v = c @ e \<and> ReadVarBytes (e @ rest) m = Ok (v, rest)"
  using varbytes.dec_enc [of v m rest] assms
  by (intro exI [of _ "WriteVarBytes [] v"]) (simp add: WriteVarBytes_append [of c])

text \<open>
  \<open>ReadVarBytesMinMax\<close> with a non-negative minimum and a maximum that can be allocated never panics, and what it returns has a
  length within the limits.
\<close>

theorem varbytes_min_max_safe:
  assumes "0 \<le> m" and "n \<le> maxAlloc"
  shows "\<not> is_panic (ReadVarBytesMinMax c m n) \<and>
    (\<forall>v c'. ReadVarBytesMinMax c m n = Ok (v, c') \<longrightarrow>
       m \<le> int (length v) \<and> int (length v) \<le> n \<and> length c' < length c)"
  using ReadVarBytesMinMax_no_panic [OF assms] ReadVarBytesMinMax_bounds
    ReadVarBytesMinMax_consumes by blast

text \<open>A buffer that is too short, but not empty, is read as if zero bytes followed.\<close>

lemma ReadBytes_pads_short_input:
  "c \<noteq> [] \<Longrightarrow> int (length c) < n \<Longrightarrow> n \<le> maxAlloc \<Longrightarrow> ReadBytes c n = Ok (c @ replicate (nat n - length c) 0, [])"
  by (auto simp: ReadBytes_def)

end
