(* ===== verification/Op.thy ===== *)
theory Op
  imports Serialize
begin

text \<open>
  The operations of \<^verbatim>\<open>internal/core/op/op.go\<close>. The five implementations of the Go interface
  \<open>Op\<close> are the constructors of one datatype; its methods are functions on it. The struct
  \<open>cryptOp\<close> is private and built by two constructors only, which fix its four fields, so a
  value of it is the name of its hash. The digest functions are a parameter \<open>H\<close>: one field
  per hash package that the file imports.
\<close>

section \<open>Hash functions\<close>

record hashes =
  sha256_Sum256 :: "bytes \<Rightarrow> bytes"
  sha1_Sum :: "bytes \<Rightarrow> bytes"
  ripemd160_Sum :: "bytes \<Rightarrow> bytes"
  keccak256_Sum :: "bytes \<Rightarrow> bytes"

text \<open>The documented digest lengths (\<open>sha256.Size\<close>, \<open>sha1.Size\<close>, \<open>ripemd160.Size\<close>, 32).\<close>

definition hash_sizes :: "hashes \<Rightarrow> bool" where
  "hash_sizes H \<longleftrightarrow>
     (\<forall>m. length (sha256_Sum256 H m) = 32) \<and> (\<forall>m. length (sha1_Sum H m) = 20) \<and>
     (\<forall>m. length (ripemd160_Sum H m) = 20) \<and> (\<forall>m. length (keccak256_Sum H m) = 32)"

section \<open>Limits\<close>

definition MaxResultLength :: nat where
  "MaxResultLength = 4096"

definition MaxMsgLength :: nat where
  "MaxMsgLength = 4096"

section \<open>The operations\<close>

datatype crypt = RIPEMD160 | KECCAK256

datatype op = AppendOp bytes | PrependOp bytes | SHA256Op | Sha1Op | CryptOp crypt

primrec crypt_tag :: "crypt \<Rightarrow> byte" where
  "crypt_tag RIPEMD160 = 0x03"
| "crypt_tag KECCAK256 = 0x67"

primrec crypt_name :: "crypt \<Rightarrow> string" where
  "crypt_name RIPEMD160 = ''ripemd160''"
| "crypt_name KECCAK256 = ''keccak256''"

primrec crypt_digestLength :: "crypt \<Rightarrow> nat" where
  "crypt_digestLength RIPEMD160 = 20"
| "crypt_digestLength KECCAK256 = 32"

primrec crypt_newHash :: "hashes \<Rightarrow> crypt \<Rightarrow> bytes \<Rightarrow> bytes" where
  "crypt_newHash H RIPEMD160 = ripemd160_Sum H"
| "crypt_newHash H KECCAK256 = keccak256_Sum H"

definition NewRIPEMD160 :: op where
  "NewRIPEMD160 = CryptOp RIPEMD160"

definition NewKeccak256 :: op where
  "NewKeccak256 = CryptOp KECCAK256"

definition NewSHA256 :: op where
  "NewSHA256 = SHA256Op"

primrec op_Tag :: "op \<Rightarrow> byte" where
  "op_Tag (AppendOp arg) = 0xf0"
| "op_Tag (PrependOp arg) = 0xf1"
| "op_Tag SHA256Op = 0x08"
| "op_Tag Sha1Op = 0x02"
| "op_Tag (CryptOp k) = crypt_tag k"

primrec op_TagName :: "op \<Rightarrow> string" where
  "op_TagName (AppendOp arg) = ''append''"
| "op_TagName (PrependOp arg) = ''prepend''"
| "op_TagName SHA256Op = ''sha256''"
| "op_TagName Sha1Op = ''sha1''"
| "op_TagName (CryptOp k) = crypt_name k"

definition applyUnary :: "bytes \<Rightarrow> (bytes \<Rightarrow> bytes) \<Rightarrow> bytes result" where
  "applyUnary msg fn =
     (if length msg > MaxMsgLength then
        Err (MsgValueError (''message too long; '' @ dec_nat (length msg) @ '' > '' @
               dec_nat MaxMsgLength))
      else let r = fn msg in
        if length r = 0 then Err (MsgValueError ''empty result'')
        else if length r > MaxResultLength then
          Err (MsgValueError (''result too long; '' @ dec_nat (length r) @ '' > '' @
                 dec_nat MaxResultLength))
        else Ok r)"

primrec op_Apply :: "hashes \<Rightarrow> op \<Rightarrow> bytes \<Rightarrow> bytes result" where
  "op_Apply H (AppendOp arg) msg = applyUnary msg (\<lambda>m. m @ arg)"
| "op_Apply H (PrependOp arg) msg = applyUnary msg (\<lambda>m. arg @ m)"
| "op_Apply H SHA256Op msg = applyUnary msg (sha256_Sum256 H)"
| "op_Apply H Sha1Op msg = applyUnary msg (sha1_Sum H)"
| "op_Apply H (CryptOp k) msg = applyUnary msg (crypt_newHash H k)"

primrec op_Serialize :: "Context \<Rightarrow> op \<Rightarrow> Context" where
  "op_Serialize c (AppendOp arg) = WriteVarBytes (WriteBytes c [op_Tag (AppendOp arg)]) arg"
| "op_Serialize c (PrependOp arg) = WriteVarBytes (WriteBytes c [op_Tag (PrependOp arg)]) arg"
| "op_Serialize c SHA256Op = WriteBytes c [op_Tag SHA256Op]"
| "op_Serialize c Sha1Op = WriteBytes c [op_Tag Sha1Op]"
| "op_Serialize c (CryptOp k) = WriteBytes c [crypt_tag k]"

text \<open>
  \<open>Less\<close>: the type assertions \<open>other.(*appendOp)\<close> are reached only under equal tags, and no
  two types share a tag, so they cannot fail.
\<close>

fun op_Less :: "op \<Rightarrow> op \<Rightarrow> bool" where
  "op_Less (AppendOp arg) (AppendOp arg') = (arg < arg')"
| "op_Less (PrependOp arg) (PrependOp arg') = (arg < arg')"
| "op_Less (CryptOp k) other =
     (if crypt_tag k \<noteq> op_Tag other then crypt_tag k < op_Tag other else False)"
| "op_Less o1 o2 = (op_Tag o1 < op_Tag o2)"

fun op_Equal :: "op \<Rightarrow> op \<Rightarrow> bool" where
  "op_Equal (AppendOp arg) (AppendOp arg') = (arg = arg')"
| "op_Equal (PrependOp arg) (PrependOp arg') = (arg = arg')"
| "op_Equal SHA256Op SHA256Op = True"
| "op_Equal Sha1Op Sha1Op = True"
| "op_Equal (CryptOp k) (CryptOp k') = (crypt_tag k' = crypt_tag k)"
| "op_Equal _ _ = False"

definition NewAppend :: "bytes \<Rightarrow> op result" where
  "NewAppend arg =
     (if length arg = 0 then Err (OpArgValueError ''OpAppend arg can't be empty'')
      else if length arg > MaxResultLength then
        Err (OpArgValueError (''OpAppend arg too long: '' @ dec_nat (length arg) @ '' > '' @
               dec_nat MaxResultLength))
      else Ok (AppendOp arg))"

definition NewPrepend :: "bytes \<Rightarrow> op result" where
  "NewPrepend arg =
     (if length arg = 0 then Err (OpArgValueError ''OpPrepend arg can't be empty'')
      else if length arg > MaxResultLength then
        Err (OpArgValueError (''OpPrepend arg too long: '' @ dec_nat (length arg) @ '' > '' @
               dec_nat MaxResultLength))
      else Ok (PrependOp arg))"

definition OpString :: "op \<Rightarrow> string" where
  "OpString x =
     (case x of
        AppendOp arg \<Rightarrow> ''append '' @ hex_EncodeToString arg
      | PrependOp arg \<Rightarrow> ''prepend '' @ hex_EncodeToString arg
      | _ \<Rightarrow> op_TagName x)"

section \<open>Hashing a stream\<close>

text \<open>
  An \<open>io.Reader\<close> is the sequence of what its \<open>Read\<close> calls return: the bytes copied into the
  buffer and the error, \<open>EOF\<close> or another. After the sequence every call returns no bytes and
  \<open>EOF\<close>.
\<close>

datatype read_err = EOF | ReadErr go_error

type_synonym reader = "(bytes \<times> read_err option) list"

fun HashReader_loop :: "bytes \<Rightarrow> reader \<Rightarrow> bytes result" where
  "HashReader_loop h [] = Ok h"
| "HashReader_loop h ((buf, err) # r) =
     (let h' = (if length buf > 0 then h @ buf else h)
      in case err of
           Some EOF \<Rightarrow> Ok h'
         | Some (ReadErr e) \<Rightarrow> Err e
         | None \<Rightarrow> HashReader_loop h' r)"

definition SHA256_HashReader :: "hashes \<Rightarrow> reader \<Rightarrow> bytes result" where
  "SHA256_HashReader H r = andThen (HashReader_loop [] r) (\<lambda>h. Ok (sha256_Sum256 H h))"

definition crypt_HashReader :: "hashes \<Rightarrow> crypt \<Rightarrow> reader \<Rightarrow> bytes result" where
  "crypt_HashReader H k r = andThen (HashReader_loop [] r) (\<lambda>h. Ok (crypt_newHash H k h))"

definition SHA256_DigestLength :: nat where
  "SHA256_DigestLength = 32"

section \<open>Decoding: the tag registry\<close>

type_synonym op_deser = "Context \<Rightarrow> byte \<Rightarrow> (op \<times> Context) result"

definition Register :: "(byte \<rightharpoonup> op_deser) \<Rightarrow> byte \<Rightarrow> op_deser \<Rightarrow> (byte \<rightharpoonup> op_deser)" where
  "Register reg tag deser = reg(tag \<mapsto> deser)"

definition deser_append :: op_deser where
  "deser_append c tag = andThen (ReadVarBytesMinMax c 1 (int MaxResultLength)) (\<lambda>(arg, c').
     andThen (NewAppend arg) (\<lambda>x. Ok (x, c')))"

definition deser_prepend :: op_deser where
  "deser_prepend c tag = andThen (ReadVarBytesMinMax c 1 (int MaxResultLength)) (\<lambda>(arg, c').
     andThen (NewPrepend arg) (\<lambda>x. Ok (x, c')))"

definition tagRegistry :: "byte \<rightharpoonup> op_deser" where
  "tagRegistry =
     (let r1 = Register Map.empty 0xf0 deser_append;
          r2 = Register r1 0xf1 deser_prepend;
          r3 = Register r2 0x08 (\<lambda>c tag. Ok (SHA256Op, c));
          r4 = Register r3 0x02 (\<lambda>c tag. Ok (Sha1Op, c));
          r5 = Register r4 0x03 (\<lambda>c tag. Ok (NewRIPEMD160, c))
      in Register r5 0x67 (\<lambda>c tag. Ok (NewKeccak256, c)))"

definition DeserializeFromTag :: "Context \<Rightarrow> byte \<Rightarrow> (op \<times> Context) result" where
  "DeserializeFromTag c tag =
     (case tagRegistry tag of
        None \<Rightarrow> Err (DeserializationError (''unknown operation tag 0x'' @ hex_byte tag))
      | Some f \<Rightarrow> f c tag)"

definition op_Deserialize :: "Context \<Rightarrow> (op \<times> Context) result" where
  "op_Deserialize c = andThen (ReadUint8 c) (\<lambda>(tag, c'). DeserializeFromTag c' tag)"

section \<open>The order on operations\<close>

primrec op_arg :: "op \<Rightarrow> bytes" where
  "op_arg (AppendOp arg) = arg"
| "op_arg (PrependOp arg) = arg"
| "op_arg SHA256Op = []"
| "op_arg Sha1Op = []"
| "op_arg (CryptOp k) = []"

lemma op_crypt_cases:
  obtains (append) arg where "a = AppendOp arg" | (prepend) arg where "a = PrependOp arg"
    | (sha256) "a = SHA256Op" | (sha1) "a = Sha1Op"
    | (ripemd160) "a = CryptOp RIPEMD160" | (keccak256) "a = CryptOp KECCAK256"
proof (cases a)
  case (CryptOp k)
  then show ?thesis using that by (cases k) simp_all
qed (use that in auto)

text \<open>\<open>Less\<close> compares the tags first and the arguments second; \<open>Equal\<close> is equality.\<close>

lemma op_Less_iff: "op_Less a b \<longleftrightarrow> op_Tag a < op_Tag b \<or> op_Tag a = op_Tag b \<and> op_arg a < op_arg b"
  by (cases a rule: op_crypt_cases; cases b rule: op_crypt_cases) simp_all

lemma op_Tag_arg_inj: "op_Tag a = op_Tag b \<Longrightarrow> op_arg a = op_arg b \<Longrightarrow> a = b"
  by (cases a rule: op_crypt_cases; cases b rule: op_crypt_cases) simp_all

lemma op_Equal_iff [simp]: "op_Equal a b \<longleftrightarrow> a = b"
  by (cases a rule: op_crypt_cases; cases b rule: op_crypt_cases) simp_all

instantiation op :: linorder
begin

definition less_op :: "op \<Rightarrow> op \<Rightarrow> bool" where
  "less_op a b = op_Less a b"

definition less_eq_op :: "op \<Rightarrow> op \<Rightarrow> bool" where
  "less_eq_op a b = (op_Less a b \<or> a = b)"

instance
proof
  fix x y z :: op
  show "(x < y) = (x \<le> y \<and> \<not> y \<le> x)"
    by (auto simp: less_op_def less_eq_op_def op_Less_iff)
  show "x \<le> x" by (simp add: less_eq_op_def)
  show "x \<le> y \<Longrightarrow> y \<le> z \<Longrightarrow> x \<le> z"
    by (auto simp: less_eq_op_def op_Less_iff)
  show "x \<le> y \<Longrightarrow> y \<le> x \<Longrightarrow> x = y"
    by (auto simp: less_eq_op_def op_Less_iff)
  show "x \<le> y \<or> y \<le> x"
    by (auto simp: less_eq_op_def op_Less_iff not_less le_less intro: op_Tag_arg_inj)
qed

end

section \<open>Applying operations\<close>

primrec op_ok :: "op \<Rightarrow> bool" where
  "op_ok (AppendOp arg) \<longleftrightarrow> 0 < length arg \<and> length arg \<le> MaxResultLength"
| "op_ok (PrependOp arg) \<longleftrightarrow> 0 < length arg \<and> length arg \<le> MaxResultLength"
| "op_ok SHA256Op \<longleftrightarrow> True"
| "op_ok Sha1Op \<longleftrightarrow> True"
| "op_ok (CryptOp k) \<longleftrightarrow> True"

primrec op_fn :: "hashes \<Rightarrow> op \<Rightarrow> bytes \<Rightarrow> bytes" where
  "op_fn H (AppendOp arg) = (\<lambda>m. m @ arg)"
| "op_fn H (PrependOp arg) = (\<lambda>m. arg @ m)"
| "op_fn H SHA256Op = sha256_Sum256 H"
| "op_fn H Sha1Op = sha1_Sum H"
| "op_fn H (CryptOp k) = crypt_newHash H k"

lemma op_Apply_fn: "op_Apply H x m = applyUnary m (op_fn H x)"
  by (cases x) simp_all

lemma op_Apply_OkD:
  "op_Apply H x m = Ok r \<Longrightarrow>
   r = op_fn H x m \<and> length m \<le> MaxMsgLength \<and> 0 < length r \<and> length r \<le> MaxResultLength"
  by (auto simp: op_Apply_fn applyUnary_def Let_def split: if_splits)

lemma op_Apply_no_panic: "\<not> is_panic (op_Apply H x m)"
  by (simp add: op_Apply_fn applyUnary_def Let_def)

lemma hash_sizesD:
  assumes "hash_sizes H"
  shows "length (sha256_Sum256 H m) = 32" and "length (sha1_Sum H m) = 20"
    and "length (ripemd160_Sum H m) = 20" and "length (keccak256_Sum H m) = 32"
  using assms by (auto simp: hash_sizes_def)

lemma op_Apply_SHA256 [ots_simps]:
  "hash_sizes H \<Longrightarrow> length m \<le> MaxMsgLength \<Longrightarrow> op_Apply H SHA256Op m = Ok (sha256_Sum256 H m)"
  using hash_sizesD(1) [of H m] by (auto simp: applyUnary_def Let_def MaxResultLength_def)

lemma op_Apply_append [ots_simps]:
  "length m + length arg \<le> MaxMsgLength \<Longrightarrow> 0 < length arg \<Longrightarrow>
   op_Apply H (AppendOp arg) m = Ok (m @ arg)"
  "length m + length arg \<le> MaxMsgLength \<Longrightarrow> 0 < length arg \<Longrightarrow>
   op_Apply H (PrependOp arg) m = Ok (arg @ m)"
  by (simp_all add: applyUnary_def MaxResultLength_def MaxMsgLength_def)

lemma NewAppend_eq: "op_ok (AppendOp arg) \<Longrightarrow> NewAppend arg = Ok (AppendOp arg)"
  and NewPrepend_eq: "op_ok (PrependOp arg) \<Longrightarrow> NewPrepend arg = Ok (PrependOp arg)"
  by (simp_all add: NewAppend_def NewPrepend_def)

lemma NewAppend_OkD: "NewAppend arg = Ok x \<Longrightarrow> x = AppendOp arg \<and> op_ok x"
  and NewPrepend_OkD: "NewPrepend arg = Ok y \<Longrightarrow> y = PrependOp arg \<and> op_ok y"
  by (auto simp: NewAppend_def NewPrepend_def split: if_splits)

lemma New_op_no_panic: "\<not> is_panic (NewAppend arg)" "\<not> is_panic (NewPrepend arg)"
  by (simp_all add: NewAppend_def NewPrepend_def)

section \<open>Encoding operations\<close>

lemma op_Serialize_append: "op_Serialize c x = c @ op_Serialize [] x"
  by (cases x) (simp_all add: WriteBytes_def WriteVarBytes_append [of "_ @ _"] WriteVarBytes_append [of "[_]"])

lemma tagRegistry_apply:
  "tagRegistry tag =
     (if tag = 0x67 then Some (\<lambda>c tag. Ok (NewKeccak256, c))
      else if tag = 0x03 then Some (\<lambda>c tag. Ok (NewRIPEMD160, c))
      else if tag = 0x02 then Some (\<lambda>c tag. Ok (Sha1Op, c))
      else if tag = 0x08 then Some (\<lambda>c tag. Ok (SHA256Op, c))
      else if tag = 0xf1 then Some deser_prepend
      else if tag = 0xf0 then Some deser_append else None)"
  by (simp add: tagRegistry_def Register_def Let_def)

lemma ReadVarBytesMinMax_arg:
  "0 < length arg \<Longrightarrow> length arg \<le> MaxResultLength \<Longrightarrow>
   ReadVarBytesMinMax (WriteVarBytes [] arg @ rest) 1 (int MaxResultLength) = Ok (arg, rest)"
  by (rule ReadVarBytesMinMax_enc) (simp_all add: MaxResultLength_def Suc_le_eq)

lemma deser_append_enc [ots_roundtrip]:
  "op_ok (AppendOp arg) \<Longrightarrow> deser_append (WriteVarBytes [] arg @ rest) tag = Ok (AppendOp arg, rest)"
  "op_ok (PrependOp arg) \<Longrightarrow> deser_prepend (WriteVarBytes [] arg @ rest) tag = Ok (PrependOp arg, rest)"
  by (simp_all add: deser_append_def deser_prepend_def ReadVarBytesMinMax_arg NewAppend_def
      NewPrepend_def)

text \<open>The bytes after the tag.\<close>

primrec op_tail :: "op \<Rightarrow> bytes" where
  "op_tail (AppendOp arg) = WriteVarBytes [] arg"
| "op_tail (PrependOp arg) = WriteVarBytes [] arg"
| "op_tail SHA256Op = []"
| "op_tail Sha1Op = []"
| "op_tail (CryptOp k) = []"

lemma op_Serialize_tag: "op_Serialize [] x = op_Tag x # op_tail x"
  by (cases x) (simp_all add: WriteBytes_def WriteVarBytes_append [of "[_]"])

lemma DeserializeFromTag_enc [ots_roundtrip]:
  "op_ok x \<Longrightarrow> DeserializeFromTag (op_tail x @ rest) (op_Tag x) = Ok (x, rest)"
  by (cases x rule: op_crypt_cases)
    (simp_all add: DeserializeFromTag_def tagRegistry_apply deser_append_enc
      NewRIPEMD160_def NewKeccak256_def)

lemma op_Deserialize_enc [ots_roundtrip]:
  "op_ok x \<Longrightarrow> op_Deserialize (op_Serialize [] x @ rest) = Ok (x, rest)"
  by (simp add: op_Deserialize_def op_Serialize_tag DeserializeFromTag_enc)

lemma DeserializeFromTag_OkD:
  "DeserializeFromTag c tag = Ok (x, c') \<Longrightarrow>
   op_ok x \<and> op_Tag x = tag \<and> length c' \<le> length c"
  by (auto simp: DeserializeFromTag_def tagRegistry_apply deser_append_def deser_prepend_def
      andThen_eq_Ok NewRIPEMD160_def NewKeccak256_def split: if_splits option.splits
      dest!: NewAppend_OkD NewPrepend_OkD ReadVarBytesMinMax_consumes)

lemma deser_no_panic: "\<not> is_panic (deser_append c tag)" "\<not> is_panic (deser_prepend c tag)"
  using ReadVarBytesMinMax_no_panic [of 1 "int MaxResultLength" c] New_op_no_panic
  by (auto simp: MaxResultLength_def deser_append_def deser_prepend_def is_panic_iff andThen_eq_Panic)

lemma DeserializeFromTag_no_panic: "\<not> is_panic (DeserializeFromTag c tag)"
  by (simp add: DeserializeFromTag_def tagRegistry_apply deser_no_panic)

lemma op_Tag_not_0_ff: "op_Tag x \<noteq> 0" "op_Tag x \<noteq> 0xff"
  by (cases x rule: op_crypt_cases; simp)+

interpretation ops: codec "op_Serialize []" op_Deserialize op_ok
  by unfold_locales (rule op_Deserialize_enc)

section \<open>Streams\<close>

text \<open>The bytes a reader delivers, when it delivers no error but the final \<open>EOF\<close>.\<close>

definition clean_reader :: "reader \<Rightarrow> bool" where
  "clean_reader r \<longleftrightarrow> (\<forall>(buf, err) \<in> set r. err = None)"

section \<open>Properties\<close>

text \<open>
  Every operation that the constructors accept round-trips: its encoding is appended to the
  context, and decoding it returns the operation and leaves the bytes that follow it. Conversely
  whatever the decoder returns is an operation the constructors accept, and decoding never panics.
\<close>

theorem op_roundtrip:
  "(op_ok x \<longrightarrow>
      (\<exists>e. op_Serialize c x = c @ e \<and> op_Deserialize (e @ rest) = Ok (x, rest))) \<and>
   (\<forall>y d d'. op_Deserialize d = Ok (y, d') \<longrightarrow> op_ok y \<and> length d' < length d) \<and>
   \<not> is_panic (op_Deserialize d)"
proof (intro conjI)
  show "op_ok x \<longrightarrow> (\<exists>e. op_Serialize c x = c @ e \<and> op_Deserialize (e @ rest) = Ok (x, rest))"
    using ops.dec_enc op_Serialize_append [of c x] by blast
  show "\<forall>y d d'. op_Deserialize d = Ok (y, d') \<longrightarrow> op_ok y \<and> length d' < length d"
    by (auto simp: op_Deserialize_def andThen_eq_Ok dest!: DeserializeFromTag_OkD ReadUint8_OkD)
  show "\<not> is_panic (op_Deserialize d)"
    using ReadUint8_no_panic [of d] DeserializeFromTag_no_panic
    by (auto simp: op_Deserialize_def is_panic_iff andThen_eq_Panic)
qed

text \<open>
  \<open>Less\<close> is a strict linear order on operations, with \<open>Equal\<close> (which is equality) as its
  equality: it is irreflexive, transitive and total.
\<close>

theorem op_Less_strict_linear_order:
  "\<not> op_Less x x \<and> (op_Less x y \<and> op_Less y z \<longrightarrow> op_Less x z) \<and>
   (op_Less x y \<or> op_Equal x y \<or> op_Less y x) \<and> (op_Equal x y \<longleftrightarrow> x = y)"
  by (auto simp: less_op_def [symmetric])

text \<open>
  The outcome of applying an operation: no panic; on success the result is the operation's
  function of the message, is not empty and has at most \<open>MaxResultLength\<close> bytes, and the message
  was within \<open>MaxMsgLength\<close>; with digests of their documented sizes, the hash operations succeed
  on every message within the limit, and append and prepend succeed exactly when the result fits.
\<close>

theorem op_Apply_outcome:
  "\<not> is_panic (op_Apply H x m) \<and>
   (\<forall>r. op_Apply H x m = Ok r \<longrightarrow>
      r = op_fn H x m \<and> length m \<le> MaxMsgLength \<and> 0 < length r \<and> length r \<le> MaxResultLength) \<and>
   (hash_sizes H \<and> x \<in> {SHA256Op, Sha1Op} \<union> range CryptOp \<longrightarrow>
      is_ok (op_Apply H x m) = (length m \<le> MaxMsgLength)) \<and>
   (op_ok (AppendOp a) \<longrightarrow>
      is_ok (op_Apply H (AppendOp a) m) = (length m + length a \<le> MaxResultLength))"
proof (intro conjI)
  show "hash_sizes H \<and> x \<in> {SHA256Op, Sha1Op} \<union> range CryptOp \<longrightarrow>
      is_ok (op_Apply H x m) = (length m \<le> MaxMsgLength)"
  proof
    assume a: "hash_sizes H \<and> x \<in> {SHA256Op, Sha1Op} \<union> range CryptOp"
    then have "length (op_fn H x m) \<in> {20, 32}"
      by (cases x rule: op_crypt_cases) (auto simp: hash_sizesD)
    then have "op_fn H x m \<noteq> []" "length (op_fn H x m) \<le> MaxResultLength"
      by (auto simp: MaxResultLength_def)
    then show "is_ok (op_Apply H x m) = (length m \<le> MaxMsgLength)"
      by (simp add: op_Apply_fn applyUnary_def)
  qed
  show "op_ok (AppendOp a) \<longrightarrow>
      is_ok (op_Apply H (AppendOp a) m) = (length m + length a \<le> MaxResultLength)"
    by (auto simp: applyUnary_def MaxResultLength_def MaxMsgLength_def Let_def split: if_splits)
qed (use op_Apply_no_panic op_Apply_OkD in blast)+

definition const_hashes :: hashes where
  "const_hashes = \<lparr>sha256_Sum256 = (\<lambda>m. replicate 32 7), sha1_Sum = (\<lambda>m. replicate 20 8),
     ripemd160_Sum = (\<lambda>m. replicate 20 9), keccak256_Sum = (\<lambda>m. replicate 32 10)\<rparr>"

lemma hash_sizes_const [simp]: "hash_sizes const_hashes"
  by (simp add: hash_sizes_def const_hashes_def)

text \<open>
  Hashing a stream does not depend on how the reader cuts it: for every sequence of reads
  without an error the digest is that of the concatenated bytes.
\<close>

theorem HashReader_chunks:
  assumes "clean_reader r"
  shows "SHA256_HashReader H (r @ [(last_chunk, Some EOF)] @ unread) =
      Ok (sha256_Sum256 H (concat (map fst r) @ last_chunk))"
proof -
  have "HashReader_loop h (r @ (last_chunk, Some EOF) # unread) =
      Ok (h @ concat (map fst r) @ last_chunk)" for h
    using assms
  proof (induction h r rule: HashReader_loop.induct)
    case (2 h buf err r)
    then show ?case by (cases "buf = []") (auto simp: clean_reader_def)
  qed simp
  then show ?thesis by (simp add: SHA256_HashReader_def)
qed

end
