(* ===== verification/Notary.thy ===== *)
theory Notary
  imports Serialize
begin

text \<open>
  The attestations of \<^verbatim>\<open>internal/core/notary/notary.go\<close>: the four implementations of the Go
  interface \<open>Attestation\<close> are the constructors of a datatype. URIs are Go strings; their bytes
  are compared and encoded.
\<close>

section \<open>Constants\<close>

definition TagSize :: nat where
  "TagSize = 8"

definition MaxPayloadSize :: nat where
  "MaxPayloadSize = 8192"

definition MaxURILength :: nat where
  "MaxURILength = 1000"

definition allowedURIChars :: bytes where
  "allowedURIChars = bytes_of_string
     ''ABCDEFGHIJKLMNOPQRSTUVWXYZabcdefghijklmnopqrstuvwxyz0123456789-._/:''"

definition pendingTag :: bytes where
  "pendingTag = [0x83, 0xdf, 0xe3, 0x0d, 0x2e, 0xf9, 0x0c, 0x8e]"

definition bitcoinTag :: bytes where
  "bitcoinTag = [0x05, 0x88, 0x96, 0x0d, 0x73, 0xd7, 0x19, 0x01]"

definition litecoinTag :: bytes where
  "litecoinTag = [0x06, 0x86, 0x9a, 0x0d, 0x73, 0xd7, 0x1b, 0x45]"

section \<open>URIs\<close>

text \<open>
  The verb \<open>%q\<close> of a byte: the character in single quotes, escaped as \<open>strconv.QuoteRune\<close>
  does. Of the code points below 256 the printable ones are \<open>0x20\<close> to \<open>0x7e\<close> and \<open>0xa1\<close> to
  \<open>0xff\<close> without \<open>0xad\<close>; the latter are two bytes of UTF-8.
\<close>

definition escape_rune :: "nat \<Rightarrow> string" where
  "escape_rune r =
     (if r = 0x27 \<or> r = 0x5c then [CHR 0x5c, char_of r]
      else if 0x20 \<le> r \<and> r \<le> 0x7e then [char_of r]
      else if 0xa1 \<le> r \<and> r \<noteq> 0xad then [char_of (0xc0 + r div 64), char_of (0x80 + r mod 64)]
      else if r = 7 then [CHR 0x5c, CHR ''a'']
      else if r = 8 then [CHR 0x5c, CHR ''b'']
      else if r = 12 then [CHR 0x5c, CHR ''f'']
      else if r = 10 then [CHR 0x5c, CHR ''n'']
      else if r = 13 then [CHR 0x5c, CHR ''r'']
      else if r = 9 then [CHR 0x5c, CHR ''t'']
      else if r = 11 then [CHR 0x5c, CHR ''v'']
      else if r < 0x20 \<or> r = 0x7f then [CHR 0x5c, CHR ''x'', hex_digit (r div 16), hex_digit (r mod 16)]
      else [CHR 0x5c, CHR ''u'', CHR ''0'', CHR ''0'', hex_digit (r div 16), hex_digit (r mod 16)])"

definition quote_byte :: "byte \<Rightarrow> string" where
  "quote_byte b = [CHR 0x27] @ escape_rune (unat b) @ [CHR 0x27]"

fun CheckURI_loop :: "bytes \<Rightarrow> unit result" where
  "CheckURI_loop [] = Ok ()"
| "CheckURI_loop (c # uri) =
     (if c \<notin> set allowedURIChars then
        Err (ErrorString (''URI contains invalid character '' @ quote_byte c))
      else CheckURI_loop uri)"

definition CheckURI :: "bytes \<Rightarrow> unit result" where
  "CheckURI uri =
     (if length uri > MaxURILength then Err (ErrorString ''URI exceeds maximum length'')
      else CheckURI_loop uri)"

section \<open>Attestations\<close>

datatype attestation =
    PendingAttestation string
  | BitcoinBlockHeaderAttestation u64
  | LitecoinBlockHeaderAttestation u64
  | UnknownAttestation bytes bytes

primrec att_Tag :: "attestation \<Rightarrow> bytes" where
  "att_Tag (PendingAttestation uri) = pendingTag"
| "att_Tag (BitcoinBlockHeaderAttestation height) = bitcoinTag"
| "att_Tag (LitecoinBlockHeaderAttestation height) = litecoinTag"
| "att_Tag (UnknownAttestation tagBytes payload) = tagBytes"

primrec att_Kind :: "attestation \<Rightarrow> string" where
  "att_Kind (PendingAttestation uri) = ''pending''"
| "att_Kind (BitcoinBlockHeaderAttestation height) = ''bitcoin''"
| "att_Kind (LitecoinBlockHeaderAttestation height) = ''litecoin''"
| "att_Kind (UnknownAttestation tagBytes payload) = ''unknown''"

definition NewPendingAttestation :: "string \<Rightarrow> attestation result" where
  "NewPendingAttestation uri =
     andThen (CheckURI (bytes_of_string uri)) (\<lambda>_. Ok (PendingAttestation uri))"

primrec att_Serialize :: "Context \<Rightarrow> attestation \<Rightarrow> Context" where
  "att_Serialize c (PendingAttestation uri) =
     (let c1 = WriteBytes c pendingTag;
          payload = WriteVarBytes NewWriteContext (bytes_of_string uri)
      in WriteVarBytes c1 (Bytes payload))"
| "att_Serialize c (BitcoinBlockHeaderAttestation height) =
     (let c1 = WriteBytes c bitcoinTag;
          payload = WriteVarUint NewWriteContext height
      in WriteVarBytes c1 (Bytes payload))"
| "att_Serialize c (LitecoinBlockHeaderAttestation height) =
     (let c1 = WriteBytes c litecoinTag;
          payload = WriteVarUint NewWriteContext height
      in WriteVarBytes c1 (Bytes payload))"
| "att_Serialize c (UnknownAttestation tagBytes payload) =
     WriteVarBytes (WriteBytes c tagBytes) payload"

fun att_Less :: "attestation \<Rightarrow> attestation \<Rightarrow> bool" where
  "att_Less a b =
     (if att_Tag a = att_Tag b then
        (case (a, b) of
           (PendingAttestation uri, PendingAttestation uri') \<Rightarrow> uri < uri'
         | (BitcoinBlockHeaderAttestation h, BitcoinBlockHeaderAttestation h') \<Rightarrow> h < h'
         | (LitecoinBlockHeaderAttestation h, LitecoinBlockHeaderAttestation h') \<Rightarrow> h < h'
         | (UnknownAttestation t p, UnknownAttestation t' p') \<Rightarrow> p < p'
         | _ \<Rightarrow> att_Tag a < att_Tag b)
      else att_Tag a < att_Tag b)"

declare att_Less.simps [simp del]

fun att_Equal :: "attestation \<Rightarrow> attestation \<Rightarrow> bool" where
  "att_Equal (PendingAttestation uri) (PendingAttestation uri') = (uri = uri')"
| "att_Equal (BitcoinBlockHeaderAttestation h) (BitcoinBlockHeaderAttestation h') = (h = h')"
| "att_Equal (LitecoinBlockHeaderAttestation h) (LitecoinBlockHeaderAttestation h') = (h = h')"
| "att_Equal (UnknownAttestation t p) (UnknownAttestation t' p') = (t = t' \<and> p = p')"
| "att_Equal _ _ = False"

section \<open>Decoding\<close>

definition deserializePending :: "Context \<Rightarrow> (attestation \<times> Context) result" where
  "deserializePending c = andThen (ReadVarBytes c (int MaxURILength)) (\<lambda>(uri, c').
     case CheckURI uri of
       Panic p \<Rightarrow> Panic p
     | Err e \<Rightarrow> Err (DeserializationError (''invalid URI: '' @ error_string e))
     | Ok _ \<Rightarrow> Ok (PendingAttestation (string_of_bytes uri), c'))"

definition deserializeBitcoin :: "Context \<Rightarrow> (attestation \<times> Context) result" where
  "deserializeBitcoin c = andThen (ReadVarUint c) (\<lambda>(height, c').
     Ok (BitcoinBlockHeaderAttestation height, c'))"

definition deserializeLitecoin :: "Context \<Rightarrow> (attestation \<times> Context) result" where
  "deserializeLitecoin c = andThen (ReadVarUint c) (\<lambda>(height, c').
     Ok (LitecoinBlockHeaderAttestation height, c'))"

definition notary_Deserialize :: "Context \<Rightarrow> (attestation \<times> Context) result" where
  "notary_Deserialize c =
     andThen (ReadBytes c (int TagSize)) (\<lambda>(tag, c1).
     andThen (ReadVarBytes c1 (int MaxPayloadSize)) (\<lambda>(payloadBytes, c2).
     let payload = NewContext payloadBytes in
     andThen
       (if tag = pendingTag then deserializePending payload
        else if tag = bitcoinTag then deserializeBitcoin payload
        else if tag = litecoinTag then deserializeLitecoin payload
        else Ok (UnknownAttestation tag payloadBytes, payload))
       (\<lambda>(att, payload'). andThen (AssertEOF payload') (\<lambda>_. Ok (att, c2)))))"

section \<open>Sorting\<close>

text \<open>
  The two nested loops of \<open>SortAttestations\<close>, over any element type and \<open>Less\<close>: the inner one
  exchanges the element at \<open>i\<close> with every later one that is less.
\<close>

definition swap :: "'a list \<Rightarrow> nat \<Rightarrow> nat \<Rightarrow> 'a list" where
  "swap xs i j = xs[i := xs ! j, j := xs ! i]"

lemma length_swap [simp]: "length (swap xs i j) = length xs"
  by (simp add: swap_def)

function exchange_inner :: "('a \<Rightarrow> 'a \<Rightarrow> bool) \<Rightarrow> 'a list \<Rightarrow> nat \<Rightarrow> nat \<Rightarrow> 'a list" where
  "exchange_inner Less xs i j =
     (if j < length xs then
        exchange_inner Less (if Less (xs ! j) (xs ! i) then swap xs i j else xs) i (j + 1)
      else xs)"
  by pat_completeness auto
termination
  by (relation "measure (\<lambda>(Less, xs, i, j). length xs - j)") auto

declare exchange_inner.simps [simp del]

lemma length_exchange_inner [simp]: "length (exchange_inner Less xs i j) = length xs"
  by (induction Less xs i j rule: exchange_inner.induct) (subst exchange_inner.simps, simp)

function exchange_outer :: "('a \<Rightarrow> 'a \<Rightarrow> bool) \<Rightarrow> 'a list \<Rightarrow> nat \<Rightarrow> 'a list" where
  "exchange_outer Less xs i =
     (if i < length xs then exchange_outer Less (exchange_inner Less xs i (i + 1)) (i + 1) else xs)"
  by pat_completeness auto
termination
  by (relation "measure (\<lambda>(Less, xs, i). length xs - i)") auto

declare exchange_outer.simps [simp del]

definition SortAttestations :: "attestation list \<Rightarrow> attestation list" where
  "SortAttestations atts = exchange_outer att_Less atts 0"

section \<open>Exchange sort\<close>

lemma swap_simps:
  "i < length xs \<Longrightarrow> j < length xs \<Longrightarrow> i < j \<Longrightarrow> swap xs i j ! i = xs ! j"
  "i < length xs \<Longrightarrow> j < length xs \<Longrightarrow> i < j \<Longrightarrow> swap xs i j ! j = xs ! i"
  "k \<noteq> i \<Longrightarrow> k \<noteq> j \<Longrightarrow> swap xs i j ! k = xs ! k"
  by (simp_all add: swap_def)

lemma mset_swap_list: "i < length xs \<Longrightarrow> j < length xs \<Longrightarrow> mset (swap xs i j) = mset xs"
  by (simp add: swap_def mset_swap)

text \<open>A strict partial order, as \<open>Less\<close> methods are.\<close>

locale strict_order =
  fixes Less :: "'a \<Rightarrow> 'a \<Rightarrow> bool"
  assumes less_irrefl: "\<not> Less x x"
    and less_trans: "Less x y \<Longrightarrow> Less y z \<Longrightarrow> Less x z"
begin

lemma less_asym: "Less x y \<Longrightarrow> \<not> Less y x"
  using less_irrefl less_trans by blast

lemma inner_frame:
  "i < j \<Longrightarrow> mset (exchange_inner Less xs i j) = mset xs \<and>
     (\<forall>k < i. exchange_inner Less xs i j ! k = xs ! k)"
proof (induction Less xs i j rule: exchange_inner.induct)
  case (1 Less xs i j)
  show ?case
  proof (cases "j < length xs")
    case True
    with "1" show ?thesis
      by (subst (1 2) exchange_inner.simps) (auto simp: mset_swap_list swap_simps)
  qed (simp add: exchange_inner.simps [of Less xs])
qed

lemma inner_min:
  "i < j \<Longrightarrow> (\<forall>k. i < k \<and> k < j \<and> k < length xs \<longrightarrow> \<not> Less (xs ! k) (xs ! i)) \<Longrightarrow>
   i < k \<Longrightarrow> k < length xs \<Longrightarrow> \<not> Less (exchange_inner Less xs i j ! k) (exchange_inner Less xs i j ! i)"
proof (induction "length xs - j" arbitrary: xs j)
  case 0
  then show ?case by (subst (1 2) exchange_inner.simps) auto
next
  case (Suc n)
  then have j: "j < length xs" by simp
  let ?xs = "if Less (xs ! j) (xs ! i) then swap xs i j else xs"
  have "\<forall>k. i < k \<and> k < j + 1 \<and> k < length ?xs \<longrightarrow> \<not> Less (?xs ! k) (?xs ! i)"
  proof (intro allI impI)
    fix k assume k: "i < k \<and> k < j + 1 \<and> k < length ?xs"
    show "\<not> Less (?xs ! k) (?xs ! i)"
    proof (cases "k = j")
      case True
      with k j Suc.prems(1) less_asym show ?thesis by (auto simp: swap_simps)
    next
      case False
      with k j Suc.prems(1,2) less_trans show ?thesis by (auto simp: swap_simps)
    qed
  qed
  with Suc.hyps(1) [of ?xs "j + 1"] Suc.hyps(2) Suc.prems j show ?case
    by (subst (1 2) exchange_inner.simps) auto
qed

definition no_inversion :: "nat \<Rightarrow> 'a list \<Rightarrow> bool" where
  "no_inversion i xs \<longleftrightarrow> (\<forall>p q. p < i \<longrightarrow> p < q \<longrightarrow> q < length xs \<longrightarrow> \<not> Less (xs ! q) (xs ! p))"

lemma inner_step:
  assumes "no_inversion i xs" and "i < length xs"
  shows "no_inversion (i + 1) (exchange_inner Less xs i (i + 1))"
  unfolding no_inversion_def
proof (intro allI impI)
  let ?ys = "exchange_inner Less xs i (i + 1)"
  fix p q assume pq: "p < i + 1" "p < q" "q < length ?ys"
  have fr: "mset ?ys = mset xs" "\<forall>k < i. ?ys ! k = xs ! k" using inner_frame [of i "i + 1"] by auto
  show "\<not> Less (?ys ! q) (?ys ! p)"
  proof (cases "p = i")
    case True
    with pq have "i < q" "q < length xs" by simp_all
    then have "\<not> Less (?ys ! q) (?ys ! i)" by (intro inner_min) auto
    with True show ?thesis by simp
  next
    case False
    have len: "length ?ys = length xs" by simp
    have "take i ?ys = take i xs" using fr(2) len assms(2)
      by (simp add: list_eq_iff_nth_eq)
    then have "mset (drop i ?ys) = mset (drop i xs)"
      using fr(1) by (metis append_take_drop_id mset_append add_left_cancel)
    then have set: "set (drop i ?ys) = set (drop i xs)" by (metis set_mset_mset)
    show ?thesis
    proof (cases "q < i")
      case True
      with False pq assms fr show ?thesis by (auto simp: no_inversion_def)
    next
      case q: False
      then have "?ys ! q \<in> set (drop i ?ys)" using pq(3)
        by (auto simp: in_set_conv_nth intro!: exI [of _ "q - i"])
      then obtain r where "i \<le> r" "r < length xs" "?ys ! q = xs ! r"
        unfolding set by (auto simp: in_set_conv_nth) (metis le_add1 less_diff_conv add.commute)
      with False pq assms fr show ?thesis by (auto simp: no_inversion_def)
    qed
  qed
qed

lemma outer_sorted:
  "no_inversion i xs \<Longrightarrow> no_inversion (length xs) (exchange_outer Less xs i) \<and>
     mset (exchange_outer Less xs i) = mset xs"
proof (induction "length xs - i" arbitrary: xs i)
  case 0
  then show ?case by (subst (1 2) exchange_outer.simps) (auto simp: no_inversion_def)
next
  case (Suc n)
  then have i: "i < length xs" by simp
  with Suc.hyps(1) [of "exchange_inner Less xs i (i + 1)" "i + 1"] Suc.hyps(2) inner_step [OF Suc.prems i]
  show ?case using inner_frame [of i "i + 1" xs] by (subst (1 2) exchange_outer.simps) simp
qed

lemma exchange_sort_perm: "mset (exchange_outer Less xs 0) = mset xs"
  and exchange_sort_sorted: "p < q \<Longrightarrow> q < length xs \<Longrightarrow>
        \<not> Less (exchange_outer Less xs 0 ! q) (exchange_outer Less xs 0 ! p)"
proof -
  have "no_inversion 0 xs" by (simp add: no_inversion_def)
  then have s: "no_inversion (length xs) (exchange_outer Less xs 0)"
    and m: "mset (exchange_outer Less xs 0) = mset xs"
    using outer_sorted by blast+
  from m show "mset (exchange_outer Less xs 0) = mset xs" .
  from m have "length (exchange_outer Less xs 0) = length xs" by (metis size_mset)
  with s show "p < q \<Longrightarrow> q < length xs \<Longrightarrow>
        \<not> Less (exchange_outer Less xs 0 ! q) (exchange_outer Less xs 0 ! p)"
    by (simp add: no_inversion_def)
qed

end

text \<open>A list without inversions is left as it is.\<close>

lemma exchange_inner_id:
  "\<forall>k. i < k \<and> k < length xs \<longrightarrow> \<not> Less (xs ! k) (xs ! i) \<Longrightarrow> i < j \<Longrightarrow> exchange_inner Less xs i j = xs"
proof (induction "length xs - j" arbitrary: j)
  case 0
  then show ?case by (simp add: exchange_inner.simps [of Less xs])
next
  case (Suc n)
  then show ?case by (simp add: exchange_inner.simps [of Less xs i j])
qed

lemma exchange_outer_id:
  "\<forall>p q. p < q \<and> q < length xs \<longrightarrow> \<not> Less (xs ! q) (xs ! p) \<Longrightarrow> exchange_outer Less xs i = xs"
proof (induction "length xs - i" arbitrary: i)
  case 0
  then show ?case by (simp add: exchange_outer.simps [of Less xs])
next
  case (Suc n)
  then show ?case by (simp add: exchange_outer.simps [of Less xs i] exchange_inner_id)
qed

section \<open>The order on attestations\<close>

lemma att_Less_Tag: "att_Less a b \<Longrightarrow> att_Tag a \<le> att_Tag b"
  by (auto simp: att_Less.simps split: if_splits)

lemma att_Less_same_tag:
  assumes "att_Less a b" and "att_Tag a = att_Tag b"
  obtains u v where "a = PendingAttestation u" "b = PendingAttestation v" "u < v"
    | h k where "a = BitcoinBlockHeaderAttestation h" "b = BitcoinBlockHeaderAttestation k" "h < k"
    | h k where "a = LitecoinBlockHeaderAttestation h" "b = LitecoinBlockHeaderAttestation k" "h < k"
    | t p q where "a = UnknownAttestation t p" "b = UnknownAttestation t q" "p < q"
  using assms by (cases a; cases b) (simp_all add: att_Less.simps)

lemma att_Less_trans: "att_Less a b \<Longrightarrow> att_Less b c \<Longrightarrow> att_Less a c"
proof -
  assume ab: "att_Less a b" and bc: "att_Less b c"
  show ?thesis
  proof (cases "att_Tag a = att_Tag b \<and> att_Tag b = att_Tag c")
    case True
    then have "att_Tag a = att_Tag b" and t: "att_Tag b = att_Tag c" by simp_all
    from ab this(1) show ?thesis
      by (cases rule: att_Less_same_tag; cases rule: att_Less_same_tag [OF bc t])
        (auto simp: att_Less.simps)
  next
    case False
    with att_Less_Tag [OF ab] att_Less_Tag [OF bc] have "att_Tag a < att_Tag c" by auto
    then show ?thesis by (auto simp: att_Less.simps)
  qed
qed

interpretation att_order: strict_order att_Less
proof
  show "\<not> att_Less x x" for x by (cases x) (simp_all add: att_Less.simps)
qed (rule att_Less_trans)

lemma att_Equal_iff [simp]: "att_Equal a b \<longleftrightarrow> a = b"
  by (cases a; cases b) simp_all

lemma mset_SortAttestations [simp]: "mset (SortAttestations atts) = mset atts"
  by (simp add: SortAttestations_def att_order.exchange_sort_perm)

lemma set_SortAttestations [simp]: "set (SortAttestations atts) = set atts"
  by (metis mset_SortAttestations set_mset_mset)

lemma length_SortAttestations [simp]: "length (SortAttestations atts) = length atts"
  by (metis mset_SortAttestations size_mset)

lemma SortAttestations_Nil_iff [simp]: "SortAttestations atts = [] \<longleftrightarrow> atts = []"
  by (metis length_0_conv length_SortAttestations)

lemma SortAttestations_Nil [simp]: "SortAttestations [] = []"
  by simp

lemma SortAttestations_sorted:
  "p < q \<Longrightarrow> q < length atts \<Longrightarrow> \<not> att_Less (SortAttestations atts ! q) (SortAttestations atts ! p)"
  unfolding SortAttestations_def by (rule att_order.exchange_sort_sorted)

lemma SortAttestations_idem [simp]: "SortAttestations (SortAttestations atts) = SortAttestations atts"
  using SortAttestations_sorted [of _ _ atts]
  by (subst SortAttestations_def) (intro exchange_outer_id, simp)

section \<open>Well-formed attestations and their encodings\<close>

definition uri_ok :: "string \<Rightarrow> bool" where
  "uri_ok uri \<longleftrightarrow> length uri \<le> MaxURILength \<and> set (bytes_of_string uri) \<subseteq> set allowedURIChars"

lemma CheckURI_loop_iff: "CheckURI_loop uri = Ok () \<longleftrightarrow> set uri \<subseteq> set allowedURIChars"
  by (induction uri) auto

lemma CheckURI_no_panic: "\<not> is_panic (CheckURI uri)"
proof -
  have "\<not> is_panic (CheckURI_loop uri)" by (induction uri) auto
  then show ?thesis by (simp add: CheckURI_def)
qed

lemma CheckURI_iff: "CheckURI (bytes_of_string uri) = Ok () \<longleftrightarrow> uri_ok uri"
  by (simp add: CheckURI_def CheckURI_loop_iff uri_ok_def)

text \<open>
  The attestations that decoding can return. An unknown attestation is one with eight tag bytes
  that are none of the known tags; only those with an empty payload are decoded (see below).
\<close>

primrec att_ok :: "attestation \<Rightarrow> bool" where
  "att_ok (PendingAttestation uri) \<longleftrightarrow> uri_ok uri"
| "att_ok (BitcoinBlockHeaderAttestation h) \<longleftrightarrow> True"
| "att_ok (LitecoinBlockHeaderAttestation h) \<longleftrightarrow> True"
| "att_ok (UnknownAttestation t p) \<longleftrightarrow>
     length t = TagSize \<and> t \<notin> {pendingTag, bitcoinTag, litecoinTag} \<and> p = []"

primrec att_payload :: "attestation \<Rightarrow> bytes" where
  "att_payload (PendingAttestation uri) = WriteVarBytes [] (bytes_of_string uri)"
| "att_payload (BitcoinBlockHeaderAttestation h) = varuint_enc h"
| "att_payload (LitecoinBlockHeaderAttestation h) = varuint_enc h"
| "att_payload (UnknownAttestation t p) = p"

lemma att_Serialize_parts: "att_Serialize c a = c @ att_Tag a @ WriteVarBytes [] (att_payload a)"
  by (cases a)
    (simp_all add: NewWriteContext_def Bytes_def WriteBytes_def WriteVarUint_enc
      WriteVarBytes_append [of "_ @ _"])

lemma att_Serialize_append: "att_Serialize c a = c @ att_Serialize [] a"
  by (simp add: att_Serialize_parts)

lemma length_WriteVarBytes: "length (WriteVarBytes [] v) \<le> 10 + length v"
  using varuint_enc_length_10 by (simp add: WriteVarBytes_def WriteBytes_def WriteVarUint_enc)

lemma known_tags_distinct [simp]:
  "pendingTag \<noteq> bitcoinTag" "pendingTag \<noteq> litecoinTag" "bitcoinTag \<noteq> pendingTag"
  "bitcoinTag \<noteq> litecoinTag" "litecoinTag \<noteq> pendingTag" "litecoinTag \<noteq> bitcoinTag"
  by (simp_all add: pendingTag_def bitcoinTag_def litecoinTag_def)

lemma att_Tag_length: "att_ok a \<Longrightarrow> length (att_Tag a) = TagSize"
  by (cases a) (simp_all add: TagSize_def pendingTag_def bitcoinTag_def litecoinTag_def)

lemma att_payload_length: "att_ok a \<Longrightarrow> length (att_payload a) \<le> MaxPayloadSize"
  using varuint_enc_length_10 length_WriteVarBytes
  by (cases a) (auto simp: uri_ok_def MaxURILength_def MaxPayloadSize_def
      intro: le_trans [OF length_WriteVarBytes] le_trans [OF varuint_enc_length_10])

lemma deserialize_payload [ots_roundtrip]:
  "uri_ok uri \<Longrightarrow> deserializePending (WriteVarBytes [] (bytes_of_string uri)) = Ok (PendingAttestation uri, [])"
  "deserializeBitcoin (varuint_enc h) = Ok (BitcoinBlockHeaderAttestation h, [])"
  "deserializeLitecoin (varuint_enc h) = Ok (LitecoinBlockHeaderAttestation h, [])"
proof -
  show "deserializePending (WriteVarBytes [] (bytes_of_string uri)) = Ok (PendingAttestation uri, [])"
    if "uri_ok uri"
    using that ReadVarBytes_enc [of "bytes_of_string uri" "int MaxURILength" "[]"] CheckURI_iff [of uri]
    by (simp add: deserializePending_def uri_ok_def MaxURILength_def)
qed (use ReadVarUint_enc [of h "[]"] in \<open>simp_all add: deserializeBitcoin_def deserializeLitecoin_def\<close>)

lemma notary_Deserialize_parts:
  assumes "length tag = TagSize" and "length p \<le> MaxPayloadSize"
  shows "notary_Deserialize (tag @ WriteVarBytes [] p @ rest) =
    andThen
       (if tag = pendingTag then deserializePending p
        else if tag = bitcoinTag then deserializeBitcoin p
        else if tag = litecoinTag then deserializeLitecoin p
        else Ok (UnknownAttestation tag p, p))
       (\<lambda>(att, payload'). andThen (AssertEOF payload') (\<lambda>_. Ok (att, rest)))"
  using assms by (simp add: notary_Deserialize_def ReadBytes_append ReadVarBytes_enc NewContext_def
      MaxPayloadSize_def TagSize_def)

lemma notary_Deserialize_enc [ots_roundtrip]:
  assumes "att_ok a"
  shows "notary_Deserialize (att_Serialize [] a @ rest) = Ok (a, rest)"
  using notary_Deserialize_parts [OF att_Tag_length [OF assms] att_payload_length [OF assms], of rest] assms
  by (cases a) (simp_all add: att_Serialize_parts deserialize_payload AssertEOF_def)

interpretation atts: codec "att_Serialize []" notary_Deserialize att_ok
  by unfold_locales (rule notary_Deserialize_enc)

lemma deserializePending_OkD: "deserializePending c = Ok (a, c') \<Longrightarrow> att_ok a"
proof -
  assume "deserializePending c = Ok (a, c')"
  then obtain uri where "CheckURI uri = Ok ()" and a: "a = PendingAttestation (string_of_bytes uri)"
    unfolding deserializePending_def by (auto elim!: andThen_OkE split: result.split_asm)
  then have "uri_ok (string_of_bytes uri)" by (simp add: CheckURI_iff [symmetric])
  with a show ?thesis by simp
qed

lemma notary_Deserialize_OkD:
  "notary_Deserialize c = Ok (a, c') \<Longrightarrow> att_ok a \<and> length c' < length c"
  by (auto simp: notary_Deserialize_def andThen_eq_Ok NewContext_def AssertEOF_def
      deserializeBitcoin_def deserializeLitecoin_def
      dest!: ReadBytes_OkD ReadVarBytes_consumes deserializePending_OkD
      split: if_splits)

section \<open>Properties\<close>

text \<open>
  Attestations round-trip: the encoding of every well-formed attestation is appended to the
  context and decodes to the attestation, leaving what follows; and whatever decoding returns is
  well-formed: its URI has been checked, its tag has eight bytes.
\<close>

theorem attestation_roundtrip:
  "(att_ok a \<longrightarrow>
      (\<exists>e. att_Serialize c a = c @ e \<and> notary_Deserialize (e @ rest) = Ok (a, rest))) \<and>
   (\<forall>b d d'. notary_Deserialize d = Ok (b, d') \<longrightarrow> att_ok b \<and> length d' < length d)"
  using atts.dec_enc att_Serialize_append [of c a] notary_Deserialize_OkD by blast

text \<open>
  C36. An attestation of an unknown kind that carries a payload cannot be read back: the payload
  context is never consumed in that branch, so the end-of-payload check reports trailing garbage.
\<close>

theorem unknown_attestation_with_payload_rejected:
  assumes "length t = TagSize" and "t \<notin> {pendingTag, bitcoinTag, litecoinTag}"
    and "p \<noteq> []" and "length p \<le> MaxPayloadSize"
  shows "notary_Deserialize (att_Serialize [] (UnknownAttestation t p) @ rest) = Err TrailingGarbageError"
  using notary_Deserialize_parts [OF assms(1,4), of rest] assms(2,3)
  by (simp add: att_Serialize_parts AssertEOF_def)

theorem unknown_attestation_with_payload_rejected_witness:
  "notary_Deserialize (att_Serialize [] (UnknownAttestation [1, 2, 3, 4, 5, 6, 7, 8] [42]) @ []) =
     Err TrailingGarbageError"
  by (rule unknown_attestation_with_payload_rejected)
    (simp_all add: TagSize_def MaxPayloadSize_def pendingTag_def bitcoinTag_def litecoinTag_def)

text \<open>
  \<open>SortAttestations\<close> returns a permutation of its input in which no element is \<open>Less\<close> than
  an earlier one, and sorting again changes nothing.
\<close>

theorem SortAttestations_correct:
  "mset (SortAttestations atts) = mset atts \<and>
   (\<forall>p q. p < q \<and> q < length atts \<longrightarrow> \<not> att_Less (SortAttestations atts ! q) (SortAttestations atts ! p)) \<and>
   SortAttestations (SortAttestations atts) = SortAttestations atts"
  using SortAttestations_sorted by simp

text \<open>
  \<open>NewPendingAttestation\<close> accepts exactly the URIs of at most \<open>MaxURILength\<close> bytes over the
  allowed characters, and fails with an error, never a panic, on all others.
\<close>

theorem NewPendingAttestation_iff:
  "(NewPendingAttestation uri = Ok a \<longleftrightarrow>
      a = PendingAttestation uri \<and> length uri \<le> MaxURILength \<and>
      set (bytes_of_string uri) \<subseteq> set allowedURIChars) \<and>
   \<not> is_panic (NewPendingAttestation uri)"
  using CheckURI_no_panic [of "bytes_of_string uri"] CheckURI_iff [of uri]
  by (cases "CheckURI (bytes_of_string uri)") (auto simp: NewPendingAttestation_def uri_ok_def)

end
