(* ===== verification/Timestamp.thy ===== *)
theory Timestamp
  imports Op Notary
begin

text \<open>
  The timestamp proofs of \<^verbatim>\<open>internal/core/timestamp/timestamp.go\<close>, as values. A \<open>Timestamp\<close> holds a
  message, attestations on it and, per operation, the timestamp on the operation's result; the Go
  struct links the sub-timestamps by pointers. The functions below only read the structure, build it
  afresh (\<open>Deserialize\<close>) or update a structure whose nodes are not shared (\<open>Merge\<close>, whose targets
  are always freshly decoded or freshly created), so the nodes are the nodes of a tree. The functions
  that build shared structure (\<open>CatThenUnaryOp\<close>, \<open>MakeMerkleTree\<close>) are modelled on an explicit store
  in another theory.
\<close>

section \<open>Constants and data\<close>

definition HeaderMagic :: bytes where
  "HeaderMagic = [0x00] @ bytes_of_string ''OpenTimestamps'' @ [0x00, 0x00] @ bytes_of_string ''Proof'' @
     [0x00, 0xbf, 0x89, 0xe2, 0xe8, 0x84, 0xe8, 0x92, 0x94]"

definition MajorVersion :: byte where
  "MajorVersion = 1"

definition recursionLimit :: nat where
  "recursionLimit = 256"

datatype Timestamp =
  Timestamp (ts_Msg: bytes) (ts_Attestations: "attestation list") (ts_Ops: "(op \<times> Timestamp) list")

definition New :: "bytes \<Rightarrow> Timestamp result" where
  "New msg =
     (if length msg > MaxMsgLength then
        Err (ErrorString (''message exceeds op length limit; '' @ dec_nat (length msg) @ '' > '' @
               dec_nat MaxMsgLength))
      else Ok (Timestamp msg [] []))"

text \<open>The loops \<open>for i := range t.Ops { if t.Ops[i].Op.Equal(o) ...\<close>: the first match.\<close>

fun find_op :: "(op \<times> Timestamp) list \<Rightarrow> op \<Rightarrow> nat option" where
  "find_op [] x = None"
| "find_op ((y, s) # ops) x = (if op_Equal y x then Some 0 else map_option Suc (find_op ops x))"

text \<open>
  \<open>AddOp\<close> returns the timestamp with the operation present and the index of its result, to which
  the Go code returns a pointer.
\<close>

definition AddOp :: "hashes \<Rightarrow> Timestamp \<Rightarrow> op \<Rightarrow> (Timestamp \<times> nat) result" where
  "AddOp H t x =
     andThen (op_Apply H x (ts_Msg t)) (\<lambda>r.
     andThen (New r) (\<lambda>child.
     case find_op (ts_Ops t) x of
       Some i \<Rightarrow> Ok (t, i)
     | None \<Rightarrow> Ok (Timestamp (ts_Msg t) (ts_Attestations t) (ts_Ops t @ [(x, child)]),
                  length (ts_Ops t))))"

definition hasAttestation :: "Timestamp \<Rightarrow> attestation \<Rightarrow> bool" where
  "hasAttestation t att \<longleftrightarrow> list_ex (\<lambda>a. att_Equal a att) (ts_Attestations t)"

section \<open>Merging\<close>

text \<open>
  \<open>Merge\<close> updates the receiver and returns an error or nil; on an error the updates made so far
  stay. The result is therefore the updated receiver together with the outcome.
\<close>

fun merge_atts :: "Timestamp \<Rightarrow> attestation list \<Rightarrow> Timestamp" where
  "merge_atts t [] = t"
| "merge_atts t (att # atts) =
     (if \<not> hasAttestation t att
      then merge_atts (Timestamp (ts_Msg t) (ts_Attestations t @ [att]) (ts_Ops t)) atts
      else merge_atts t atts)"

definition set_stamp :: "Timestamp \<Rightarrow> nat \<Rightarrow> Timestamp \<Rightarrow> Timestamp" where
  "set_stamp t i s =
     Timestamp (ts_Msg t) (ts_Attestations t) ((ts_Ops t)[i := (fst (ts_Ops t ! i), s)])"

fun Merge :: "hashes \<Rightarrow> Timestamp \<Rightarrow> Timestamp \<Rightarrow> Timestamp \<times> unit result"
  and merge_ops :: "hashes \<Rightarrow> Timestamp \<Rightarrow> (op \<times> Timestamp) list \<Rightarrow> Timestamp \<times> unit result"
where
  "Merge H t (Timestamp m atts ops) =
     (if ts_Msg t \<noteq> m then
        (t, Err (ErrorString ''can't merge timestamps for different messages''))
      else merge_ops H (merge_atts t atts) ops)"
| "merge_ops H t [] = (t, Ok ())"
| "merge_ops H t ((x, s) # ops) =
     (case (case find_op (ts_Ops t) x of Some i \<Rightarrow> Ok (t, i) | None \<Rightarrow> AddOp H t x) of
        Panic p \<Rightarrow> (t, Panic p)
      | Err e \<Rightarrow> (t, Err e)
      | Ok (t1, i) \<Rightarrow>
          (case Merge H (snd (ts_Ops t1 ! i)) s of
             (child, Ok _) \<Rightarrow> merge_ops H (set_stamp t1 i child) ops
           | (child, Err e) \<Rightarrow> (set_stamp t1 i child, Err e)
           | (child, Panic p) \<Rightarrow> (set_stamp t1 i child, Panic p)))"

section \<open>Comparing\<close>

fun ts_Equal :: "Timestamp \<Rightarrow> Timestamp \<Rightarrow> bool"
  and ops_Equal :: "(op \<times> Timestamp) list \<Rightarrow> Timestamp \<Rightarrow> bool"
where
  "ts_Equal (Timestamp m atts ops) other =
     (if m \<noteq> ts_Msg other \<or> length atts \<noteq> length (ts_Attestations other) \<or>
         length ops \<noteq> length (ts_Ops other) then False
      else list_all (hasAttestation other) atts \<and> ops_Equal ops other)"
| "ops_Equal [] other = True"
| "ops_Equal ((x, s) # ops) other =
     (case find_op (ts_Ops other) x of
        None \<Rightarrow> False
      | Some i \<Rightarrow> if ts_Equal s (snd (ts_Ops other ! i)) then ops_Equal ops other else False)"

section \<open>Encoding\<close>

text \<open>
  \<open>sort.Slice\<close> over the operations with \<open>Less\<close> is \<open>sort_key fst\<close> in the order on operations, whose
  strict part is \<open>Less\<close>. \<open>Less\<close> is linear, so only the order among equal operations is not determined by it.
  \<open>sort_key\<close> keeps that order, as \<open>sort.Slice\<close> does up to twelve elements (it sorts those by insertion); in a longer
  list \<open>sort.Slice\<close> may exchange equal operations. Operations added by \<open>AddOp\<close> are never equal, so it matters only for a decoded
  node with more than twelve operations and a repeated one among them.
\<close>

lemma size_list_sort_key: "size_list f (sort_key k xs) = size_list f xs"
proof -
  have "size_list f ys = (\<Sum>y\<in>#mset ys. Suc (f y))" for ys
    by (induction ys) simp_all
  then show ?thesis by simp
qed

function ts_Serialize :: "Context \<Rightarrow> Timestamp \<Rightarrow> Context result"
  and Serialize_ops :: "Context \<Rightarrow> (op \<times> Timestamp) list \<Rightarrow> Context result"
where
  "ts_Serialize c (Timestamp m atts0 ops0) =
     (if length atts0 = 0 \<and> length ops0 = 0
      then Err (ErrorString ''an empty timestamp can't be serialized'')
      else
        let atts = SortAttestations atts0;
            ops = sort_key fst ops0;
            c1 = (if length atts > 1
                  then foldl (\<lambda>c a. att_Serialize (WriteBytes c [0xff, 0x00]) a) c (butlast atts)
                  else c)
        in if length ops = 0 then Ok (att_Serialize (WriteBytes c1 [0x00]) (last atts))
           else
             let c2 = (if length atts > 0
                       then att_Serialize (WriteBytes c1 [0xff, 0x00]) (last atts) else c1)
             in Serialize_ops c2 ops)"
| "Serialize_ops c [] = Ok c"
| "Serialize_ops c ((x, s) # ops) =
     (if ops = [] then ts_Serialize (op_Serialize c x) s
      else andThen (ts_Serialize (op_Serialize (WriteBytes c [0xff]) x) s) (\<lambda>c'. Serialize_ops c' ops))"
  by pat_completeness auto
termination
  by (relation "measure (\<lambda>x. case x of Inl (c, t) \<Rightarrow> size t
       | Inr (c, ops) \<Rightarrow> size_list (size_prod (\<lambda>_. 0) size) ops)")
    (auto simp: size_list_sort_key)

definition ts_SerializeBytes :: "Timestamp \<Rightarrow> bytes result" where
  "ts_SerializeBytes t = andThen (ts_Serialize NewWriteContext t) (\<lambda>c. Ok (Bytes c))"

section \<open>Decoding\<close>

text \<open>
  \<open>Deserialize\<close> with its loop and its closure \<open>readItem\<close>; the loop and the closure carry the depth
  that is left for the sub-timestamps. The recursion ends because each round of the loop reads at
  least one byte and each nested call has a smaller depth.
\<close>

function ts_Deserialize :: "hashes \<Rightarrow> Context \<Rightarrow> bytes \<Rightarrow> nat \<Rightarrow> (Timestamp \<times> Context) result"
  and Deserialize_loop :: "hashes \<Rightarrow> Context \<Rightarrow> bytes \<Rightarrow> nat \<Rightarrow> Timestamp \<Rightarrow> byte \<Rightarrow> (Timestamp \<times> Context) result"
  and readItem :: "hashes \<Rightarrow> Context \<Rightarrow> bytes \<Rightarrow> nat \<Rightarrow> Timestamp \<Rightarrow> byte \<Rightarrow> (Timestamp \<times> Context) result"
where
  "ts_Deserialize H c initialMsg depth =
     (if depth = 0 then Err RecursionLimitError
      else andThen (New initialMsg) (\<lambda>t.
           andThen (ReadUint8 c) (\<lambda>(tag, c1).
           Deserialize_loop H c1 initialMsg (depth - 1) t tag)))"
| "Deserialize_loop H c initialMsg depth t tag =
     (if tag = 0xff then
        andThen (ReadUint8 c) (\<lambda>(next_tag, c1).
        andThen (readItem H c1 initialMsg depth t next_tag) (\<lambda>(t', c2).
        andThen (ReadUint8 c2) (\<lambda>(tag', c3).
        Deserialize_loop H c3 initialMsg depth t' tag')))
      else readItem H c initialMsg depth t tag)"
| "readItem H c initialMsg depth t tag =
     (if tag = 0x00 then
        andThen (notary_Deserialize c) (\<lambda>(att, c1).
          Ok (Timestamp (ts_Msg t) (ts_Attestations t @ [att]) (ts_Ops t), c1))
      else
        andThen (DeserializeFromTag c tag) (\<lambda>(x, c1).
        (case op_Apply H x initialMsg of
           Panic p \<Rightarrow> Panic p
         | Err e \<Rightarrow> Err (DeserializationError
             (''invalid timestamp; message invalid for op: '' @ error_string e))
         | Ok r \<Rightarrow>
             andThen (ts_Deserialize H c1 r depth) (\<lambda>(child, c2).
               Ok (Timestamp (ts_Msg t) (ts_Attestations t) (ts_Ops t @ [(x, child)]), c2)))))"
  by pat_completeness auto
termination
proof (relation "measures
    [\<lambda>x. case x of Inl (H, c, m, d) \<Rightarrow> 3 * d | Inr (Inl (H, c, m, d, t, g)) \<Rightarrow> 3 * d + 2
         | Inr (Inr (H, c, m, d, t, g)) \<Rightarrow> 3 * d + 1,
     \<lambda>x. case x of Inl _ \<Rightarrow> 0 | Inr (Inl (H, c, m, d, t, g)) \<Rightarrow> length c | Inr (Inr _) \<Rightarrow> 0]",
    goal_cases)
  case (4 H c m d t tag x next_tag c1 y t' c2 z tag' c3)
  have "ts_Deserialize_Deserialize_loop_readItem_dom (Inl (H1, c1, m1, d1)) \<Longrightarrow>
      \<forall>t c. ts_Deserialize H1 c1 m1 d1 = Ok (t, c) \<longrightarrow> length c \<le> length c1"
    and "ts_Deserialize_Deserialize_loop_readItem_dom (Inr (Inl (H2, c2, m2, d2, t2, g2))) \<Longrightarrow>
      \<forall>t c. Deserialize_loop H2 c2 m2 d2 t2 g2 = Ok (t, c) \<longrightarrow> length c \<le> length c2"
    and R: "ts_Deserialize_Deserialize_loop_readItem_dom (Inr (Inr (H3, c3, m3, d3, t3, g3))) \<Longrightarrow>
      \<forall>t c. readItem H3 c3 m3 d3 t3 g3 = Ok (t, c) \<longrightarrow> length c \<le> length c3"
    for H1 c1 m1 d1 H2 c2 m2 d2 t2 g2 H3 c3 m3 d3 t3 g3
  proof (induction H1 c1 m1 d1 and H2 c2 m2 d2 t2 g2 and H3 c3 m3 d3 t3 g3
      rule: ts_Deserialize_Deserialize_loop_readItem.pinduct)
    case (1 H c m d)
    show ?case
    proof (intro allI impI)
      fix t' c'
      assume "ts_Deserialize H c m d = Ok (t', c')"
      then obtain t tag c1 where "d \<noteq> 0" "New m = Ok t" and c: "ReadUint8 c = Ok (tag, c1)"
        and "Deserialize_loop H c1 m (d - 1) t tag = Ok (t', c')"
        by (auto simp: ts_Deserialize.psimps [OF "1.hyps"] andThen_eq_Ok split: if_splits)
      then have "length c' \<le> length c1" using "1.IH" by blast
      with ReadUint8_OkD [OF c] show "length c' \<le> length c" by simp
    qed
  next
    case (2 H c m d t tag)
    show ?case
    proof (intro allI impI)
      fix t' c'
      assume ok: "Deserialize_loop H c m d t tag = Ok (t', c')"
      show "length c' \<le> length c"
      proof (cases "tag = 0xff")
        case True
        with ok obtain n c1 t1 c2 g c3 where c1: "ReadUint8 c = Ok (n, c1)"
          and i: "readItem H c1 m d t n = Ok (t1, c2)" and c3: "ReadUint8 c2 = Ok (g, c3)"
          and l: "Deserialize_loop H c3 m d t1 g = Ok (t', c')"
          unfolding Deserialize_loop.psimps [OF "2.hyps"] by (auto simp: andThen_eq_Ok)
        have "length c2 \<le> length c1" using "2.IH"(1) [OF True c1 refl] i by blast
        moreover have "length c' \<le> length c3" using "2.IH"(2) [OF True c1 refl i refl c3 refl] l by blast
        ultimately show ?thesis using ReadUint8_OkD [OF c1] ReadUint8_OkD [OF c3] by simp
      next
        case False
        with ok "2.IH"(3) show ?thesis by (simp add: Deserialize_loop.psimps [OF "2.hyps"])
      qed
    qed
  next
    case (3 H c m d t tag)
    show ?case
    proof (intro allI impI)
      fix t' c'
      assume ok: "readItem H c m d t tag = Ok (t', c')"
      show "length c' \<le> length c"
      proof (cases "tag = 0")
        case True
        with ok show ?thesis
          unfolding readItem.psimps [OF "3.hyps"]
          by (auto simp: andThen_eq_Ok dest!: notary_Deserialize_OkD)
      next
        case False
        with ok obtain x c1 r u c2 where x: "DeserializeFromTag c tag = Ok (x, c1)"
          and r: "op_Apply H x m = Ok r" and "ts_Deserialize H c1 r d = Ok (u, c')"
          unfolding readItem.psimps [OF "3.hyps"]
          by (auto simp: andThen_eq_Ok case_result_eq_Ok)
        then have "length c' \<le> length c1" using "3.IH" [OF False x refl r] by blast
        with DeserializeFromTag_OkD [OF x] show ?thesis by simp
      qed
    qed
  qed
  note R = this(3)
  from 4 have "length c2 \<le> length c1" using R by blast
  with 4 show ?case by (auto dest!: ReadUint8_OkD)
qed simp_all

definition ts_DeserializeBytes :: "hashes \<Rightarrow> bytes \<Rightarrow> bytes \<Rightarrow> Timestamp result" where
  "ts_DeserializeBytes H data initialMsg =
     andThen (ts_Deserialize H (NewContext data) initialMsg recursionLimit) (\<lambda>(t, c). Ok t)"

section \<open>Detached timestamp files\<close>

text \<open>
  The field \<open>FileHashOp\<close> has the type \<open>*op.SHA256Op\<close>, a struct without fields: it is always
  \<open>SHA256Op\<close>, and the record keeps the timestamp only.
\<close>

record DetachedTimestampFile =
  df_Timestamp :: Timestamp

definition FileDigest :: "DetachedTimestampFile \<Rightarrow> bytes" where
  "FileDigest d = ts_Msg (df_Timestamp d)"

definition NewDetached :: "Timestamp \<Rightarrow> DetachedTimestampFile result" where
  "NewDetached ts =
     (if length (ts_Msg ts) \<noteq> SHA256_DigestLength then
        Err (ErrorString ''timestamp message length and file_hash_op digest length differ'')
      else Ok \<lparr>df_Timestamp = ts\<rparr>)"

definition FromReader :: "hashes \<Rightarrow> reader \<Rightarrow> DetachedTimestampFile result" where
  "FromReader H r =
     andThen (SHA256_HashReader H r) (\<lambda>digest. andThen (New digest) (\<lambda>ts. NewDetached ts))"

definition df_Serialize :: "Context \<Rightarrow> DetachedTimestampFile \<Rightarrow> Context result" where
  "df_Serialize c d =
     (let c1 = WriteBytes c HeaderMagic;
          c2 = WriteUint8 c1 MajorVersion;
          c3 = op_Serialize c2 SHA256Op;
          c4 = WriteBytes c3 (ts_Msg (df_Timestamp d))
      in ts_Serialize c4 (df_Timestamp d))"

definition DeserializeDetached :: "hashes \<Rightarrow> Context \<Rightarrow> DetachedTimestampFile result" where
  "DeserializeDetached H c =
     andThen (AssertMagic c HeaderMagic) (\<lambda>c1.
     andThen (ReadUint8 c1) (\<lambda>(major, c2).
     if major \<noteq> MajorVersion then Err (UnsupportedMajorVersion (uint major))
     else
       andThen (op_Deserialize c2) (\<lambda>(fileHashOp, c3).
       if fileHashOp \<noteq> SHA256Op then Err (DeserializationError ''unsupported file hash op'')
       else
         andThen (ReadBytes c3 (int SHA256_DigestLength)) (\<lambda>(digest, c4).
         andThen (ts_Deserialize H c4 digest recursionLimit) (\<lambda>(ts, c5).
         andThen (AssertEOF c5) (\<lambda>_. NewDetached ts))))))"

definition DeserializeDetachedBytes :: "hashes \<Rightarrow> bytes \<Rightarrow> DetachedTimestampFile result" where
  "DeserializeDetachedBytes H data = DeserializeDetached H (NewContext data)"

definition df_SerializeBytes :: "DetachedTimestampFile \<Rightarrow> bytes result" where
  "df_SerializeBytes d = andThen (df_Serialize NewWriteContext d) (\<lambda>c. Ok (Bytes c))"

definition df_Equal :: "DetachedTimestampFile \<Rightarrow> DetachedTimestampFile \<Rightarrow> bool" where
  "df_Equal d other \<longleftrightarrow> op_Equal SHA256Op SHA256Op \<and> ts_Equal (df_Timestamp d) (df_Timestamp other)"

section \<open>All attestations\<close>

fun AllAttestations :: "Timestamp \<Rightarrow> (bytes \<times> attestation) list" where
  "AllAttestations (Timestamp m atts ops) =
     map (\<lambda>att. (m, att)) atts @ concat (map (\<lambda>(x, s). AllAttestations s) ops)"

definition CommitmentHex :: "bytes \<Rightarrow> string" where
  "CommitmentHex msg = hex_EncodeToString msg"

end
