(* ===== verification/Timestamp_Codec.thy ===== *)
theory Timestamp_Codec
  imports Timestamp
begin

text \<open>
  The binary format of timestamps and of detached timestamp files: what a well-formed timestamp is,
  the reference encoding that the encoder is shown to produce, the normal form (every node sorted)
  that decoding an encoding returns, and what the decoder guarantees of everything it accepts.
\<close>

section \<open>Well-formed timestamps\<close>

text \<open>
  \<open>linked\<close>: every operation leads from its node's message to its result's message, messages
  are within the limit, operations and attestations are well-formed. \<open>full\<close>: no node is empty.
\<close>

fun linked :: "hashes \<Rightarrow> Timestamp \<Rightarrow> bool" where
  "linked H (Timestamp m atts ops) \<longleftrightarrow>
     length m \<le> MaxMsgLength \<and> list_all att_ok atts \<and>
     list_all (\<lambda>(x, s). op_ok x \<and> op_Apply H x m = Ok (ts_Msg s) \<and> linked H s) ops"

fun full :: "Timestamp \<Rightarrow> bool" where
  "full (Timestamp m atts ops) \<longleftrightarrow> (atts \<noteq> [] \<or> ops \<noteq> []) \<and> list_all (\<lambda>(x, s). full s) ops"

fun ts_depth :: "Timestamp \<Rightarrow> nat" where
  "ts_depth (Timestamp m atts ops) = Suc (foldr max (map (\<lambda>(x, s). ts_depth s) ops) 0)"

lemma foldr_max_le: "foldr max xs (0 :: nat) \<le> n \<longleftrightarrow> (\<forall>x \<in> set xs. x \<le> n)"
  by (induction xs) auto

lemma ts_depth_le: "ts_depth (Timestamp m atts ops) \<le> n \<longleftrightarrow>
    (\<exists>k. n = Suc k \<and> (\<forall>(x, s) \<in> set ops. ts_depth s \<le> k))"
  by (cases n) (auto simp: foldr_max_le)

section \<open>The reference encoding\<close>

text \<open>
  A serialized timestamp is the sequence of its items, attestations first, each but the last
  introduced by the byte \<open>0xff\<close>.
\<close>

fun join_items :: "bytes list \<Rightarrow> bytes" where
  "join_items [] = []"
| "join_items [i] = i"
| "join_items (i # j # is) = 0xff # i @ join_items (j # is)"

fun ts_enc :: "Timestamp \<Rightarrow> bytes" where
  "ts_enc (Timestamp m atts ops) =
     join_items (map (\<lambda>a. 0x00 # att_Serialize [] a) (SortAttestations atts) @
       map (\<lambda>(x, e). op_Serialize [] x @ e) (sort_key fst (map (\<lambda>(x, s). (x, ts_enc s)) ops)))"

text \<open>Sorted at every node, as the encoder visits it.\<close>

fun normal :: "Timestamp \<Rightarrow> Timestamp" where
  "normal (Timestamp m atts ops) =
     Timestamp m (SortAttestations atts) (sort_key fst (map (\<lambda>(x, s). (x, normal s)) ops))"

lemma insort_key_apsnd: "insort_key fst (apsnd f p) (map (apsnd f) ys) = map (apsnd f) (insort_key fst p ys)"
  by (induction ys) auto

lemma sort_key_apsnd: "sort_key fst (map (apsnd f) ops) = map (apsnd f) (sort_key fst ops)"
  by (induction ops) (auto simp: insort_key_apsnd)

lemma map_case_apsnd: "map (\<lambda>(x, s). (x, f s)) ops = map (apsnd f) ops"
  by auto

lemma sort_key_Nil_iff [simp]: "sort_key k xs = [] \<longleftrightarrow> xs = []"
  by (metis length_0_conv length_sort)

lemma normal_Timestamp:
  "normal (Timestamp m atts ops) =
     Timestamp m (SortAttestations atts) (map (apsnd normal) (sort_key fst ops))"
  by (simp add: map_case_apsnd sort_key_apsnd)

lemma ts_enc_Timestamp:
  "ts_enc (Timestamp m atts ops) =
     join_items (map (\<lambda>a. 0x00 # att_Serialize [] a) (SortAttestations atts) @
       map (\<lambda>(x, s). op_Serialize [] x @ ts_enc s) (sort_key fst ops))"
proof -
  have "map (\<lambda>(x, e). op_Serialize [] x @ e) (map (apsnd ts_enc) ps) =
      map (\<lambda>(x, s). op_Serialize [] x @ ts_enc s) ps" for ps by auto
  then show ?thesis by (simp only: ts_enc.simps map_case_apsnd sort_key_apsnd)
qed

lemma ts_Msg_normal [simp]: "ts_Msg (normal t) = ts_Msg t"
  by (cases t) simp

declare ts_enc.simps [simp del] normal.simps [simp del]

lemma foldl_att_Serialize:
  "foldl (\<lambda>c a. att_Serialize (WriteBytes c [0xff, 0x00]) a) c as =
     c @ concat (map (\<lambda>a. 0xff # 0x00 # att_Serialize [] a) as)"
  by (induction as arbitrary: c)
    (simp_all add: WriteBytes_def att_Serialize_append [of "_ @ _"])

lemma join_items_snoc: "join_items (is @ [i]) = concat (map (Cons 0xff) is) @ i"
  by (induction "is" rule: join_items.induct) auto

lemma join_items_append:
  "js \<noteq> [] \<Longrightarrow> join_items (is @ js) = concat (map (Cons 0xff) is) @ join_items js"
proof (induction js rule: rev_induct)
  case (snoc j js)
  then show ?case using join_items_snoc [of "is @ js" j] join_items_snoc [of js j] by simp
qed simp

lemma full_sort: "list_all P (sort_key k ops) = list_all P ops"
  by (simp add: list_all_iff)

text \<open>On full timestamps the encoder succeeds and appends the reference encoding.\<close>

lemma ts_Serialize_enc:
  "full t \<Longrightarrow> ts_Serialize c t = Ok (c @ ts_enc t)"
  "list_all (\<lambda>(x, s). full s) ops \<Longrightarrow>
     Serialize_ops c ops = Ok (c @ join_items (map (\<lambda>(x, s). op_Serialize [] x @ ts_enc s) ops))"
proof (induction c t and c ops rule: ts_Serialize_Serialize_ops.induct)
  case (1 c m atts ops)
  let ?as = "SortAttestations atts"
  let ?att = "\<lambda>a. 0x00 # att_Serialize [] a"
  let ?c1 = "if length ?as > 1
             then foldl (\<lambda>c a. att_Serialize (WriteBytes c [0xff, 0x00]) a) c (butlast ?as) else c"
  have c1: "?c1 = c @ concat (map (Cons 0xff) (map ?att (butlast ?as)))"
    by (cases ?as rule: rev_cases) (auto simp: foldl_att_Serialize o_def)
  show ?case
  proof (cases "ops = []")
    case True
    with "1.prems" obtain bs b where as: "?as = bs @ [b]" by (cases ?as rule: rev_cases) auto
    have "ts_Serialize c (Timestamp m atts ops) = Ok (att_Serialize (WriteBytes ?c1 [0x00]) (last ?as))"
      using True "1.prems" by (simp add: Let_def)
    also have "WriteBytes ?c1 [0x00] = c @ concat (map (Cons 0xff) (map ?att bs)) @ [0x00]"
      unfolding c1 using as by (simp add: WriteBytes_def)
    finally show ?thesis
      using True as by (simp add: ts_enc_Timestamp join_items_snoc att_Serialize_append [of "_ @ _"])
  next
    case False
    let ?c2 = "if length ?as > 0 then att_Serialize (WriteBytes ?c1 [0xff, 0x00]) (last ?as) else ?c1"
    have c2: "?c2 = c @ concat (map (Cons 0xff) (map ?att ?as))"
    proof (cases ?as rule: rev_cases)
      case (snoc bs b)
      then show ?thesis unfolding c1 by (simp add: att_Serialize_append [of "_ @ _"] WriteBytes_def o_def)
    qed (simp add: c1)
    have "ts_Serialize c (Timestamp m atts ops) = Serialize_ops ?c2 (sort_key fst ops)"
      using False by (simp add: Let_def)
    also have "\<dots> = Ok (?c2 @ join_items (map (\<lambda>(x, s). op_Serialize [] x @ ts_enc s) (sort_key fst ops)))"
      using "1.IH" False "1.prems" by (simp add: full_sort Let_def)
    finally show ?thesis
      unfolding c2 ts_enc_Timestamp using False
      by (subst join_items_append) (simp_all add: o_def case_prod_unfold)
  qed
next
  case (3 c x s ops)
  show ?case
  proof (cases ops)
    case Nil
    with 3 show ?thesis by (simp add: op_Serialize_append [of c])
  next
    case (Cons y ops')
    with 3 show ?thesis
      by (cases y) (simp add: WriteBytes_def op_Serialize_append [of "_ @ _"])
  qed
qed simp

lemma Timestamp_induct [case_names Timestamp]:
  assumes "\<And>m atts ops. (\<And>x s. (x, s) \<in> set ops \<Longrightarrow> P s) \<Longrightarrow> P (Timestamp m atts ops)"
  shows "P t"
proof (induction t)
  case (Timestamp m atts ops)
  then show ?case using assms by (metis snds.intros snd_conv)
qed

lemma linked_child:
  "linked H (Timestamp m atts ops) \<Longrightarrow> (x, s) \<in> set ops \<Longrightarrow>
   op_ok x \<and> op_Apply H x m = Ok (ts_Msg s) \<and> linked H s"
  by (fastforce simp: list_all_iff)

lemma full_child: "full (Timestamp m atts ops) \<Longrightarrow> (x, s) \<in> set ops \<Longrightarrow> full s"
  by (fastforce simp: list_all_iff)

section \<open>Decoding the reference encoding\<close>

definition add_att :: "attestation \<Rightarrow> Timestamp \<Rightarrow> Timestamp" where
  "add_att a t = Timestamp (ts_Msg t) (ts_Attestations t @ [a]) (ts_Ops t)"

definition add_op :: "op \<times> Timestamp \<Rightarrow> Timestamp \<Rightarrow> Timestamp" where
  "add_op p t = Timestamp (ts_Msg t) (ts_Attestations t) (ts_Ops t @ [p])"

text \<open>The bytes \<open>i\<close> are one item whose reading adds \<open>f\<close> to the timestamp.\<close>

definition item_reads :: "hashes \<Rightarrow> bytes \<Rightarrow> nat \<Rightarrow> bytes \<Rightarrow> (Timestamp \<Rightarrow> Timestamp) \<Rightarrow> bool" where
  "item_reads H m d i f \<longleftrightarrow>
     (\<exists>tag body. i = tag # body \<and> tag \<noteq> 0xff \<and>
        (\<forall>t rest. readItem H (body @ rest) m d t tag = Ok (f t, rest)))"

declare ts_Deserialize.simps [simp del] Deserialize_loop.simps [simp del] readItem.simps [simp del]

lemma loop_reads_items:
  assumes "list_all2 (item_reads H m d) is fs" and "is \<noteq> []"
  obtains tag body where "join_items is = tag # body"
    and "\<And>t rest. Deserialize_loop H (body @ rest) m d t tag = Ok (fold (\<lambda>f. f) fs t, rest)"
  using assms
proof (induction "is" arbitrary: fs thesis rule: join_items.induct)
  case (2 i)
  from "2.prems"(2) obtain f where f: "fs = [f]" "item_reads H m d i f"
    by (auto simp: list_all2_Cons1)
  from f(2) obtain tag body where i: "i = tag # body" "tag \<noteq> 0xff"
    and r: "\<And>t rest. readItem H (body @ rest) m d t tag = Ok (f t, rest)"
    unfolding item_reads_def by blast
  show ?case
    by (rule "2.prems"(1) [of tag body]) (simp_all add: i f Deserialize_loop.simps r)
next
  case (3 i j "is")
  from "3.prems"(2) obtain f fs' where f: "fs = f # fs'" "item_reads H m d i f"
    and fs': "list_all2 (item_reads H m d) (j # is) fs'"
    by (auto simp: list_all2_Cons1)
  from f(2) obtain tag body where i: "i = tag # body" "tag \<noteq> 0xff"
    and r: "\<And>t rest. readItem H (body @ rest) m d t tag = Ok (f t, rest)"
    unfolding item_reads_def by blast
  obtain tag' body' where j: "join_items (j # is) = tag' # body'"
    and l: "\<And>t rest. Deserialize_loop H (body' @ rest) m d t tag' = Ok (fold (\<lambda>f. f) fs' t, rest)"
    using "3.IH" [OF _ fs'] by blast
  show ?case
  proof (rule "3.prems"(1) [of "0xff" "i @ join_items (j # is)"])
    show "Deserialize_loop H ((i @ join_items (j # is)) @ rest) m d t 0xff = Ok (fold (\<lambda>f. f) fs t, rest)"
      for t rest
      by (subst Deserialize_loop.simps) (simp add: i f r j l)
  qed simp
qed simp

lemma item_reads_att: "att_ok a \<Longrightarrow> item_reads H m d (0x00 # att_Serialize [] a) (add_att a)"
  by (simp add: item_reads_def readItem.simps notary_Deserialize_enc add_att_def)

lemma item_reads_op:
  assumes "op_ok x" and "op_Apply H x m = Ok (ts_Msg s)"
    and "\<And>rest. ts_Deserialize H (e @ rest) (ts_Msg s) d = Ok (s, rest)"
  shows "item_reads H m d (op_Serialize [] x @ e) (add_op (x, s))"
  using assms op_Tag_not_0_ff [of x]
  by (simp add: item_reads_def op_Serialize_tag readItem.simps DeserializeFromTag_enc add_op_def)

lemma fold_add_att: "fold (\<lambda>f. f) (map add_att as) (Timestamp m bs ops) = Timestamp m (bs @ as) ops"
  by (induction "as" arbitrary: bs) (simp_all add: add_att_def)

lemma fold_add_op: "fold (\<lambda>f. f) (map add_op ps) (Timestamp m bs ops) = Timestamp m bs (ops @ ps)"
  by (induction ps arbitrary: ops) (simp_all add: add_op_def)

text \<open>The items of a node, for the operations \<open>ps\<close> whose results can be read.\<close>

lemma items_read:
  assumes "linked H (Timestamp m atts ops)"
    and "\<And>x s. (x, s) \<in> set ps \<Longrightarrow> item_reads H m k (op_Serialize [] x @ ts_enc s) (add_op (x, normal s))"
  shows "list_all2 (item_reads H m k)
      (map (\<lambda>a. 0x00 # att_Serialize [] a) (SortAttestations atts) @
       map (\<lambda>(x, s). op_Serialize [] x @ ts_enc s) ps)
      (map add_att (SortAttestations atts) @ map (\<lambda>(x, s). add_op (x, normal s)) ps)"
proof -
  have "att_ok a" if "a \<in> set atts" for a using assms(1) that by (auto simp: list_all_iff)
  then show ?thesis using assms(2)
    by (auto intro!: list_all2_appendI item_reads_att list.rel_refl_strong
        simp: list_all2_map1 list_all2_map2)
qed

lemma ts_Deserialize_enc [ots_roundtrip]:
  "linked H t \<Longrightarrow> full t \<Longrightarrow> ts_depth t \<le> d \<Longrightarrow>
   ts_Deserialize H (ts_enc t @ rest) (ts_Msg t) d = Ok (normal t, rest)"
proof (induction t arbitrary: d rest rule: Timestamp_induct)
  case (Timestamp m atts ops)
  from Timestamp.prems(3) obtain k where d: "d = Suc k"
    and k: "\<And>x s. (x, s) \<in> set ops \<Longrightarrow> ts_depth s \<le> k" unfolding ts_depth_le by blast
  define ps where "ps = sort_key fst ops"
  have ps: "set ps = set ops" by (simp add: ps_def)
  let ?as = "SortAttestations atts"
  let ?is = "map (\<lambda>a. 0x00 # att_Serialize [] a) ?as @ map (\<lambda>(x, s). op_Serialize [] x @ ts_enc s) ps"
  let ?fs = "map add_att ?as @ map (\<lambda>(x, s). add_op (x, normal s)) ps"
  have "item_reads H m k (op_Serialize [] x @ ts_enc s) (add_op (x, normal s))" if "(x, s) \<in> set ops" for x s
  proof (rule item_reads_op)
    show "op_ok x" "op_Apply H x m = Ok (ts_Msg (normal s))"
      using linked_child [OF Timestamp.prems(1) that] by simp_all
    show "ts_Deserialize H (ts_enc s @ rest) (ts_Msg (normal s)) k = Ok (normal s, rest)" for rest
      using linked_child [OF Timestamp.prems(1) that] full_child [OF Timestamp.prems(2) that]
        Timestamp.IH [OF that _ _ k [OF that]] by simp
  qed
  then have all: "list_all2 (item_reads H m k) ?is ?fs"
    using ps by (intro items_read [OF Timestamp.prems(1)]) simp
  have "?is \<noteq> []" using Timestamp.prems(2) ps by auto
  from loop_reads_items [OF all this] obtain tag body where e: "join_items ?is = tag # body"
    and l: "\<And>t rest. Deserialize_loop H (body @ rest) m k t tag = Ok (fold (\<lambda>f. f) ?fs t, rest)"
    by blast
  have fs: "fold (\<lambda>f. f) ?fs (Timestamp m [] []) = normal (Timestamp m atts ops)"
    using fold_add_op [of "map (apsnd normal) ps"]
    by (simp add: normal_Timestamp fold_add_att ps_def o_def apsnd_def map_prod_def case_prod_unfold)
  have enc: "ts_enc (Timestamp m atts ops) = tag # body"
    using e by (simp add: ts_enc_Timestamp ps_def)
  show ?case using Timestamp.prems(1)
    by (simp add: ts_Deserialize.simps d enc l fs [simplified] New_def)
qed


section \<open>What decoding returns\<close>

text \<open>A timestamp under construction at message \<open>m\<close> whose results have depth at most \<open>d\<close>.\<close>

definition growing :: "hashes \<Rightarrow> bytes \<Rightarrow> nat \<Rightarrow> Timestamp \<Rightarrow> bool" where
  "growing H m d t \<longleftrightarrow> linked H t \<and> ts_Msg t = m \<and>
     (\<forall>(x, s) \<in> set (ts_Ops t). full s \<and> ts_depth s \<le> d)"

lemma growing_add_att: "growing H m d t \<Longrightarrow> att_ok a \<Longrightarrow> growing H m d (add_att a t)"
  by (cases t) (simp add: growing_def add_att_def)

lemma growing_add_op:
  "growing H m d t \<Longrightarrow> op_ok x \<Longrightarrow> op_Apply H x m = Ok (ts_Msg s) \<Longrightarrow> linked H s \<Longrightarrow> full s \<Longrightarrow>
   ts_depth s \<le> d \<Longrightarrow> growing H m d (add_op (x, s) t)"
  by (cases t) (auto simp: growing_def add_op_def)

lemma growing_finish:
  "growing H m d t \<Longrightarrow> ts_Attestations t \<noteq> [] \<or> ts_Ops t \<noteq> [] \<Longrightarrow>
   linked H t \<and> full t \<and> ts_depth t \<le> Suc d \<and> ts_Msg t = m"
  by (cases t) (auto simp: growing_def list_all_iff foldr_max_le)

lemma growing_New: "New m = Ok t \<Longrightarrow> growing H m d t"
  by (auto simp: New_def growing_def split: if_splits)

lemma ts_Deserialize_OkD:
  "ts_Deserialize H c m d = Ok (t, c') \<Longrightarrow>
     linked H t \<and> full t \<and> ts_depth t \<le> d \<and> ts_Msg t = m"
  "Deserialize_loop H c m d t0 tag = Ok (t, c') \<Longrightarrow> growing H m d t0 \<Longrightarrow>
     growing H m d t \<and> (ts_Attestations t \<noteq> [] \<or> ts_Ops t \<noteq> [])"
  "readItem H c m d t0 tag = Ok (t, c') \<Longrightarrow> growing H m d t0 \<Longrightarrow>
     growing H m d t \<and> (ts_Attestations t \<noteq> [] \<or> ts_Ops t \<noteq> [])"
proof (induction H c m d and H c m d t0 tag and H c m d t0 tag arbitrary: t c' and t c' and t c'
    rule: ts_Deserialize_Deserialize_loop_readItem.induct)
  case (1 H c m d)
  from "1.prems" obtain t0 tag c1 where d: "d \<noteq> 0" "New m = Ok t0" "ReadUint8 c = Ok (tag, c1)"
    and l: "Deserialize_loop H c1 m (d - 1) t0 tag = Ok (t, c')"
    by (auto simp: ts_Deserialize.simps andThen_eq_Ok split: if_splits)
  from "1.IH" [OF d(1,2,3) refl l] growing_New [OF d(2)] growing_finish d(1)
  show ?case by (metis Suc_pred' gr0I)
next
  case (2 H c m d t0 tag)
  show ?case
  proof (cases "tag = 0xff")
    case True
    with "2.prems"(1) obtain n c1 t1 c2 g c3 where c: "ReadUint8 c = Ok (n, c1)"
      "readItem H c1 m d t0 n = Ok (t1, c2)" "ReadUint8 c2 = Ok (g, c3)"
      and l: "Deserialize_loop H c3 m d t1 g = Ok (t, c')"
      by (subst (asm) Deserialize_loop.simps) (auto simp: andThen_eq_Ok)
    have "growing H m d t1" using "2.IH"(1) [OF True c(1) refl c(2) "2.prems"(2)] by simp
    with "2.IH"(2) [OF True c(1) refl c(2) refl c(3) refl l] show ?thesis by blast
  next
    case False
    with "2.prems" "2.IH"(3) [OF False] show ?thesis by (simp add: Deserialize_loop.simps)
  qed
next
  case (3 H c m d t0 tag)
  show ?case
  proof (cases "tag = 0")
    case True
    with "3.prems"(1) obtain a where "notary_Deserialize c = Ok (a, c')" "t = add_att a t0"
      by (auto simp: readItem.simps andThen_eq_Ok add_att_def)
    then show ?thesis using growing_add_att "3.prems"(2) notary_Deserialize_OkD
      by (fastforce simp: add_att_def)
  next
    case False
    with "3.prems"(1) obtain x c1 r s where x: "DeserializeFromTag c tag = Ok (x, c1)"
      and r: "op_Apply H x m = Ok r" and s: "ts_Deserialize H c1 r d = Ok (s, c')"
      and t: "t = add_op (x, s) t0"
      by (auto simp: readItem.simps andThen_eq_Ok case_result_eq_Ok add_op_def)
    from "3.IH" [OF False x refl r s] r
    have "growing H m d t" unfolding t
      using DeserializeFromTag_OkD [OF x] "3.prems"(2) by (auto intro!: growing_add_op)
    then show ?thesis by (simp add: t add_op_def)
  qed
qed


section \<open>The normal form\<close>

lemma ts_Ops_normal: "ts_Ops (normal t) = map (apsnd normal) (sort_key fst (ts_Ops t))"
  and ts_Attestations_normal: "ts_Attestations (normal t) = SortAttestations (ts_Attestations t)"
  by (cases t; simp add: normal_Timestamp)+

lemma full_normal [simp]: "full (normal t) \<longleftrightarrow> full t"
  by (induction t rule: Timestamp_induct) (auto simp: normal_Timestamp list_all_iff)

lemma linked_normal [simp]: "linked H (normal t) \<longleftrightarrow> linked H t"
  by (induction t rule: Timestamp_induct) (auto simp: normal_Timestamp list_all_iff)

lemma depth_normal_le: "ts_depth (normal t) \<le> n \<longleftrightarrow> ts_depth t \<le> n"
  by (induction t arbitrary: n rule: Timestamp_induct)
    (fastforce simp: normal_Timestamp ts_depth_le simp del: ts_depth.simps split: prod.splits)

lemma depth_normal [simp]: "ts_depth (normal t) = ts_depth t"
  using depth_normal_le [of t] by (metis nle_le)

lemma sort_key_idem: "sort_key f (sort_key f xs) = sort_key f xs"
  by (simp add: sort_key_id_if_sorted)

lemma normal_idem [simp]: "normal (normal t) = normal t"
  by (induction t rule: Timestamp_induct)
    (auto simp: normal_Timestamp sort_key_apsnd sort_key_idem)

lemma ts_enc_normal [simp]: "ts_enc (normal t) = ts_enc t"
proof (induction t rule: Timestamp_induct)
  case (Timestamp m atts ops)
  then have "map (\<lambda>(x, s). op_Serialize [] x @ ts_enc s) (map (apsnd normal) (sort_key fst ops)) =
      map (\<lambda>(x, s). op_Serialize [] x @ ts_enc s) (sort_key fst ops)"
    by auto
  then show ?case
    by (simp only: normal_Timestamp ts_enc_Timestamp sort_key_apsnd sort_key_idem SortAttestations_idem)
qed

text \<open>An item at which the loop stops with the error \<open>e\<close>, after items it has read.\<close>

lemma loop_stops:
  assumes "list_all2 (item_reads H m d) is fs"
    and "tag \<noteq> 0xff" and fails: "\<And>t rest. readItem H (body @ rest) m d t tag = Err e"
  obtains tag' body' where "join_items (is @ (tag # body) # js) = tag' # body'"
    and "\<And>t rest. Deserialize_loop H (body' @ rest) m d t tag' = Err e"
  using assms(1)
proof (induction "is" arbitrary: fs thesis)
  case Nil
  show ?case
  proof (cases js)
    case Nil
    then show ?thesis
      by (intro Nil.prems(1) [of tag body]) (simp_all add: Deserialize_loop.simps assms(2) fails)
  next
    case (Cons j js')
    show ?thesis
    proof (rule Nil.prems(1) [of "0xff" "tag # body @ join_items js"])
      show "Deserialize_loop H ((tag # body @ join_items js) @ rest) m d t 0xff = Err e" for t rest
        by (subst Deserialize_loop.simps) (simp add: fails)
    qed (simp add: Cons)
  qed
next
  case (Cons i "is")
  from Cons.prems(2) obtain f fs' where f: "fs = f # fs'" "item_reads H m d i f"
    and fs': "list_all2 (item_reads H m d) is fs'"
    by (auto simp: list_all2_Cons1)
  from f(2) obtain tag1 body1 where i: "i = tag1 # body1"
    and r: "\<And>t rest. readItem H (body1 @ rest) m d t tag1 = Ok (f t, rest)"
    unfolding item_reads_def by blast
  obtain tag' body' where j: "join_items (is @ (tag # body) # js) = tag' # body'"
    and l: "\<And>t rest. Deserialize_loop H (body' @ rest) m d t tag' = Err e"
    using Cons.IH [OF _ fs'] by blast
  show ?case
  proof (rule Cons.prems(1) [of "0xff" "i @ tag' # body'"])
    show "join_items ((i # is) @ (tag # body) # js) = 0xff # i @ tag' # body'"
      using j by (cases "is @ (tag # body) # js") auto
    show "Deserialize_loop H ((i @ tag' # body') @ rest) m d t 0xff = Err e" for t rest
      by (subst Deserialize_loop.simps) (simp add: i r l)
  qed
qed

lemma ts_Deserialize_too_deep:
  "linked H t \<Longrightarrow> full t \<Longrightarrow> d < ts_depth t \<Longrightarrow>
   ts_Deserialize H (ts_enc t @ rest) (ts_Msg t) d = Err RecursionLimitError"
proof (induction t arbitrary: d rest rule: Timestamp_induct)
  case (Timestamp m atts ops)
  show ?case
  proof (cases d)
    case 0
    then show ?thesis by (simp add: ts_Deserialize.simps)
  next
    case (Suc k)
    with Timestamp.prems(3) have "\<exists>p \<in> set (sort_key fst ops). k < ts_depth (snd p)"
      using ts_depth_le [of m atts ops d] by (fastforce simp: not_le [symmetric] simp del: ts_depth.simps)
    from split_list_first_prop [OF this] obtain ps x s qs where ops: "sort_key fst ops = ps @ (x, s) # qs"
      and s: "k < ts_depth s" and ps: "\<forall>p \<in> set ps. ts_depth (snd p) \<le> k"
      by (auto simp: not_less)
    then have sub: "set ps \<subseteq> set ops" and xs: "(x, s) \<in> set ops"
      by (metis set_sort set_append Un_upper1, metis set_sort in_set_conv_decomp)
    have "item_reads H m k (op_Serialize [] y @ ts_enc u) (add_op (y, normal u))" if "(y, u) \<in> set ps" for y u
    proof -
      from that sub ps have yu: "(y, u) \<in> set ops" "ts_depth u \<le> k" by auto
      with linked_child [OF Timestamp.prems(1) yu(1)] full_child [OF Timestamp.prems(2) yu(1)]
      show ?thesis by (intro item_reads_op) (simp_all add: ts_Deserialize_enc)
    qed
    note reads = items_read [OF Timestamp.prems(1), of ps k, OF this]
    have "readItem H ((op_tail x @ ts_enc s) @ rest) m k t (op_Tag x) = Err RecursionLimitError" for t rest
      using Timestamp.IH [OF xs _ _ s] linked_child [OF Timestamp.prems(1) xs]
        full_child [OF Timestamp.prems(2) xs] op_Tag_not_0_ff [of x]
      by (simp add: readItem.simps DeserializeFromTag_enc)
    from loop_stops [OF reads op_Tag_not_0_ff(2) this,
        where js = "map (\<lambda>(x, s). op_Serialize [] x @ ts_enc s) qs"]
    obtain tag body where "ts_enc (Timestamp m atts ops) = tag # body"
      and "\<And>t rest. Deserialize_loop H (body @ rest) m k t tag = Err RecursionLimitError"
      unfolding ts_enc_Timestamp ops by (auto simp: op_Serialize_tag)
    then show ?thesis using Timestamp.prems(1) by (simp add: ts_Deserialize.simps Suc New_def)
  qed
qed

lemma ts_Serialize_outcome:
  "ts_Serialize c t = (if full t then Ok (c @ ts_enc t)
     else Err (ErrorString ''an empty timestamp can't be serialized''))"
  "Serialize_ops c ops = (if list_all (\<lambda>(x, s). full s) ops
     then Ok (c @ join_items (map (\<lambda>(x, s). op_Serialize [] x @ ts_enc s) ops))
     else Err (ErrorString ''an empty timestamp can't be serialized''))"
proof (induction c t and c ops rule: ts_Serialize_Serialize_ops.induct)
  case (1 c m atts ops)
  show ?case
  proof (cases "full (Timestamp m atts ops)")
    case True
    then show ?thesis by (simp add: ts_Serialize_enc(1) del: full.simps ts_Serialize.simps)
  next
    case False
    then show ?thesis using "1.IH" by (cases "atts = [] \<and> ops = []") (auto simp: Let_def full_sort)
  qed
next
  case (3 c x s ops)
  then show ?case
    by (cases "full s"; cases ops) (auto simp: WriteBytes_def op_Serialize_append [of "_ @ _"] op_Serialize_append [of c])
qed simp

section \<open>Detached timestamp files\<close>

definition df_ok :: "hashes \<Rightarrow> DetachedTimestampFile \<Rightarrow> bool" where
  "df_ok H d \<longleftrightarrow> linked H (df_Timestamp d) \<and> full (df_Timestamp d) \<and>
     ts_depth (df_Timestamp d) \<le> recursionLimit \<and> length (FileDigest d) = 32"

lemma df_Serialize_enc:
  "full (df_Timestamp d) \<Longrightarrow> df_SerializeBytes d =
     Ok (HeaderMagic @ [MajorVersion] @ [0x08] @ FileDigest d @ ts_enc (df_Timestamp d))"
  by (simp add: df_SerializeBytes_def df_Serialize_def NewWriteContext_def WriteBytes_def WriteUint8_def
      writeByte_def Bytes_def FileDigest_def ts_Serialize_enc(1) Let_def)

lemma length_HeaderMagic: "length HeaderMagic = 31"
  by (simp add: HeaderMagic_def)

lemma AssertMagic_append: "int (length expected) \<le> maxAlloc \<Longrightarrow> AssertMagic (expected @ rest) expected = Ok rest"
  by (simp add: AssertMagic_def ReadBytes_append)

lemma op_Deserialize_SHA256: "op_Deserialize (0x08 # rest) = Ok (SHA256Op, rest)"
  using ops.dec_enc [of SHA256Op rest] by (simp add: WriteBytes_def)

lemma DeserializeDetached_prefix:
  assumes "length digest = 32"
  shows "DeserializeDetached H (HeaderMagic @ [MajorVersion] @ [0x08] @ digest @ body) =
    andThen (ts_Deserialize H body digest recursionLimit) (\<lambda>(ts, c).
      andThen (AssertEOF c) (\<lambda>_. NewDetached ts))"
  using assms
  by (simp add: DeserializeDetached_def AssertMagic_append length_HeaderMagic op_Deserialize_SHA256 ReadBytes_append
      SHA256_DigestLength_def)

lemma DeserializeDetached_OkD:
  assumes "DeserializeDetachedBytes H data = Ok d"
  shows "df_ok H d"
  using assms
  by (auto simp: DeserializeDetachedBytes_def DeserializeDetached_def andThen_eq_Ok NewDetached_def
      df_ok_def FileDigest_def SHA256_DigestLength_def split: if_splits dest!: ts_Deserialize_OkD(1))

text \<open>A detached file and what its decoder makes of it, with and without more bytes.\<close>

lemma detached_codec:
  assumes d: "df_ok H d"
  shows "\<exists>bs. df_SerializeBytes d = Ok bs \<and>
    DeserializeDetachedBytes H bs = Ok \<lparr>df_Timestamp = normal (df_Timestamp d)\<rparr> \<and>
    (\<forall>b junk. DeserializeDetachedBytes H (bs @ b # junk) = Err TrailingGarbageError)"
proof -
  let ?bs = "HeaderMagic @ [MajorVersion] @ [0x08] @ FileDigest d @ ts_enc (df_Timestamp d)"
  have "DeserializeDetachedBytes H (?bs @ rest) =
      (if rest = [] then Ok \<lparr>df_Timestamp = normal (df_Timestamp d)\<rparr> else Err TrailingGarbageError)" for rest
    using d DeserializeDetached_prefix [of "FileDigest d" H "ts_enc (df_Timestamp d) @ rest"]
      ts_Deserialize_enc [of H "df_Timestamp d" recursionLimit rest]
    by (simp add: df_ok_def DeserializeDetachedBytes_def NewContext_def FileDigest_def AssertEOF_def
        NewDetached_def SHA256_DigestLength_def)
  from this [of "[]"] this [of "_ # _"] d
  show ?thesis
    by (simp add: df_Serialize_enc df_ok_def)
qed

section \<open>Properties\<close>

text \<open>
  C4. Round trip of timestamps. A linked timestamp without empty nodes serializes, and decoding the
  bytes for the same message returns it with the nodes sorted, if it is at most \<open>recursionLimit\<close>
  deep, and otherwise fails with the recursion limit error, although the encoder accepted it. The
  decoded timestamp serializes to the same bytes.
\<close>

theorem timestamp_roundtrip:
  assumes "linked H t" and "full t"
  shows "\<exists>bs. ts_SerializeBytes t = Ok bs \<and> ts_SerializeBytes (normal t) = Ok bs \<and>
    ts_DeserializeBytes H bs (ts_Msg t) =
      (if ts_depth t \<le> recursionLimit then Ok (normal t) else Err RecursionLimitError)"
proof -
  have "ts_SerializeBytes t = Ok (ts_enc t)" "ts_SerializeBytes (normal t) = Ok (ts_enc t)"
    using assms by (simp_all add: ts_SerializeBytes_def NewWriteContext_def Bytes_def ts_Serialize_enc(1))
  moreover have "ts_DeserializeBytes H (ts_enc t) (ts_Msg t) =
      (if ts_depth t \<le> recursionLimit then Ok (normal t) else Err RecursionLimitError)"
    using ts_Deserialize_enc [OF assms, of recursionLimit "[]"]
      ts_Deserialize_too_deep [OF assms, of recursionLimit "[]"]
    by (simp add: ts_DeserializeBytes_def NewContext_def)
  ultimately show ?thesis by blast
qed

definition sample_ts :: Timestamp where
  "sample_ts = Timestamp [1] []
     [(SHA256Op, Timestamp (replicate 32 7) [BitcoinBlockHeaderAttestation 358391] []),
      (Sha1Op, Timestamp (replicate 20 8) [BitcoinBlockHeaderAttestation 5, PendingAttestation ''a''] [])]"

lemma sample_ts_ok: "linked const_hashes sample_ts" "full sample_ts" "ts_depth sample_ts = 2"
  by code_simp+

theorem timestamp_roundtrip_witness:
  "\<exists>bs. ts_SerializeBytes sample_ts = Ok bs \<and> ts_SerializeBytes (normal sample_ts) = Ok bs \<and>
     ts_DeserializeBytes const_hashes bs (ts_Msg sample_ts) = Ok (normal sample_ts)"
  using timestamp_roundtrip [OF sample_ts_ok(1,2)] by (simp add: sample_ts_ok(3) recursionLimit_def)

text \<open>
  C12. Everything the decoder accepts is well-formed: the message is the given one, every operation
  leads from its node's message to its result's message, no node is empty, attestations and operation
  arguments are within their limits and the depth within \<open>recursionLimit\<close>. It can be serialized again,
  and the new bytes are accepted.
\<close>

theorem timestamp_decode_sound:
  assumes "ts_DeserializeBytes H bs m = Ok t"
  shows "linked H t \<and> full t \<and> ts_depth t \<le> recursionLimit \<and> ts_Msg t = m \<and>
    (\<exists>bs'. ts_SerializeBytes t = Ok bs' \<and> ts_DeserializeBytes H bs' m = Ok (normal t))"
proof -
  from assms have t: "linked H t \<and> full t \<and> ts_depth t \<le> recursionLimit \<and> ts_Msg t = m"
    by (auto simp: ts_DeserializeBytes_def andThen_eq_Ok dest: ts_Deserialize_OkD(1))
  then show ?thesis
    using ts_Deserialize_enc [of H t recursionLimit "[]"]
    by (auto simp: ts_SerializeBytes_def ts_DeserializeBytes_def NewWriteContext_def NewContext_def
        Bytes_def ts_Serialize_enc(1))
qed

theorem timestamp_decode_sound_witness:
  "ts_DeserializeBytes const_hashes ([0x00] @ att_Serialize [] (BitcoinBlockHeaderAttestation 5)) [9] =
     Ok (Timestamp [9] [BitcoinBlockHeaderAttestation 5] []) \<and>
   linked const_hashes (Timestamp [9] [BitcoinBlockHeaderAttestation 5] [])"
proof -
  have "ts_DeserializeBytes const_hashes ([0x00] @ att_Serialize [] (BitcoinBlockHeaderAttestation 5)) [9] =
     Ok (Timestamp [9] [BitcoinBlockHeaderAttestation 5] [])"
    using notary_Deserialize_enc [of "BitcoinBlockHeaderAttestation 5" "[]"]
    by (simp add: ts_DeserializeBytes_def recursionLimit_def ts_Deserialize.simps Deserialize_loop.simps
        readItem.simps New_def MaxMsgLength_def NewContext_def)
  with timestamp_decode_sound [OF this] show ?thesis by blast
qed

text \<open>
  The encoder succeeds exactly on the timestamps without empty nodes; on the others it returns
  the error for an empty timestamp, and it never panics.
\<close>

theorem timestamp_serialize_iff_full:
  "is_ok (ts_SerializeBytes t) = full t \<and>
   (full t \<or> ts_SerializeBytes t = Err (ErrorString ''an empty timestamp can't be serialized''))"
  by (simp add: ts_SerializeBytes_def ts_Serialize_outcome(1) NewWriteContext_def)

text \<open>
  C32. Detached files. A file whose timestamp is linked, has no empty nodes, is at most
  \<open>recursionLimit\<close> deep and has a 32-byte message round-trips to its normal form, and any bytes after
  it are rejected as trailing garbage; conversely every accepted file satisfies these conditions.
\<close>

theorem detached_roundtrip:
  "(df_ok H d \<longrightarrow>
      (\<exists>bs. df_SerializeBytes d = Ok bs \<and>
        DeserializeDetachedBytes H bs = Ok \<lparr>df_Timestamp = normal (df_Timestamp d)\<rparr> \<and>
        (\<forall>b junk. DeserializeDetachedBytes H (bs @ b # junk) = Err TrailingGarbageError))) \<and>
   (\<forall>data e. DeserializeDetachedBytes H data = Ok e \<longrightarrow> df_ok H e)"
  using detached_codec DeserializeDetached_OkD by blast

theorem detached_roundtrip_witness:
  "df_ok const_hashes \<lparr>df_Timestamp = Timestamp (replicate 32 7) [BitcoinBlockHeaderAttestation 5] []\<rparr> \<and>
   (\<exists>bs. df_SerializeBytes \<lparr>df_Timestamp = Timestamp (replicate 32 7) [BitcoinBlockHeaderAttestation 5] []\<rparr> = Ok bs \<and>
      DeserializeDetachedBytes const_hashes (bs @ 0 # []) = Err TrailingGarbageError)"
proof -
  have "df_ok const_hashes \<lparr>df_Timestamp = Timestamp (replicate 32 7) [BitcoinBlockHeaderAttestation 5] []\<rparr>"
    by code_simp
  then show ?thesis using detached_roundtrip by blast
qed

text \<open>
  Rejections of the detached format: wrong magic bytes, a major version other than 1, and a file
  hash operation other than SHA-256 each give their error, whatever follows.
\<close>

theorem detached_header_errors:
  "(length magic = length HeaderMagic \<and> magic \<noteq> HeaderMagic \<longrightarrow>
      DeserializeDetachedBytes H (magic @ rest) = Err (BadMagicError HeaderMagic magic)) \<and>
   (v \<noteq> MajorVersion \<longrightarrow>
      DeserializeDetachedBytes H (HeaderMagic @ v # rest) = Err (UnsupportedMajorVersion (uint v))) \<and>
   (op_ok x \<and> x \<noteq> SHA256Op \<longrightarrow>
      DeserializeDetachedBytes H (HeaderMagic @ MajorVersion # op_Serialize [] x @ rest) =
        Err (DeserializationError ''unsupported file hash op''))"
proof (intro conjI impI)
  assume "length magic = length HeaderMagic \<and> magic \<noteq> HeaderMagic"
  then have "AssertMagic (magic @ rest) HeaderMagic = Err (BadMagicError HeaderMagic magic)"
    using ReadBytes_append [of "int (length HeaderMagic)" magic rest] by (auto simp: AssertMagic_def length_HeaderMagic)
  then show "DeserializeDetachedBytes H (magic @ rest) = Err (BadMagicError HeaderMagic magic)"
    by (simp add: DeserializeDetachedBytes_def DeserializeDetached_def NewContext_def)
qed (simp_all add: DeserializeDetachedBytes_def DeserializeDetached_def NewContext_def AssertMagic_append
      length_HeaderMagic op_Deserialize_enc)

text \<open>
  C34. The decoder can be made to panic: an attestation item whose payload length is \<open>2 ^ 63\<close> or more
  passes the signed limit check, and allocating the payload panics, whatever the message, the tag and
  the bytes that follow.
\<close>

theorem timestamp_decode_panics:
  assumes "length m \<le> MaxMsgLength" and "length tag = TagSize" and "2 ^ 63 \<le> unat l"
  shows "is_panic (ts_DeserializeBytes H ([0x00] @ tag @ varuint_enc l @ rest) m)"
proof -
  from assms(3) have "sint l < 0" by (simp add: sint_neg_iff)
  then have "is_panic (ReadVarBytes (varuint_enc l @ rest) (int MaxPayloadSize))"
    by (simp add: ReadVarBytes_def ReadVarUint_enc ReadBytes_def)
  then obtain p where p: "ReadVarBytes (varuint_enc l @ rest) (int MaxPayloadSize) = Panic p"
    by (auto simp: is_panic_iff)
  with assms(2) have "notary_Deserialize (tag @ varuint_enc l @ rest) = Panic p"
    by (simp add: notary_Deserialize_def ReadBytes_append TagSize_def)
  with assms(1) show ?thesis
    by (simp add: ts_DeserializeBytes_def recursionLimit_def ts_Deserialize.simps Deserialize_loop.simps
        readItem.simps New_def NewContext_def)
qed

theorem timestamp_decode_panics_witness:
  "is_panic (ts_DeserializeBytes const_hashes
     ([0x00] @ [1, 2, 3, 4, 5, 6, 7, 8] @ varuint_enc (2 ^ 63) @ []) [])"
  by (rule timestamp_decode_panics) (simp_all add: TagSize_def MaxMsgLength_def)

end
