(* ===== verification/Timestamp_Merge.thy ===== *)
theory Timestamp_Merge
  imports Timestamp_Codec
begin

text \<open>
  Merging and comparing timestamps: a merge of two linked timestamps on the same message succeeds,
  stays linked and encodable and holds exactly the attestations of both; a timestamp merged into
  itself is unchanged; \<open>Equal\<close> holds of a timestamp and its decoded encoding.
\<close>

section \<open>Merging\<close>

text \<open>Every operation of a node occurs once, as \<open>AddOp\<close> and \<open>Merge\<close> keep it.\<close>

fun simple :: "Timestamp \<Rightarrow> bool" where
  "simple (Timestamp m atts ops) \<longleftrightarrow>
     distinct atts \<and> distinct (map fst ops) \<and> list_all (\<lambda>(x, s). simple s) ops"

lemma find_op_None: "find_op ops x = None \<longleftrightarrow> x \<notin> fst ` set ops"
  by (induction ops x rule: find_op.induct) auto

lemma find_op_Some: "find_op ops x = Some i \<Longrightarrow> i < length ops \<and> fst (ops ! i) = x"
  by (induction ops x arbitrary: i rule: find_op.induct) (auto split: if_splits)

lemma merge_atts_eq:
  "merge_atts t as = Timestamp (ts_Msg t) (ts_Attestations (merge_atts t as)) (ts_Ops t)"
  by (induction t as rule: merge_atts.induct) auto

lemma merge_atts_keeps [simp]:
  "ts_Msg (merge_atts t as) = ts_Msg t" "ts_Ops (merge_atts t as) = ts_Ops t"
  by (subst merge_atts_eq, simp)+

lemma set_merge_atts [simp]:
  "set (ts_Attestations (merge_atts t as)) = set (ts_Attestations t) \<union> set as"
  by (induction t as rule: merge_atts.induct) (auto simp: hasAttestation_def list_ex_iff)

lemma distinct_merge_atts:
  "distinct (ts_Attestations t) \<Longrightarrow> distinct (ts_Attestations (merge_atts t as))"
  by (induction t as rule: merge_atts.induct) (auto simp: hasAttestation_def list_ex_iff)

lemma linked_iff:
  "linked H t \<longleftrightarrow> length (ts_Msg t) \<le> MaxMsgLength \<and> (\<forall>a \<in> set (ts_Attestations t). att_ok a) \<and>
     (\<forall>(x, s) \<in> set (ts_Ops t). op_ok x \<and> op_Apply H x (ts_Msg t) = Ok (ts_Msg s) \<and> linked H s)"
  by (cases t) (simp add: list_all_iff)

lemma simple_iff:
  "simple t \<longleftrightarrow> distinct (ts_Attestations t) \<and> distinct (map fst (ts_Ops t)) \<and>
     (\<forall>(x, s) \<in> set (ts_Ops t). simple s)"
  by (cases t) (simp add: list_all_iff)

lemma AllAttestations_set:
  "set (AllAttestations t) = (\<lambda>a. (ts_Msg t, a)) ` set (ts_Attestations t) \<union>
     (\<Union>(x, s) \<in> set (ts_Ops t). set (AllAttestations s))"
  by (cases t) auto

text \<open>
  The child that the loop of \<open>Merge\<close> continues with: the one found, or the fresh one that \<open>AddOp\<close>
  appends.
\<close>

definition op_slot :: "hashes \<Rightarrow> Timestamp \<Rightarrow> op \<Rightarrow> (Timestamp \<times> nat) result" where
  "op_slot H t x = (case find_op (ts_Ops t) x of Some i \<Rightarrow> Ok (t, i) | None \<Rightarrow> AddOp H t x)"

lemma New_Ok: "length m \<le> MaxMsgLength \<Longrightarrow> New m = Ok (Timestamp m [] [])"
  by (simp add: New_def)

lemma op_result_New: "op_Apply H x m = Ok r \<Longrightarrow> New r = Ok (Timestamp r [] [])"
  by (intro New_Ok) (auto dest: op_Apply_OkD simp: MaxResultLength_def MaxMsgLength_def)

lemma op_slot_cases:
  assumes "op_Apply H x (ts_Msg t) = Ok r"
  obtains (found) i where "op_slot H t x = Ok (t, i)" "i < length (ts_Ops t)" "fst (ts_Ops t ! i) = x"
  | (fresh) "op_slot H t x = Ok (add_op (x, Timestamp r [] []) t, length (ts_Ops t))"
      "x \<notin> fst ` set (ts_Ops t)"
proof (cases "find_op (ts_Ops t) x")
  case None
  then show ?thesis using assms
    by (intro fresh) (simp_all add: op_slot_def AddOp_def op_result_New add_op_def flip: find_op_None)
next
  case (Some i)
  then show ?thesis using find_op_Some [OF Some] by (intro found) (auto simp: op_slot_def)
qed

declare Merge.simps [simp del] merge_ops.simps [simp del]

lemma merge_ops_Cons:
  "merge_ops H t ((x, s) # ops) =
     (case op_slot H t x of
        Ok (t1, i) \<Rightarrow>
          (case Merge H (snd (ts_Ops t1 ! i)) s of
             (child, Ok _) \<Rightarrow> merge_ops H (set_stamp t1 i child) ops
           | (child, Err e) \<Rightarrow> (set_stamp t1 i child, Err e)
           | (child, Panic p) \<Rightarrow> (set_stamp t1 i child, Panic p))
      | Err e \<Rightarrow> (t, Err e) | Panic p \<Rightarrow> (t, Panic p))"
  by (simp add: merge_ops.simps op_slot_def)


lemma op_slot_linked:
  assumes t: "linked H t" and x: "op_ok x" "op_Apply H x (ts_Msg t) = Ok r"
  obtains t1 i where "op_slot H t x = Ok (t1, i)" and "linked H t1" and "ts_Msg t1 = ts_Msg t"
    and "i < length (ts_Ops t1)" and "fst (ts_Ops t1 ! i) = x" and "ts_Msg (snd (ts_Ops t1 ! i)) = r"
    and "linked H (snd (ts_Ops t1 ! i))" and "simple t \<Longrightarrow> simple t1"
    and "set (AllAttestations t1) = set (AllAttestations t)" and "ts_Attestations t1 = ts_Attestations t"
    and "t1 = t \<or> t1 = add_op (x, Timestamp r [] []) t \<and> snd (ts_Ops t1 ! i) = Timestamp r [] []"
  using x(2)
proof (cases rule: op_slot_cases)
  case (found i)
  then have "(x, snd (ts_Ops t ! i)) \<in> set (ts_Ops t)" by (metis nth_mem prod.collapse)
  with t x have "ts_Msg (snd (ts_Ops t ! i)) = r" "linked H (snd (ts_Ops t ! i))"
    unfolding linked_iff [of H t] by fastforce+
  with that found t show ?thesis by blast
next
  case fresh
  let ?t1 = "add_op (x, Timestamp r [] []) t"
  have "length r \<le> MaxMsgLength"
    using op_Apply_OkD [OF x(2)] by (auto simp: MaxResultLength_def MaxMsgLength_def)
  then have "linked H ?t1" "linked H (Timestamp r [] [])"
    using t x by (auto simp: linked_iff [of H t] add_op_def list_all_iff)
  moreover have "simple t \<Longrightarrow> simple ?t1" using fresh(2) by (auto simp: simple_iff [of t] simple_iff [of ?t1] add_op_def list_all_iff)
  moreover have "set (AllAttestations ?t1) = set (AllAttestations t)"
    by (cases t) (simp add: add_op_def)
  moreover have "ts_Msg ?t1 = ts_Msg t" "ts_Attestations ?t1 = ts_Attestations t"
    "ts_Ops ?t1 = ts_Ops t @ [(x, Timestamp r [] [])]"
    by (simp_all add: add_op_def)
  ultimately show ?thesis using fresh(1) by (intro that [of ?t1 "length (ts_Ops t)"]) simp_all
qed

lemma set_stamp_sel [simp]:
  "ts_Msg (set_stamp t i s) = ts_Msg t" "ts_Attestations (set_stamp t i s) = ts_Attestations t"
  "ts_Ops (set_stamp t i s) = (ts_Ops t)[i := (fst (ts_Ops t ! i), s)]"
  by (simp_all add: set_stamp_def)

lemma linked_set_stamp:
  assumes "linked H t" and "i < length (ts_Ops t)" and "linked H s"
    and "ts_Msg s = ts_Msg (snd (ts_Ops t ! i))"
  shows "linked H (set_stamp t i s)"
proof -
  have "ts_Ops t ! i \<in> set (ts_Ops t)" using assms(2) by simp
  then show ?thesis using assms unfolding linked_iff [of H t] linked_iff [of H "set_stamp t i s"]
    using set_update_subset_insert [of "ts_Ops t" i "(fst (ts_Ops t ! i), s)"] by fastforce
qed

lemma simple_set_stamp:
  assumes "simple t" and "simple s" shows "simple (set_stamp t i s)"
proof -
  have "map fst ((ts_Ops t)[i := (fst (ts_Ops t ! i), s)]) = map fst (ts_Ops t)"
    by (cases "i < length (ts_Ops t)") (simp_all add: map_update list_update_same_conv list_update_beyond)
  then show ?thesis using assms unfolding simple_iff [of t] simple_iff [of "set_stamp t i s"]
    using set_update_subset_insert [of "ts_Ops t" i "(fst (ts_Ops t ! i), s)"] by fastforce
qed

lemma AllAttestations_set_stamp:
  assumes "i < length (ts_Ops t)" and "set (AllAttestations (snd (ts_Ops t ! i))) \<subseteq> set (AllAttestations s)"
  shows "set (AllAttestations (set_stamp t i s)) = set (AllAttestations t) \<union> set (AllAttestations s)"
proof -
  let ?n = "(fst (ts_Ops t ! i), s)"
  have upd: "set ((ts_Ops t)[i := ?n]) \<subseteq> insert ?n (set (ts_Ops t))" by (rule set_update_subset_insert)
  have old: "p = ts_Ops t ! i \<or> p \<in> set ((ts_Ops t)[i := ?n])" if "p \<in> set (ts_Ops t)" for p
    using that by (metis in_set_conv_nth length_list_update nth_list_update_neq)
  have new: "?n \<in> set ((ts_Ops t)[i := ?n])" using assms(1) by (rule set_update_memI)
  have "(\<Union>(x, s) \<in> set ((ts_Ops t)[i := ?n]). set (AllAttestations s)) =
      (\<Union>(x, s) \<in> set (ts_Ops t). set (AllAttestations s)) \<union> set (AllAttestations s)" (is "?L = ?R")
  proof
    show "?L \<subseteq> ?R" using upd by fastforce
    show "?R \<subseteq> ?L"
    proof
      fix a assume "a \<in> ?R"
      then consider "a \<in> set (AllAttestations s)" | p where "p \<in> set (ts_Ops t)" "a \<in> set (AllAttestations (snd p))"
        by auto
      then show "a \<in> ?L" using new old assms(2) by cases fastforce+
    qed
  qed
  then show ?thesis by (auto simp: AllAttestations_set [of t] AllAttestations_set [of "set_stamp t i s"])
qed


lemma Merge_other:
  "Merge H t u =
     (if ts_Msg t \<noteq> ts_Msg u then (t, Err (ErrorString ''can't merge timestamps for different messages''))
      else merge_ops H (merge_atts t (ts_Attestations u)) (ts_Ops u))"
  by (cases u) (simp add: Merge.simps)

text \<open>What a merge of \<open>t\<close> with a timestamp holding the attestations \<open>A\<close> returns.\<close>

definition merged :: "hashes \<Rightarrow> Timestamp \<Rightarrow> (bytes \<times> attestation) set \<Rightarrow> Timestamp \<Rightarrow> bool" where
  "merged H t A r \<longleftrightarrow> linked H r \<and> ts_Msg r = ts_Msg t \<and>
     set (AllAttestations r) = set (AllAttestations t) \<union> A \<and> (simple t \<longrightarrow> simple r)"

lemma merge_ops_step:
  assumes t: "linked H t" and x: "op_ok x" "op_Apply H x (ts_Msg t) = Ok (ts_Msg s)"
    and IH: "\<And>c. linked H c \<Longrightarrow> ts_Msg c = ts_Msg s \<Longrightarrow>
      \<exists>r. Merge H c s = (r, Ok ()) \<and> merged H c (set (AllAttestations s)) r"
  obtains t2 where "merge_ops H t ((x, s) # ops) = merge_ops H t2 ops"
    and "merged H t (set (AllAttestations s)) t2"
proof -
  obtain t1 i where slot: "op_slot H t x = Ok (t1, i)" and t1: "linked H t1" "ts_Msg t1 = ts_Msg t"
    and i: "i < length (ts_Ops t1)" and c: "ts_Msg (snd (ts_Ops t1 ! i)) = ts_Msg s"
      "linked H (snd (ts_Ops t1 ! i))"
    and simple: "simple t \<Longrightarrow> simple t1" and all: "set (AllAttestations t1) = set (AllAttestations t)"
    using op_slot_linked [OF t x] by metis
  let ?c = "snd (ts_Ops t1 ! i)"
  obtain r where r: "Merge H ?c s = (r, Ok ())" and m: "merged H ?c (set (AllAttestations s)) r"
    using IH [OF c(2,1)] by blast
  have ci: "ts_Ops t1 ! i \<in> set (ts_Ops t1)" using i by simp
  have sub: "set (AllAttestations ?c) \<subseteq> set (AllAttestations t1)"
    using ci by (fastforce simp: AllAttestations_set [of t1])
  have "simple ?c" if "simple t" using ci simple [OF that] by (fastforce simp: simple_iff [of t1])
  then have "merged H t (set (AllAttestations s)) (set_stamp t1 i r)"
    using m t1 i c sub all simple
    by (auto simp: merged_def AllAttestations_set_stamp intro!: linked_set_stamp simple_set_stamp)
  moreover have "merge_ops H t ((x, s) # ops) = merge_ops H (set_stamp t1 i r) ops"
    by (simp add: merge_ops_Cons slot r)
  ultimately show ?thesis using that by blast
qed

lemma merged_trans:
  "merged H t A r \<Longrightarrow> merged H r B q \<Longrightarrow> merged H t (A \<union> B) q"
  by (auto simp: merged_def)

lemma merge_ops_Ok:
  assumes "\<And>x s c. (x, s) \<in> set ops \<Longrightarrow> linked H c \<Longrightarrow> ts_Msg c = ts_Msg s \<Longrightarrow>
      \<exists>r. Merge H c s = (r, Ok ()) \<and> merged H c (set (AllAttestations s)) r"
    and "\<And>x s. (x, s) \<in> set ops \<Longrightarrow> op_ok x \<and> op_Apply H x (ts_Msg t) = Ok (ts_Msg s)"
    and "linked H t"
  shows "\<exists>r. merge_ops H t ops = (r, Ok ()) \<and> merged H t (\<Union>(x, s) \<in> set ops. set (AllAttestations s)) r"
  using assms
proof (induction ops arbitrary: t)
  case Nil
  then show ?case by (simp add: merge_ops.simps merged_def)
next
  case (Cons p ops)
  obtain x s where p: "p = (x, s)" by (cases p)
  obtain t2 where eq: "merge_ops H t (p # ops) = merge_ops H t2 ops"
    and t2: "merged H t (set (AllAttestations s)) t2"
    unfolding p
  proof (rule merge_ops_step [OF Cons.prems(3)])
    show "op_ok x" "op_Apply H x (ts_Msg t) = Ok (ts_Msg s)" using Cons.prems(2) p by auto
    show "\<exists>r. Merge H c s = (r, Ok ()) \<and> merged H c (set (AllAttestations s)) r"
      if "linked H c" "ts_Msg c = ts_Msg s" for c using that Cons.prems(1) [of x s c] p by simp
  qed
  have "\<exists>r. merge_ops H t2 ops = (r, Ok ()) \<and> merged H t2 (\<Union>(x, s) \<in> set ops. set (AllAttestations s)) r"
  proof (rule Cons.IH)
    show "linked H t2" using t2 by (simp add: merged_def)
    show "op_ok y \<and> op_Apply H y (ts_Msg t2) = Ok (ts_Msg u)" if "(y, u) \<in> set ops" for y u
      using that Cons.prems(2) [of y u] t2 by (simp add: merged_def)
  qed (use Cons.prems(1) in auto)
  then obtain r where r: "merge_ops H t2 ops = (r, Ok ())"
    and m: "merged H t2 (\<Union>(x, s) \<in> set ops. set (AllAttestations s)) r" by blast
  from merged_trans [OF t2 m] eq r show ?case by (simp add: p)
qed

lemma merge_atts_merged:
  assumes "linked H t" and "\<forall>a \<in> set as. att_ok a"
  shows "merged H t ((\<lambda>a. (ts_Msg t, a)) ` set as) (merge_atts t as)"
  using assms distinct_merge_atts [of t "as"]
  by (auto simp: merged_def linked_iff [of H t] linked_iff [of H "merge_atts t as"]
      simple_iff [of t] simple_iff [of "merge_atts t as"]
      AllAttestations_set [of t] AllAttestations_set [of "merge_atts t as"])

lemma Merge_Ok:
  "linked H u \<Longrightarrow> linked H t \<Longrightarrow> ts_Msg t = ts_Msg u \<Longrightarrow>
   \<exists>r. Merge H t u = (r, Ok ()) \<and> merged H t (set (AllAttestations u)) r"
proof (induction u arbitrary: t rule: Timestamp_induct)
  case (Timestamp m atts ops)
  have att: "\<forall>a \<in> set atts. att_ok a" using Timestamp.prems(1) by (simp add: list_all_iff)
  note t1 = merge_atts_merged [OF Timestamp.prems(2) att]
  have "\<exists>r. merge_ops H (merge_atts t atts) ops = (r, Ok ()) \<and>
      merged H (merge_atts t atts) (\<Union>(x, s) \<in> set ops. set (AllAttestations s)) r"
  proof (rule merge_ops_Ok)
    show "\<exists>r. Merge H c s = (r, Ok ()) \<and> merged H c (set (AllAttestations s)) r"
      if "(x, s) \<in> set ops" "linked H c" "ts_Msg c = ts_Msg s" for x s c
      using Timestamp.IH [OF that(1) _ that(2,3)] linked_child [OF Timestamp.prems(1) that(1)] by blast
    show "op_ok x \<and> op_Apply H x (ts_Msg (merge_atts t atts)) = Ok (ts_Msg s)" if "(x, s) \<in> set ops" for x s
      using linked_child [OF Timestamp.prems(1) that] Timestamp.prems(3) by simp
    show "linked H (merge_atts t atts)" using t1 by (simp add: merged_def)
  qed
  then obtain r where "merge_ops H (merge_atts t atts) ops = (r, Ok ())"
    and "merged H (merge_atts t atts) (\<Union>(x, s) \<in> set ops. set (AllAttestations s)) r" by blast
  with merged_trans [OF t1 this(2)] Timestamp.prems(3) show ?case
    by (simp add: Merge_other AllAttestations_set [of "Timestamp m atts ops"] del: AllAttestations.simps)
qed


text \<open>Merging keeps timestamps encodable: no empty node, depth within the bound of both arguments.\<close>

definition kids :: "nat \<Rightarrow> Timestamp \<Rightarrow> bool" where
  "kids n t \<longleftrightarrow> (\<forall>(x, s) \<in> set (ts_Ops t). full s \<and> ts_depth s \<le> n)"

lemma full_depth_iff:
  "full t \<and> ts_depth t \<le> Suc n \<longleftrightarrow> (ts_Attestations t \<noteq> [] \<or> ts_Ops t \<noteq> []) \<and> kids n t"
  by (cases t) (auto simp: kids_def list_all_iff foldr_max_le)

lemma ts_depth_Suc: "ts_depth t \<le> n \<Longrightarrow> \<exists>k. n = Suc k"
  by (cases t; cases n) simp_all

lemma AddOp_OkD: "AddOp H t x = Ok (t1, i) \<Longrightarrow> find_op (ts_Ops t) x = None \<Longrightarrow>
    \<exists>r. t1 = add_op (x, Timestamp r [] []) t \<and> i = length (ts_Ops t)"
  by (auto simp: AddOp_def andThen_eq_Ok New_def add_op_def split: if_splits)

lemma op_slot_kids:
  assumes "op_slot H t x = Ok (t1, i)" and "kids (Suc n) t"
  shows "kids n (snd (ts_Ops t1 ! i))" and "ts_Attestations t1 = ts_Attestations t"
    and "i < length (ts_Ops t1)" and "\<And>s. full s \<Longrightarrow> ts_depth s \<le> Suc n \<Longrightarrow> kids (Suc n) (set_stamp t1 i s)"
proof -
  have "kids n (snd (ts_Ops t1 ! i)) \<and> ts_Attestations t1 = ts_Attestations t \<and> i < length (ts_Ops t1) \<and>
    (\<forall>s. full s \<and> ts_depth s \<le> Suc n \<longrightarrow> kids (Suc n) (set_stamp t1 i s))"
  proof (cases "find_op (ts_Ops t) x")
    case None
    with assms(1) obtain r where "t1 = add_op (x, Timestamp r [] []) t" "i = length (ts_Ops t)"
      by (auto simp: op_slot_def dest: AddOp_OkD)
    with assms(2) show ?thesis by (auto simp: add_op_def kids_def set_stamp_def)
  next
    case (Some j)
    with assms(1) have "t1 = t" "i = j" by (simp_all add: op_slot_def)
    moreover have j: "j < length (ts_Ops t)" using find_op_Some [OF Some] by simp
    moreover have "full (snd (ts_Ops t ! j)) \<and> ts_depth (snd (ts_Ops t ! j)) \<le> Suc n"
      using assms(2) nth_mem [OF j] by (cases "ts_Ops t ! j") (auto simp: kids_def)
    then have "kids n (snd (ts_Ops t ! j))" by (simp only: full_depth_iff)
    moreover have "kids (Suc n) (set_stamp t j s)" if "full s" "ts_depth s \<le> Suc n" for s
      using assms(2) that set_update_subset_insert [of "ts_Ops t" j "(fst (ts_Ops t ! j), s)"]
      by (fastforce simp: kids_def)
    ultimately show ?thesis using \<open>kids n (snd (ts_Ops t ! j))\<close> by simp
  qed
  then show "kids n (snd (ts_Ops t1 ! i))" "ts_Attestations t1 = ts_Attestations t" "i < length (ts_Ops t1)"
    "\<And>s. full s \<Longrightarrow> ts_depth s \<le> Suc n \<Longrightarrow> kids (Suc n) (set_stamp t1 i s)" by blast+
qed

lemma merge_ops_full:
  assumes "\<And>x s c r. (x, s) \<in> set ops \<Longrightarrow> Merge H c s = (r, Ok ()) \<Longrightarrow> kids n c \<Longrightarrow>
      full r \<and> ts_depth r \<le> Suc n"
    and "merge_ops H t ops = (r, Ok ())" and "kids (Suc n) t"
  shows "kids (Suc n) r \<and> ts_Attestations r = ts_Attestations t \<and> (ops \<noteq> [] \<or> ts_Ops t \<noteq> [] \<longrightarrow> ts_Ops r \<noteq> [])"
  using assms
proof (induction ops arbitrary: t)
  case Nil
  then show ?case by (simp add: merge_ops.simps)
next
  case (Cons p ops)
  obtain x s where p: "p = (x, s)" by (cases p)
  from Cons.prems(2) obtain t1 i c where slot: "op_slot H t x = Ok (t1, i)"
    and c: "Merge H (snd (ts_Ops t1 ! i)) s = (c, Ok ())"
    and r: "merge_ops H (set_stamp t1 i c) ops = (r, Ok ())"
    by (auto simp: p merge_ops_Cons split: result.splits prod.splits)
  note k = op_slot_kids [OF slot Cons.prems(3)]
  have "full c \<and> ts_depth c \<le> Suc n" using Cons.prems(1) [OF _ c k(1), of x] p by simp
  then have "kids (Suc n) (set_stamp t1 i c)" using k(4) by blast
  with Cons.IH [OF _ r] Cons.prems(1) k(2,3) show ?case by fastforce
qed

lemma Merge_full:
  "full u \<Longrightarrow> ts_depth u \<le> Suc n \<Longrightarrow> kids n t \<Longrightarrow> Merge H t u = (r, Ok ()) \<Longrightarrow>
   full r \<and> ts_depth r \<le> Suc n"
proof (induction u arbitrary: t r n rule: Timestamp_induct)
  case (Timestamp m atts ops)
  from Timestamp.prems(1,2) have u: "kids n (Timestamp m atts ops)" and ne: "atts \<noteq> [] \<or> ops \<noteq> []"
    using full_depth_iff [of "Timestamp m atts ops" n] by auto
  have t1: "kids n (merge_atts t atts)" using Timestamp.prems(3) by (simp add: kids_def)
  from Timestamp.prems(4) have r: "merge_ops H (merge_atts t atts) ops = (r, Ok ())"
    by (simp add: Merge_other split: if_splits)
  have *: "kids n r \<and> ts_Attestations r = ts_Attestations (merge_atts t atts) \<and>
      (ops \<noteq> [] \<or> ts_Ops t \<noteq> [] \<longrightarrow> ts_Ops r \<noteq> [])"
  proof (cases "ops = []")
    case True
    then show ?thesis using r t1 by (auto simp: merge_ops.simps)
  next
    case False
    then obtain x s where "(x, s) \<in> set ops" by (cases ops) auto
    then obtain k where n: "n = Suc k" using u ts_depth_Suc by (fastforce simp: kids_def)
    have "full r \<and> ts_depth r \<le> Suc k" if "(x, s) \<in> set ops" "Merge H c s = (r, Ok ())" "kids k c" for x s c r
      using Timestamp.IH [OF that(1) _ _ that(3,2)] u that(1) n by (auto simp: kids_def)
    from merge_ops_full [OF this r] t1 n show ?thesis by simp
  qed
  have "set (ts_Attestations (merge_atts t atts)) = set (ts_Attestations t) \<union> set atts" by simp
  then have "atts \<noteq> [] \<longrightarrow> ts_Attestations (merge_atts t atts) \<noteq> []" by (metis Un_empty set_empty)
  with * ne have "ts_Attestations r \<noteq> [] \<or> ts_Ops r \<noteq> []" by auto
  with * full_depth_iff show ?case by blast
qed

text \<open>Merging a timestamp into itself changes nothing.\<close>

lemma merge_atts_subset: "set as \<subseteq> set (ts_Attestations t) \<Longrightarrow> merge_atts t as = t"
  by (induction t as rule: merge_atts.induct) (auto simp: hasAttestation_def list_ex_iff)

lemma find_op_distinct:
  "distinct (map fst ops) \<Longrightarrow> (x, s) \<in> set ops \<Longrightarrow> \<exists>i. find_op ops x = Some i \<and> i < length ops \<and> ops ! i = (x, s)"
proof (induction ops x rule: find_op.induct)
  case (2 y u ops x)
  then show ?case by (cases "x = y") (force simp: image_iff)+
qed simp

lemma Merge_self: "simple t \<Longrightarrow> Merge H t t = (t, Ok ())"
proof (induction t rule: Timestamp_induct)
  case (Timestamp m atts ops)
  let ?t = "Timestamp m atts ops"
  have "merge_ops H ?t ps = (?t, Ok ())" if "set ps \<subseteq> set ops" for ps
    using that
  proof (induction ps)
    case Nil
    then show ?case by (simp add: merge_ops.simps)
  next
    case (Cons p ps)
    obtain x s where p: "p = (x, s)" by (cases p)
    then have xs: "(x, s) \<in> set ops" using Cons.prems by simp
    then obtain i where i: "find_op ops x = Some i" "i < length ops" "ops ! i = (x, s)"
      using find_op_distinct Timestamp.prems by (metis simple.simps)
    have "Merge H s s = (s, Ok ())"
      using Timestamp.IH [OF xs] Timestamp.prems xs by (auto simp: list_all_iff)
    moreover have "set_stamp ?t i s = ?t" using i by (simp add: set_stamp_def list_update_same_conv)
    ultimately show ?case using Cons.IH Cons.prems i by (simp add: p merge_ops_Cons op_slot_def)
  qed
  then show ?case by (simp add: Merge_other merge_atts_subset)
qed

section \<open>Equality\<close>

lemma ts_Equal_iff:
  "ts_Equal t u \<longleftrightarrow> ts_Msg t = ts_Msg u \<and> length (ts_Attestations t) = length (ts_Attestations u) \<and>
     length (ts_Ops t) = length (ts_Ops u) \<and> set (ts_Attestations t) \<subseteq> set (ts_Attestations u) \<and>
     (\<forall>(x, s) \<in> set (ts_Ops t). \<exists>i. find_op (ts_Ops u) x = Some i \<and> ts_Equal s (snd (ts_Ops u ! i)))"
proof -
  have "ops_Equal ops u \<longleftrightarrow>
      (\<forall>(x, s) \<in> set ops. \<exists>i. find_op (ts_Ops u) x = Some i \<and> ts_Equal s (snd (ts_Ops u ! i)))" for ops
    by (induction ops) (auto split: option.splits if_splits)
  then show ?thesis by (cases t) (auto simp: list_all_iff hasAttestation_def list_ex_iff)
qed

declare ts_Equal.simps [simp del]

lemma simple_normal [simp]: "simple (normal t) \<longleftrightarrow> simple t"
proof (induction t rule: Timestamp_induct)
  case (Timestamp m atts ops)
  have "distinct (SortAttestations atts) \<longleftrightarrow> distinct atts"
    by (metis mset_SortAttestations mset_eq_imp_distinct_iff)
  moreover have "distinct (map fst (map (apsnd normal) (sort_key fst ops))) \<longleftrightarrow> distinct (map fst ops)"
    by (simp add: o_def mset_eq_imp_distinct_iff [of "map fst (sort_key fst ops)" "map fst ops"])
  ultimately show ?case using Timestamp.IH by (auto simp: normal_Timestamp list_all_iff)
qed

lemma ts_Equal_normal: "simple t \<Longrightarrow> ts_Equal t (normal t)"
proof (induction t rule: Timestamp_induct)
  case (Timestamp m atts ops)
  let ?ns = "map (apsnd normal) (sort_key fst ops)"
  have d: "distinct (map fst ?ns)" using simple_normal [of "Timestamp m atts ops"] Timestamp.prems
    by (simp add: normal_Timestamp)
  have "\<exists>i. find_op ?ns x = Some i \<and> ts_Equal s (snd (?ns ! i))" if xs: "(x, s) \<in> set ops" for x s
  proof -
    have "(x, normal s) \<in> set ?ns" using xs by force
    from find_op_distinct [OF d this] obtain i where "find_op ?ns x = Some i" "?ns ! i = (x, normal s)" by blast
    moreover have "simple s" using Timestamp.prems xs by (auto simp: list_all_iff)
    ultimately show ?thesis using Timestamp.IH [OF xs] by simp
  qed
  then show ?case by (auto simp: ts_Equal_iff [of "Timestamp m atts ops"] normal_Timestamp)
qed

lemma AllAttestations_normal: "set (AllAttestations (normal t)) = set (AllAttestations t)"
  by (induction t rule: Timestamp_induct) (fastforce simp: normal_Timestamp)

lemma ts_Equal_AllAttestations:
  "simple t \<Longrightarrow> ts_Equal t u \<Longrightarrow> set (AllAttestations t) = set (AllAttestations u)"
proof (induction t arbitrary: u rule: Timestamp_induct)
  case (Timestamp m atts ops)
  obtain m' atts' ops' where u: "u = Timestamp m' atts' ops'" by (cases u)
  from Timestamp.prems(2) have eq: "m = m'" "length atts = length atts'" "length ops = length ops'"
      "set atts \<subseteq> set atts'"
    and ops: "\<And>x s. (x, s) \<in> set ops \<Longrightarrow> \<exists>i. find_op ops' x = Some i \<and> ts_Equal s (snd (ops' ! i))"
    unfolding ts_Equal_iff [of "Timestamp m atts ops"] u by auto
  have atts: "set atts = set atts'"
    using subset_same_length [of atts atts'] eq Timestamp.prems(1) by simp
  have "x \<in> fst ` set ops'" if "(x, s) \<in> set ops" for x s
    using ops [OF that] find_op_None [of ops' x] by force
  then have "set (map fst ops) \<subseteq> set (map fst ops')" by force
  from subset_same_length [OF this] Timestamp.prems(1) eq(3)
  have fsts: "fst ` set ops = fst ` set ops'" and d': "distinct (map fst ops')" by simp_all
  have pair: "set (AllAttestations s) = set (AllAttestations s')"
    if xs: "(x, s) \<in> set ops" and xs': "(x, s') \<in> set ops'" for x s s'
  proof -
    obtain i where i: "find_op ops' x = Some i" "ts_Equal s (snd (ops' ! i))" using ops [OF xs] by blast
    obtain j where "find_op ops' x = Some j" "ops' ! j = (x, s')" using find_op_distinct [OF d' xs'] by blast
    with i have "ts_Equal s s'" by simp
    moreover have "simple s" using Timestamp.prems(1) xs by (auto simp: list_all_iff)
    ultimately show ?thesis using Timestamp.IH [OF xs] by simp
  qed
  have "(\<Union>(x, s) \<in> set ops. set (AllAttestations s)) = (\<Union>(x, s) \<in> set ops'. set (AllAttestations s))"
    (is "?L = ?R")
  proof
    have "set (AllAttestations s) \<subseteq> ?R" if xs: "(x, s) \<in> set ops" for x s
    proof -
      have "x \<in> fst ` set ops'" using xs fsts by force
      then obtain s' where "(x, s') \<in> set ops'" by auto
      with pair [OF xs this] show ?thesis by auto
    qed
    then show "?L \<subseteq> ?R" by auto
    have "set (AllAttestations s') \<subseteq> ?L" if xs: "(x, s') \<in> set ops'" for x s'
    proof -
      have "x \<in> fst ` set ops" using xs fsts by force
      then obtain s where "(x, s) \<in> set ops" by auto
      with pair [OF this xs] show ?thesis by auto
    qed
    then show "?R \<subseteq> ?L" by auto
  qed
  with atts eq(1) show ?case
    by (simp add: u AllAttestations_set [of "Timestamp _ _ _"] del: AllAttestations.simps)
qed

section \<open>The contract of merging\<close>

text \<open>
  What the callers of \<open>Merge\<close> rely on: a merge of good values of one kind succeeds, is good again and
  holds the content of both. A caller that merges a list of them then holds the content of all.
\<close>

fun merge_list :: "('t \<Rightarrow> 't \<Rightarrow> 't \<times> unit result) \<Rightarrow> 't \<Rightarrow> 't list \<Rightarrow> 't \<times> unit result" where
  "merge_list merge t [] = (t, Ok ())"
| "merge_list merge t (u # us) =
     (case merge t u of (r, Ok _) \<Rightarrow> merge_list merge r us | (r, Err e) \<Rightarrow> (r, Err e)
      | (r, Panic p) \<Rightarrow> (r, Panic p))"

locale merging =
  fixes merge :: "'t \<Rightarrow> 't \<Rightarrow> 't \<times> unit result" and good :: "'t \<Rightarrow> bool" and content :: "'t \<Rightarrow> 'c set"
  assumes merge_good: "good t \<Longrightarrow> good u \<Longrightarrow>
    \<exists>r. merge t u = (r, Ok ()) \<and> good r \<and> content r = content t \<union> content u"
begin

lemma merge_OkD:
  "good t \<Longrightarrow> good u \<Longrightarrow> merge t u = (r, x) \<Longrightarrow> x = Ok () \<and> good r \<and> content r = content t \<union> content u"
  using merge_good [of t u] by auto

lemma merge_list_good:
  "good t \<Longrightarrow> \<forall>u \<in> set us. good u \<Longrightarrow>
   \<exists>r. merge_list merge t us = (r, Ok ()) \<and> good r \<and> content r = content t \<union> (\<Union>u \<in> set us. content u)"
proof (induction us arbitrary: t)
  case (Cons u us)
  obtain r where r: "merge t u = (r, Ok ())" "good r" "content r = content t \<union> content u"
    using merge_good [of t u] Cons.prems by auto
  from Cons.IH [OF r(2)] Cons.prems(2) r(1,3) show ?case by (auto simp: Un_assoc)
qed simp

end

text \<open>
  Timestamps on one message that can be encoded, with the attested messages as their content; and
  those that are linked only, as a fresh timestamp without attestations is.
\<close>

definition stamp_ok :: "hashes \<Rightarrow> bytes \<Rightarrow> Timestamp \<Rightarrow> bool" where
  "stamp_ok H m t \<longleftrightarrow> linked H t \<and> full t \<and> ts_depth t \<le> recursionLimit \<and> ts_Msg t = m"

lemma ts_DeserializeBytes_ok: "ts_DeserializeBytes H bs m = Ok t \<Longrightarrow> stamp_ok H m t"
  by (auto simp: ts_DeserializeBytes_def andThen_eq_Ok stamp_ok_def dest: ts_Deserialize_OkD(1))

lemma stamp_ok_codec:
  assumes "stamp_ok H m t"
  shows "ts_SerializeBytes t = Ok (ts_enc t)" and "ts_DeserializeBytes H (ts_enc t) m = Ok (normal t)"
    and "stamp_ok H m (normal t)"
  using assms ts_Deserialize_enc [of H t recursionLimit "[]"]
  by (auto simp: stamp_ok_def ts_SerializeBytes_def ts_DeserializeBytes_def NewWriteContext_def NewContext_def
      Bytes_def ts_Serialize_enc(1))

interpretation linked_merge: merging "Merge H" "\<lambda>t. linked H t \<and> ts_Msg t = m" "\<lambda>t. set (AllAttestations t)"
  for H m
proof
  fix t u
  assume "linked H t \<and> ts_Msg t = m" "linked H u \<and> ts_Msg u = m"
  then show "\<exists>r. Merge H t u = (r, Ok ()) \<and> (linked H r \<and> ts_Msg r = m) \<and>
      set (AllAttestations r) = set (AllAttestations t) \<union> set (AllAttestations u)"
    using Merge_Ok [of H u t] by (auto simp: merged_def)
qed

lemma Merge_stamp_ok:
  assumes "stamp_ok H m u" and "linked H t" and "ts_Msg t = m"
    and "t = Timestamp m [] [] \<or> full t \<and> ts_depth t \<le> recursionLimit"
  shows "\<exists>r. Merge H t u = (r, Ok ()) \<and> stamp_ok H m r \<and>
    set (AllAttestations r) = set (AllAttestations t) \<union> set (AllAttestations u)"
proof -
  obtain r where r: "Merge H t u = (r, Ok ())" "linked H r" "ts_Msg r = m"
      "set (AllAttestations r) = set (AllAttestations t) \<union> set (AllAttestations u)"
    using linked_merge.merge_good [of H t m u] assms by (auto simp: stamp_ok_def)
  have rl: "recursionLimit = Suc 255" by (simp add: recursionLimit_def)
  have "kids 255 t" using assms(4) full_depth_iff [of t 255] by (auto simp: rl kids_def)
  then have "full r \<and> ts_depth r \<le> recursionLimit"
    using Merge_full [OF _ _ _ r(1), of 255] assms(1) by (simp add: stamp_ok_def rl)
  with r show ?thesis by (simp add: stamp_ok_def)
qed

interpretation stamp_merge: merging "Merge H" "stamp_ok H m" "\<lambda>t. set (AllAttestations t)"
  for H m
proof
  fix t u assume a: "stamp_ok H m t" "stamp_ok H m u"
  then show "\<exists>r. Merge H t u = (r, Ok ()) \<and> stamp_ok H m r \<and>
      set (AllAttestations r) = set (AllAttestations t) \<union> set (AllAttestations u)"
    using Merge_stamp_ok [OF a(2), of t] by (auto simp: stamp_ok_def)
qed

section \<open>Properties\<close>

text \<open>
  C5. Merging two linked timestamps on the same message succeeds; the result is linked, is on the
  same message and holds exactly the attestations (with the messages they attest) of both. When both
  are encodable the result is encodable, and operations stay without duplicates.
\<close>

theorem Merge_correct:
  assumes "linked H t" and "linked H u" and "ts_Msg t = ts_Msg u"
  shows "\<exists>r. Merge H t u = (r, Ok ()) \<and> linked H r \<and> ts_Msg r = ts_Msg t \<and>
    set (AllAttestations r) = set (AllAttestations t) \<union> set (AllAttestations u) \<and>
    (simple t \<longrightarrow> simple r) \<and>
    (stamp_ok H (ts_Msg t) t \<and> stamp_ok H (ts_Msg t) u \<longrightarrow> stamp_ok H (ts_Msg t) r)"
proof -
  obtain r where "Merge H t u = (r, Ok ())" "merged H t (set (AllAttestations u)) r"
    using Merge_Ok [OF assms(2,1,3)] by blast
  then show ?thesis
    using stamp_merge.merge_OkD [of H "ts_Msg t" t u r "Ok ()"] by (auto simp: merged_def)
qed

theorem Merge_correct_witness:
  "\<exists>r. Merge const_hashes sample_ts (Timestamp [1] [PendingAttestation ''b''] []) = (r, Ok ()) \<and>
     set (AllAttestations r) = set (AllAttestations sample_ts) \<union> {([1], PendingAttestation ''b'')}"
proof -
  have "linked const_hashes (Timestamp [1] [PendingAttestation ''b''] [])" by code_simp
  moreover have "ts_Msg sample_ts = ts_Msg (Timestamp [1] [PendingAttestation ''b''] [])"
    by (simp add: sample_ts_def)
  ultimately show ?thesis using Merge_correct [OF sample_ts_ok(1)] by fastforce
qed

text \<open>
  A merge of timestamps on different messages is refused and leaves the receiver as it was, and
  merging a timestamp into itself changes nothing.
\<close>

theorem Merge_refuses_and_idempotent:
  "(ts_Msg t \<noteq> ts_Msg u \<longrightarrow>
      Merge H t u = (t, Err (ErrorString ''can't merge timestamps for different messages''))) \<and>
   (simple t \<longrightarrow> Merge H t t = (t, Ok ()))"
  using Merge_self by (simp add: Merge_other [of H t u])

text \<open>
  \<open>Equal\<close> accepts a timestamp without duplicate operations and attestations and what decoding its
  encoding returns, and whatever it accepts carries the same attestations on the same messages.
\<close>

theorem ts_Equal_correct:
  assumes "simple t"
  shows "ts_Equal t (normal t) \<and> (ts_Equal t u \<longrightarrow> set (AllAttestations t) = set (AllAttestations u))"
  using ts_Equal_normal ts_Equal_AllAttestations assms by blast+

end
