(* ===== verification/Verify.thy ===== *)
theory Verify
  imports Timestamp_Merge
begin

text \<open>
  The verifier of \<^verbatim>\<open>internal/verify/verify.go\<close> and \<^verbatim>\<open>internal/verify/parse.go\<close>. The calendar
  (\<open>Upgrader\<close>) and the source of block headers are parameters: functions of the number of the call
  and of its arguments, so that two calls with the same arguments may have different answers. A proof
  is a tree of nodes; the pointer that \<open>findNode\<close> returns is the path to the node, and the update
  through it replaces the node there. A \<open>time.Time\<close> of a block is the number of seconds since 1970.
\<close>

section \<open>Times\<close>

text \<open>\<open>time.Time.UTC().Format(time.RFC3339)\<close>: the proleptic Gregorian date of a day number.\<close>

definition civil_from_days :: "int \<Rightarrow> int \<times> int \<times> int" where
  "civil_from_days days =
     (let z = days + 719468;
          era = z div 146097;
          doe = z mod 146097;
          yoe = (doe - doe div 1460 + doe div 36524 - doe div 146096) div 365;
          doy = doe - (365 * yoe + yoe div 4 - yoe div 100);
          mp = (5 * doy + 2) div 153;
          d = doy - (153 * mp + 2) div 5 + 1;
          m = (if mp < 10 then mp + 3 else mp - 9);
          y = yoe + era * 400 + (if m \<le> 2 then 1 else 0)
      in (y, m, d))"

definition pad :: "nat \<Rightarrow> int \<Rightarrow> string" where
  "pad n i = (let s = dec_int i in replicate (n - length s) (CHR ''0'') @ s)"

definition format_RFC3339 :: "int \<Rightarrow> string" where
  "format_RFC3339 secs =
     (let (y, m, d) = civil_from_days (secs div 86400); s = secs mod 86400
      in pad 4 y @ ''-'' @ pad 2 m @ ''-'' @ pad 2 d @ ''T'' @ pad 2 (s div 3600) @ '':'' @
         pad 2 (s mod 3600 div 60) @ '':'' @ pad 2 (s mod 60) @ ''Z'')"

section \<open>Headers, options and results\<close>

record BlockHeader =
  bh_Height :: u64
  bh_Hash :: string
  bh_MerkleRoot :: bytes
  bh_Time :: int

type_synonym Upgrader = "nat \<Rightarrow> string \<Rightarrow> bytes \<Rightarrow> Timestamp result"
type_synonym HeaderSource = "nat \<Rightarrow> u64 \<Rightarrow> BlockHeader result"

record Options =
  o_Upgrader :: "Upgrader option"
  o_Headers :: "HeaderSource option"

definition StatusConfirmed :: string where "StatusConfirmed = ''confirmed''"
definition StatusPending :: string where "StatusPending = ''pending''"
definition StatusInvalid :: string where "StatusInvalid = ''invalid''"
definition StatusUnverified :: string where "StatusUnverified = ''unverified''"
definition StatusUnknown :: string where "StatusUnknown = ''unknown''"

record AttestationInfo =
  ai_Kind :: string
  ai_Detail :: string
  ai_Status :: string

record Result =
  r_Valid :: bool
  r_Status :: string
  r_Reason :: string
  r_VerifiedAt :: "int option"
  r_BlockHeight :: u64
  r_BlockHash :: string
  r_Attestations :: "AttestationInfo list"

text \<open>The zero value of the struct.\<close>

definition zero_Result :: Result where
  "zero_Result = \<lparr>r_Valid = False, r_Status = '''', r_Reason = '''', r_VerifiedAt = None,
     r_BlockHeight = 0, r_BlockHash = '''', r_Attestations = []\<rparr>"

definition VerifyDigest :: "Timestamp \<Rightarrow> bytes \<Rightarrow> unit result" where
  "VerifyDigest proof digest =
     (if ts_Msg proof \<noteq> digest then Err (ErrorString ''proof root does not match digest'') else Ok ())"

record bitcoinVerifyInfo = AttestationInfo +
  bv_blockTime :: int
  bv_blockHash :: string

text \<open>
  \<open>verifyBitcoin\<close>, for the \<open>k\<close>-th attestation of the proof. A panic of the header source passes
  through.
\<close>

definition verifyBitcoin :: "HeaderSource option \<Rightarrow> nat \<Rightarrow> u64 \<Rightarrow> bytes \<Rightarrow> bitcoinVerifyInfo result" where
  "verifyBitcoin headers k height msg =
     (let detail = ''height='' @ dec_nat (unat height);
          info = (\<lambda>d st. Ok \<lparr>ai_Kind = ''bitcoin'', ai_Detail = d, ai_Status = st, bv_blockTime = 0,
                              bv_blockHash = ''''\<rparr>)
      in case headers of
           None \<Rightarrow> info detail StatusUnverified
         | Some src \<Rightarrow>
             if length msg \<noteq> 32 then info (detail @ ''; attested message is not 32 bytes'') StatusInvalid
             else
               (case src k height of
                  Panic p \<Rightarrow> Panic p
                | Err e \<Rightarrow> info (detail @ ''; header fetch failed: '' @ error_string e) StatusUnverified
                | Ok header \<Rightarrow>
                    if msg \<noteq> bh_MerkleRoot header
                    then info (detail @ ''; merkle root mismatch'') StatusInvalid
                    else Ok \<lparr>ai_Kind = ''bitcoin'',
                             ai_Detail = ''height='' @ dec_nat (unat height) @ '' block='' @ bh_Hash header @
                               '' time='' @ format_RFC3339 (bh_Time header),
                             ai_Status = StatusConfirmed, bv_blockTime = bh_Time header,
                             bv_blockHash = bh_Hash header\<rparr>))"

section \<open>Upgrading\<close>

text \<open>\<open>findNode\<close>: the path to the first node, in depth-first order, on the message.\<close>

fun findNode :: "Timestamp \<Rightarrow> bytes \<Rightarrow> nat list option"
  and findNode_ops :: "(op \<times> Timestamp) list \<Rightarrow> bytes \<Rightarrow> nat \<Rightarrow> nat list option"
where
  "findNode (Timestamp m atts ops) msg = (if m = msg then Some [] else findNode_ops ops msg 0)"
| "findNode_ops [] msg i = None"
| "findNode_ops ((x, s) # ops) msg i =
     (case findNode s msg of Some p \<Rightarrow> Some (i # p) | None \<Rightarrow> findNode_ops ops msg (Suc i))"

fun node_at :: "Timestamp \<Rightarrow> nat list \<Rightarrow> Timestamp" where
  "node_at t [] = t"
| "node_at t (i # p) = node_at (snd (ts_Ops t ! i)) p"

fun replace_at :: "Timestamp \<Rightarrow> nat list \<Rightarrow> Timestamp \<Rightarrow> Timestamp" where
  "replace_at t [] s = s"
| "replace_at t (i # p) s = set_stamp t i (replace_at (snd (ts_Ops t ! i)) p s)"

text \<open>The loop of \<open>Upgrade\<close> over the attestations that the proof had at the start.\<close>

fun Upgrade_loop :: "hashes \<Rightarrow> Upgrader \<Rightarrow> nat \<Rightarrow> (bytes \<times> attestation) list \<Rightarrow> Timestamp \<Rightarrow> Timestamp \<times> unit result"
where
  "Upgrade_loop H up k [] ts = (ts, Ok ())"
| "Upgrade_loop H up k ((msg, att) # items) ts =
     (case att of
        PendingAttestation uri \<Rightarrow>
          (case up k uri msg of
             Panic p \<Rightarrow> (ts, Panic p)
           | Err _ \<Rightarrow> Upgrade_loop H up (Suc k) items ts
           | Ok upgraded \<Rightarrow>
               (case findNode ts msg of
                  None \<Rightarrow> Upgrade_loop H up (Suc k) items ts
                | Some p \<Rightarrow>
                    (case Merge H (node_at ts p) upgraded of
                       (sub, Ok _) \<Rightarrow> Upgrade_loop H up (Suc k) items (replace_at ts p sub)
                     | (sub, Err e) \<Rightarrow> (replace_at ts p sub, Err e)
                     | (sub, Panic q) \<Rightarrow> (replace_at ts p sub, Panic q))))
      | _ \<Rightarrow> Upgrade_loop H up (Suc k) items ts)"

definition Upgrade :: "hashes \<Rightarrow> Upgrader \<Rightarrow> Timestamp \<Rightarrow> Timestamp \<times> bool result" where
  "Upgrade H up ts =
     (let before = length (AllAttestations ts);
          (ts', r) = Upgrade_loop H up 0 (AllAttestations ts) ts
      in (ts', andThen r (\<lambda>_. Ok (length (AllAttestations ts') > before))))"

definition upgradePending :: "hashes \<Rightarrow> Upgrader \<Rightarrow> Timestamp \<Rightarrow> Timestamp \<times> unit result" where
  "upgradePending H up ts = (case Upgrade H up ts of (ts', r) \<Rightarrow> (ts', andThen r (\<lambda>_. Ok ())))"

definition IsComplete :: "Timestamp \<Rightarrow> bool" where
  "IsComplete ts \<longleftrightarrow> list_ex (\<lambda>(msg, att). case att of BitcoinBlockHeaderAttestation _ \<Rightarrow> True | _ \<Rightarrow> False)
     (AllAttestations ts)"

section \<open>Verification\<close>

text \<open>The variables of the loop of \<open>VerifyProof\<close>.\<close>

record loop_state =
  ls_result :: Result
  ls_sawPending :: bool
  ls_sawInvalid :: bool

definition add_info :: "AttestationInfo \<Rightarrow> Result \<Rightarrow> Result" where
  "add_info i r = r\<lparr>r_Attestations := r_Attestations r @ [i]\<rparr>"

definition verify_item :: "HeaderSource option \<Rightarrow> nat \<Rightarrow> bytes \<times> attestation \<Rightarrow> loop_state \<Rightarrow> loop_state result"
where
  "verify_item headers k item st =
     (case item of (msg, att) \<Rightarrow>
        (case att of
           PendingAttestation uri \<Rightarrow>
             Ok (st\<lparr>ls_sawPending := True,
                    ls_result := add_info \<lparr>ai_Kind = ''pending'', ai_Detail = uri, ai_Status = StatusPending\<rparr>
                                   (ls_result st)\<rparr>)
         | BitcoinBlockHeaderAttestation height \<Rightarrow>
             andThen (verifyBitcoin headers k height msg) (\<lambda>info.
               let r = add_info (AttestationInfo.truncate info) (ls_result st) in
               if ai_Status info = StatusConfirmed then
                 (if r_VerifiedAt r = None \<or> bv_blockTime info < the (r_VerifiedAt r) then
                    Ok (st\<lparr>ls_result := r\<lparr>r_VerifiedAt := Some (bv_blockTime info), r_BlockHeight := height,
                                          r_BlockHash := bv_blockHash info\<rparr>\<rparr>)
                  else Ok (st\<lparr>ls_result := r\<rparr>))
               else if ai_Status info = StatusInvalid then
                 Ok (st\<lparr>ls_result := r, ls_sawInvalid := True\<rparr>)
               else Ok (st\<lparr>ls_result := r\<rparr>))
         | LitecoinBlockHeaderAttestation height \<Rightarrow>
             Ok (st\<lparr>ls_result := add_info \<lparr>ai_Kind = ''litecoin'',
                      ai_Detail = ''height='' @ dec_nat (unat height), ai_Status = StatusUnverified\<rparr> (ls_result st)\<rparr>)
         | UnknownAttestation tagBytes payload \<Rightarrow>
             Ok (st\<lparr>ls_result := add_info \<lparr>ai_Kind = att_Kind att, ai_Detail = ''unknown attestation'',
                      ai_Status = StatusUnknown\<rparr> (ls_result st)\<rparr>)))"

fun verify_loop :: "HeaderSource option \<Rightarrow> nat \<Rightarrow> (bytes \<times> attestation) list \<Rightarrow> loop_state \<Rightarrow> loop_state result"
where
  "verify_loop headers k [] st = Ok st"
| "verify_loop headers k (item # items) st =
     andThen (verify_item headers k item st) (\<lambda>st'. verify_loop headers (Suc k) items st')"

definition conclude :: "loop_state \<Rightarrow> Result" where
  "conclude st =
     (let r = ls_result st in
      if length (r_Attestations r) = 0 then
        r\<lparr>r_Status := StatusInvalid, r_Reason := ''no attestations found''\<rparr>
      else if r_VerifiedAt r \<noteq> None then r\<lparr>r_Valid := True, r_Status := StatusConfirmed\<rparr>
      else if ls_sawInvalid st then
        r\<lparr>r_Status := StatusInvalid, r_Reason := ''bitcoin attestation does not match block header''\<rparr>
      else if ls_sawPending st then
        r\<lparr>r_Status := StatusPending,
          r_Reason := ''not yet confirmed in the Bitcoin blockchain; proof is a calendar receipt only''\<rparr>
      else r\<lparr>r_Status := StatusUnverified,
             r_Reason := ''no bitcoin block header source available to confirm attestations''\<rparr>)"

definition refuse :: "string \<Rightarrow> Result" where
  "refuse reason = zero_Result\<lparr>r_Status := StatusInvalid, r_Reason := reason\<rparr>"

text \<open>\<open>VerifyProof\<close> returns the proof too, which the upgrade changes in place.\<close>

definition VerifyProof :: "hashes \<Rightarrow> Options \<Rightarrow> Timestamp \<Rightarrow> bytes \<Rightarrow> Timestamp \<times> Result result" where
  "VerifyProof H opts proof digest =
     (case VerifyDigest proof digest of
        Panic p \<Rightarrow> (proof, Panic p)
      | Err e \<Rightarrow> (proof, Ok (refuse (error_string e)))
      | Ok _ \<Rightarrow>
          (case (case o_Upgrader opts of None \<Rightarrow> (proof, Ok ()) | Some up \<Rightarrow> upgradePending H up proof) of
             (proof', Panic p) \<Rightarrow> (proof', Panic p)
           | (proof', Err e) \<Rightarrow> (proof', Ok (refuse (error_string e)))
           | (proof', Ok _) \<Rightarrow>
               (proof', andThen
                  (verify_loop (o_Headers opts) 0 (AllAttestations proof')
                     \<lparr>ls_result = zero_Result, ls_sawPending = False, ls_sawInvalid = False\<rparr>)
                  (\<lambda>st. Ok (conclude st)))))"

definition VerifyDetached :: "hashes \<Rightarrow> Options \<Rightarrow> reader \<Rightarrow> Timestamp \<Rightarrow> Timestamp \<times> Result result" where
  "VerifyDetached H opts file det =
     (case SHA256_HashReader H file of
        Panic p \<Rightarrow> (det, Panic p)
      | Err e \<Rightarrow> (det, Err e)
      | Ok computed \<Rightarrow>
          if computed \<noteq> ts_Msg det then
            (det, Ok (refuse ''file hash does not match proof''))
          else VerifyProof H opts det computed)"

section \<open>Parsing\<close>

record ParseResult =
  pr_Complete :: bool
  pr_BlockHeight :: u64
  pr_BlockHeights :: "u64 list"
  pr_PendingURIs :: "string list"

fun parse_loop :: "(bytes \<times> attestation) list \<Rightarrow> string list \<Rightarrow> u64 list \<Rightarrow> string list \<times> u64 list" where
  "parse_loop [] uris heights = (uris, heights)"
| "parse_loop ((msg, att) # items) uris heights =
     (case att of
        PendingAttestation uri \<Rightarrow> parse_loop items (uris @ [uri]) heights
      | BitcoinBlockHeaderAttestation h \<Rightarrow> parse_loop items uris (heights @ [h])
      | _ \<Rightarrow> parse_loop items uris heights)"

definition ParseProof :: "Timestamp \<Rightarrow> bytes \<Rightarrow> ParseResult result" where
  "ParseProof proof digest =
     andThen (VerifyDigest proof digest) (\<lambda>_.
       let (uris, heights) = parse_loop (AllAttestations proof) [] [];
           result = \<lparr>pr_Complete = False, pr_BlockHeight = 0, pr_BlockHeights = [], pr_PendingURIs = uris\<rparr>
       in if length heights > 0 then
            let hs = sort heights
            in Ok (result\<lparr>pr_Complete := True, pr_BlockHeights := hs, pr_BlockHeight := hs ! 0\<rparr>)
          else Ok result)"

section \<open>The chain of operations from the root to an attested message\<close>

fun apply_ops :: "hashes \<Rightarrow> op list \<Rightarrow> bytes \<Rightarrow> bytes result" where
  "apply_ops H [] m = Ok m"
| "apply_ops H (x # xs) m = andThen (op_Apply H x m) (apply_ops H xs)"

lemma AllAttestations_chain:
  "linked H t \<Longrightarrow> (m, a) \<in> set (AllAttestations t) \<Longrightarrow>
   \<exists>xs. list_all op_ok xs \<and> apply_ops H xs (ts_Msg t) = Ok m"
proof (induction t rule: Timestamp_induct)
  case (Timestamp r atts ops)
  from Timestamp.prems(2) consider "m = r" | x s where "(x, s) \<in> set ops" "(m, a) \<in> set (AllAttestations s)"
    by auto
  then show ?case
  proof cases
    case 1
    then show ?thesis by (intro exI [of _ "[]"]) simp
  next
    case 2
    with Timestamp.IH [OF 2(1)] linked_child [OF Timestamp.prems(1) 2(1)]
    obtain xs where "list_all op_ok xs" "apply_ops H xs (ts_Msg s) = Ok m" by blast
    with linked_child [OF Timestamp.prems(1) 2(1)] show ?thesis by (intro exI [of _ "x # xs"]) simp
  qed
qed

lemma AllAttestations_ok: "linked H t \<Longrightarrow> (m, a) \<in> set (AllAttestations t) \<Longrightarrow> att_ok a"
  by (induction t rule: Timestamp_induct) (fastforce simp: list_all_iff)

section \<open>Nodes and paths\<close>

fun valid_path :: "Timestamp \<Rightarrow> nat list \<Rightarrow> bool" where
  "valid_path t [] \<longleftrightarrow> True"
| "valid_path t (i # p) \<longleftrightarrow> i < length (ts_Ops t) \<and> valid_path (snd (ts_Ops t ! i)) p"

lemma findNode_sound:
  "findNode t msg = Some p \<Longrightarrow> valid_path t p \<and> ts_Msg (node_at t p) = msg"
  "findNode_ops ops msg j = Some p \<Longrightarrow>
     \<exists>i q. p = (j + i) # q \<and> i < length ops \<and> valid_path (snd (ops ! i)) q \<and> ts_Msg (node_at (snd (ops ! i)) q) = msg"
proof (induction t msg and ops msg j arbitrary: p and p rule: findNode_findNode_ops.induct)
  case (3 x s ops msg i)
  show ?case
  proof (cases "findNode s msg")
    case None
    with "3.IH"(2) [OF None] "3.prems" obtain j q where "p = (Suc i + j) # q" "j < length ops"
      "valid_path (snd (ops ! j)) q" "ts_Msg (node_at (snd (ops ! j)) q) = msg" by auto
    then show ?thesis by (intro exI [of _ "Suc j"]) simp
  next
    case (Some q)
    with "3.IH"(1) "3.prems" show ?thesis by (intro exI [of _ 0]) auto
  qed
qed (auto split: if_splits)

lemma findNode_complete:
  "(msg, a) \<in> set (AllAttestations t) \<Longrightarrow> findNode t msg \<noteq> None"
  "(x, s) \<in> set ops \<Longrightarrow> (msg, a) \<in> set (AllAttestations s) \<Longrightarrow> findNode_ops ops msg j \<noteq> None"
proof (induction t msg and ops msg j arbitrary: and x s rule: findNode_findNode_ops.induct)
  case (3 y u ops msg i)
  then show ?case by (cases "findNode u msg") auto
qed auto

lemma node_at_linked: "linked H t \<Longrightarrow> valid_path t p \<Longrightarrow> linked H (node_at t p)"
proof (induction t p rule: node_at.induct)
  case (2 t i p)
  then have "ts_Ops t ! i \<in> set (ts_Ops t)" by simp
  then have "linked H (snd (ts_Ops t ! i))" using "2.prems"(1) unfolding linked_iff [of H t] by fastforce
  then show ?case using 2 by simp
qed simp

lemma set_stamp_same: "i < length (ts_Ops t) \<Longrightarrow> set_stamp t i (snd (ts_Ops t ! i)) = t"
  by (cases t) (simp add: set_stamp_def list_update_same_conv)

lemma replace_at_same: "valid_path t p \<Longrightarrow> replace_at t p (node_at t p) = t"
  by (induction t p rule: node_at.induct) (simp_all add: set_stamp_same)

lemma ts_Msg_replace_at: "ts_Msg s = ts_Msg (node_at t p) \<Longrightarrow> ts_Msg (replace_at t p s) = ts_Msg t"
  by (cases p) simp_all

lemma replace_at_linked:
  "linked H t \<Longrightarrow> valid_path t p \<Longrightarrow> linked H s \<Longrightarrow> ts_Msg s = ts_Msg (node_at t p) \<Longrightarrow>
   linked H (replace_at t p s)"
proof (induction t p rule: node_at.induct)
  case (2 t i p)
  have c: "linked H (snd (ts_Ops t ! i))" using node_at_linked [of H t "[i]"] "2.prems" by simp
  from "2.IH" [OF c] "2.prems" have "linked H (replace_at (snd (ts_Ops t ! i)) p s)" by simp
  then show ?case using "2.prems" ts_Msg_replace_at [of s "snd (ts_Ops t ! i)" p]
    by (simp add: linked_set_stamp)
qed simp

lemma AllAttestations_child: "i < length (ts_Ops t) \<Longrightarrow> set (AllAttestations (snd (ts_Ops t ! i))) \<subseteq> set (AllAttestations t)"
  using nth_mem by (fastforce simp: AllAttestations_set [of t])

lemma replace_at_AllAttestations:
  "valid_path t p \<Longrightarrow> set (AllAttestations (node_at t p)) \<subseteq> set (AllAttestations s) \<Longrightarrow>
   set (AllAttestations (replace_at t p s)) = set (AllAttestations t) \<union> set (AllAttestations s)"
proof (induction t p rule: node_at.induct)
  case (2 t i p)
  then have "set (AllAttestations (replace_at (snd (ts_Ops t ! i)) p s)) =
      set (AllAttestations (snd (ts_Ops t ! i))) \<union> set (AllAttestations s)" by simp
  with "2.prems" AllAttestations_child [of i t] show ?case by (auto simp: AllAttestations_set_stamp)
qed auto

text \<open>Numbers of attestations.\<close>

lemma length_AllAttestations:
  "length (AllAttestations t) = length (ts_Attestations t) + sum_list (map (\<lambda>p. length (AllAttestations (snd p))) (ts_Ops t))"
  by (cases t) (simp add: length_concat o_def case_prod_unfold)

lemma length_set_stamp:
  "i < length (ts_Ops t) \<Longrightarrow>
   length (AllAttestations (set_stamp t i s)) + length (AllAttestations (snd (ts_Ops t ! i))) =
   length (AllAttestations t) + length (AllAttestations s)"
proof -
  assume i: "i < length (ts_Ops t)"
  let ?f = "\<lambda>p. length (AllAttestations (snd p))"
  have "?f (ts_Ops t ! i) \<le> sum_list (map ?f (ts_Ops t))"
    using i by (intro member_le_sum_list) auto
  then show ?thesis using i
    by (simp add: length_AllAttestations [of t] length_AllAttestations [of "set_stamp t i s"] map_update sum_list_update)
qed

lemma length_replace_at:
  "valid_path t p \<Longrightarrow>
   length (AllAttestations (replace_at t p s)) + length (AllAttestations (node_at t p)) =
   length (AllAttestations t) + length (AllAttestations s)"
proof (induction t p rule: node_at.induct)
  case (2 t i p)
  then show ?case using length_set_stamp [of i t "replace_at (snd (ts_Ops t ! i)) p s"] by simp
qed simp

section \<open>Merging adds attestations or changes nothing\<close>

lemma full_AllAttestations: "full t \<Longrightarrow> AllAttestations t \<noteq> []"
proof (induction t rule: Timestamp_induct)
  case (Timestamp m atts ops)
  show ?case
  proof (cases ops)
    case (Cons p ops')
    obtain x s where "p = (x, s)" by (cases p)
    with Cons full_child [OF Timestamp.prems, of x s] Timestamp.IH [of x s] show ?thesis by auto
  qed (use Timestamp.prems in auto)
qed

definition grows :: "Timestamp \<Rightarrow> Timestamp \<Rightarrow> bool" where
  "grows t r \<longleftrightarrow> r = t \<or> length (AllAttestations t) < length (AllAttestations r)"

lemma grows_trans: "grows t r \<Longrightarrow> grows r q \<Longrightarrow> grows t q"
  by (auto simp: grows_def)

lemma grows_add_att: "grows t (Timestamp (ts_Msg t) (ts_Attestations t @ [a]) (ts_Ops t))"
  by (simp add: grows_def length_AllAttestations [of t] length_AllAttestations [of "Timestamp _ _ _"]
      del: AllAttestations.simps)

lemma merge_atts_grows: "grows t (merge_atts t as)"
proof (induction t "as" rule: merge_atts.induct)
  case (1 t)
  then show ?case by (simp add: grows_def)
next
  case (2 t att atts)
  then show ?case using grows_trans [OF grows_add_att [of t att]] by (cases "hasAttestation t att") simp_all
qed

lemma set_stamp_grows:
  assumes "i < length (ts_Ops t)" and "grows (snd (ts_Ops t ! i)) s"
  shows "grows t (set_stamp t i s)"
  using assms(2) length_set_stamp [OF assms(1), of s] set_stamp_same [OF assms(1)]
  unfolding grows_def by auto

lemma merge_step_grows:
  assumes slot: "op_slot H t x = Ok (t1, i)" and c: "Merge H (snd (ts_Ops t1 ! i)) s = (c, Ok ())"
    and s: "full s" and IH: "grows (snd (ts_Ops t1 ! i)) c"
  shows "grows t (set_stamp t1 i c)"
proof (cases "find_op (ts_Ops t) x")
  case None
  with slot obtain r where t1: "t1 = add_op (x, Timestamp r [] []) t" and i: "i = length (ts_Ops t)"
    by (auto simp: op_slot_def dest: AddOp_OkD)
  have child: "snd (ts_Ops t1 ! i) = Timestamp r [] []" "i < length (ts_Ops t1)" by (simp_all add: t1 i add_op_def)
  have "length (AllAttestations t1) = length (AllAttestations t)" by (cases t) (simp add: t1 add_op_def)
  moreover have "full c"
    using Merge_full [OF s _ _ c, of "ts_depth s"] by (simp add: child kids_def)
  ultimately show ?thesis
    using full_AllAttestations length_set_stamp [OF child(2), of c] by (simp add: child grows_def)
next
  case (Some j)
  with slot find_op_Some [OF Some] have "t1 = t" "i < length (ts_Ops t)" by (auto simp: op_slot_def)
  with IH show ?thesis by (simp add: set_stamp_grows)
qed

lemma merge_ops_grows:
  assumes "\<And>x s c r. (x, s) \<in> set ops \<Longrightarrow> Merge H c s = (r, Ok ()) \<Longrightarrow> full s \<and> grows c r"
    and "merge_ops H t ops = (r, Ok ())"
  shows "grows t r"
  using assms
proof (induction ops arbitrary: t)
  case Nil
  then show ?case by (simp add: merge_ops.simps grows_def)
next
  case (Cons p ops)
  obtain x s where p: "p = (x, s)" by (cases p)
  from Cons.prems(2) obtain t1 i c where slot: "op_slot H t x = Ok (t1, i)"
    and c: "Merge H (snd (ts_Ops t1 ! i)) s = (c, Ok ())"
    and r: "merge_ops H (set_stamp t1 i c) ops = (r, Ok ())"
    by (auto simp: p merge_ops_Cons split: result.splits prod.splits)
  have "grows t (set_stamp t1 i c)"
    using merge_step_grows [OF slot c] Cons.prems(1) [OF _ c, of x] p by simp
  moreover have "grows (set_stamp t1 i c) r"
    using Cons.prems(1) by (intro Cons.IH [OF _ r]) auto
  ultimately show ?case by (rule grows_trans)
qed

lemma Merge_grows: "full u \<Longrightarrow> Merge H t u = (r, Ok ()) \<Longrightarrow> grows t r"
proof (induction u arbitrary: t r rule: Timestamp_induct)
  case (Timestamp m atts ops)
  from Timestamp.prems(2) have r: "merge_ops H (merge_atts t atts) ops = (r, Ok ())"
    by (simp add: Merge_other split: if_splits)
  have "grows (merge_atts t atts) r"
    using full_child [OF Timestamp.prems(1)] Timestamp.IH by (intro merge_ops_grows [OF _ r]) blast
  with merge_atts_grows show ?case by (rule grows_trans)
qed

section \<open>The contract of a calendar client\<close>

text \<open>
  What verification relies on in an \<open>Upgrader\<close>: a timestamp it returns is one for the commitment it
  was asked for, linked and without empty nodes. Nothing is assumed about which timestamps it returns,
  when it fails, or whether it answers twice in the same way. An upgrade may add the attestations in
  \<open>answers\<close>: those of answers for pending commitments.
\<close>

definition answers :: "Upgrader \<Rightarrow> (bytes \<times> attestation) list \<Rightarrow> (bytes \<times> attestation) set" where
  "answers up items =
     {a. \<exists>k uri c u. (c, PendingAttestation uri) \<in> set items \<and> up k uri c = Ok u \<and> a \<in> set (AllAttestations u)}"

lemma answers_mono: "answers up items \<subseteq> answers up (item # items)"
  unfolding answers_def by (intro Collect_mono impI) (meson list.set_intros(2))

locale upgrader =
  fixes H :: hashes and up :: Upgrader
  assumes GetTimestamp_ok: "up k uri c = Ok t \<Longrightarrow> stamp_ok H c t"
begin

lemma merge_at:
  assumes ts: "linked H ts" and c: "findNode ts c = Some p" and u: "stamp_ok H c u"
  obtains sub where "Merge H (node_at ts p) u = (sub, Ok ())" and "linked H (replace_at ts p sub)"
    and "ts_Msg (replace_at ts p sub) = ts_Msg ts"
    and "set (AllAttestations (replace_at ts p sub)) = set (AllAttestations ts) \<union> set (AllAttestations u)"
    and "grows ts (replace_at ts p sub)"
proof -
  from findNode_sound(1) [OF c] have p: "valid_path ts p" "ts_Msg (node_at ts p) = c" by simp_all
  note n = node_at_linked [OF ts p(1)]
  from Merge_Ok [of H u "node_at ts p"] n p u obtain sub where sub: "Merge H (node_at ts p) u = (sub, Ok ())"
    and m: "merged H (node_at ts p) (set (AllAttestations u)) sub" by (auto simp: stamp_ok_def)
  have "grows (node_at ts p) sub" using Merge_grows [OF _ sub] u by (simp add: stamp_ok_def)
  then have g: "grows ts (replace_at ts p sub)"
    using length_replace_at [OF p(1), of sub] replace_at_same [OF p(1)] unfolding grows_def by auto
  have sub_in: "set (AllAttestations (node_at ts p)) \<subseteq> set (AllAttestations ts)"
    using replace_at_AllAttestations [OF p(1), of "node_at ts p"] replace_at_same [OF p(1)] by auto
  from m have "set (AllAttestations (replace_at ts p sub)) = set (AllAttestations ts) \<union> set (AllAttestations u)"
    using replace_at_AllAttestations [OF p(1), of sub] sub_in by (auto simp: merged_def)
  with that sub g m show ?thesis
    using replace_at_linked [OF ts p(1), of sub] ts_Msg_replace_at [of sub ts p] by (simp add: merged_def)
qed

lemma Upgrade_loop_keeps:
  assumes "linked H ts" and "Upgrade_loop H up k items ts = (ts', r)"
  shows "linked H ts' \<and> ts_Msg ts' = ts_Msg ts \<and> set (AllAttestations ts) \<subseteq> set (AllAttestations ts') \<and>
    set (AllAttestations ts') \<subseteq> set (AllAttestations ts) \<union> answers up items \<and> grows ts ts' \<and>
    (r = Ok () \<or> (\<exists>j uri c p. up j uri c = Panic p \<and> r = Panic p))"
  using assms
proof (induction items arbitrary: k ts)
  case Nil
  then show ?case by (auto simp: grows_def)
next
  case (Cons item items)
  obtain c att where item: "item = (c, att)" by (cases item)
  note mono = answers_mono [of up items item]
  have skip: ?case if "Upgrade_loop H up (Suc k) items ts = (ts', r)"
    using Cons.IH [OF Cons.prems(1) that] mono by blast
  show ?case
  proof (cases "\<exists>uri u p. att = PendingAttestation uri \<and> up k uri c = Ok u \<and> findNode ts c = Some p")
    case True
    then obtain uri u p where att: "att = PendingAttestation uri" and u: "up k uri c = Ok u"
      and p: "findNode ts c = Some p" by blast
    obtain sub where sub: "Merge H (node_at ts p) u = (sub, Ok ())" and l: "linked H (replace_at ts p sub)"
      and m: "ts_Msg (replace_at ts p sub) = ts_Msg ts"
        "set (AllAttestations (replace_at ts p sub)) = set (AllAttestations ts) \<union> set (AllAttestations u)"
        "grows ts (replace_at ts p sub)"
      by (rule merge_at [OF Cons.prems(1) p GetTimestamp_ok [OF u]])
    have "Upgrade_loop H up (Suc k) items (replace_at ts p sub) = (ts', r)"
      using Cons.prems(2) by (simp add: item att u p sub)
    note IH = Cons.IH [OF l this]
    have "set (AllAttestations u) \<subseteq> answers up (item # items)"
      unfolding answers_def item att using u by (intro subsetI CollectI exI conjI) (rule list.set_intros, assumption+)
    with IH m mono grows_trans [OF m(3)] show ?thesis by auto
  next
    case False
    then show ?thesis using Cons.prems skip
      by (cases att) (auto simp: item grows_def split: result.splits option.splits)
  qed
qed

end

section \<open>What the verification loop computes\<close>

text \<open>
  The attestations that a header source confirms, each with the header, and those it contradicts:
  \<open>k\<close> is the number of the call.
\<close>

definition confirms :: "HeaderSource option \<Rightarrow> nat \<Rightarrow> bytes \<times> attestation \<Rightarrow> (u64 \<times> BlockHeader) list" where
  "confirms headers k item =
     (case (headers, item) of
        (Some src, (msg, BitcoinBlockHeaderAttestation h)) \<Rightarrow>
          (case src k h of
             Ok header \<Rightarrow> if length msg = 32 \<and> bh_MerkleRoot header = msg then [(h, header)] else []
           | _ \<Rightarrow> [])
      | _ \<Rightarrow> [])"

fun confirmations :: "HeaderSource option \<Rightarrow> nat \<Rightarrow> (bytes \<times> attestation) list \<Rightarrow> (u64 \<times> BlockHeader) list" where
  "confirmations headers k [] = []"
| "confirmations headers k (item # items) = confirms headers k item @ confirmations headers (Suc k) items"

definition contradicts :: "HeaderSource option \<Rightarrow> nat \<Rightarrow> bytes \<times> attestation \<Rightarrow> bool" where
  "contradicts headers k item \<longleftrightarrow>
     (case (headers, item) of
        (Some src, (msg, BitcoinBlockHeaderAttestation h)) \<Rightarrow>
          length msg \<noteq> 32 \<or> (case src k h of Ok header \<Rightarrow> bh_MerkleRoot header \<noteq> msg | _ \<Rightarrow> False)
      | _ \<Rightarrow> False)"

fun contradiction :: "HeaderSource option \<Rightarrow> nat \<Rightarrow> (bytes \<times> attestation) list \<Rightarrow> bool" where
  "contradiction headers k [] \<longleftrightarrow> False"
| "contradiction headers k (item # items) \<longleftrightarrow> contradicts headers k item \<or> contradiction headers (Suc k) items"

definition is_pending :: "bytes \<times> attestation \<Rightarrow> bool" where
  "is_pending item \<longleftrightarrow> (case snd item of PendingAttestation _ \<Rightarrow> True | _ \<Rightarrow> False)"

text \<open>The result names the first of the earliest blocks in \<open>conf\<close>.\<close>

definition earliest :: "(u64 \<times> BlockHeader) list \<Rightarrow> Result \<Rightarrow> bool" where
  "earliest conf r \<longleftrightarrow>
     (case r_VerifiedAt r of
        None \<Rightarrow> conf = []
      | Some t \<Rightarrow> (\<exists>(h, header) \<in> set conf. t = bh_Time header \<and> r_BlockHeight r = h \<and> r_BlockHash r = bh_Hash header) \<and>
          (\<forall>(h, header) \<in> set conf. t \<le> bh_Time header))"

lemmas status_defs = StatusConfirmed_def StatusPending_def StatusInvalid_def StatusUnverified_def StatusUnknown_def

lemma verifyBitcoin_cases:
  assumes "verifyBitcoin headers k h msg = Ok info"
  obtains (confirmed) header where "ai_Status info = StatusConfirmed"
      "confirms headers k (msg, BitcoinBlockHeaderAttestation h) = [(h, header)]"
      "\<not> contradicts headers k (msg, BitcoinBlockHeaderAttestation h)"
      "bv_blockTime info = bh_Time header" "bv_blockHash info = bh_Hash header"
  | (invalid) "ai_Status info = StatusInvalid" "confirms headers k (msg, BitcoinBlockHeaderAttestation h) = []"
      "contradicts headers k (msg, BitcoinBlockHeaderAttestation h)"
  | (unverified) "ai_Status info = StatusUnverified" "confirms headers k (msg, BitcoinBlockHeaderAttestation h) = []"
      "\<not> contradicts headers k (msg, BitcoinBlockHeaderAttestation h)"
proof (cases headers)
  case None
  with assms unverified show ?thesis by (auto simp: verifyBitcoin_def Let_def confirms_def contradicts_def)
next
  case (Some src)
  show ?thesis
  proof (cases "length msg = 32")
    case False
    with Some assms invalid show ?thesis
      by (auto simp: verifyBitcoin_def Let_def confirms_def contradicts_def split: result.splits)
  next
    case True
    show ?thesis
    proof (cases "src k h")
      case (Ok header)
      with Some True assms confirmed invalid show ?thesis
        by (cases "msg = bh_MerkleRoot header") (auto simp: verifyBitcoin_def Let_def confirms_def contradicts_def)
    next
      case (Err e)
      with Some True assms unverified show ?thesis
        by (auto simp: verifyBitcoin_def Let_def confirms_def contradicts_def)
    next
      case (Panic p)
      with Some True assms show ?thesis by (simp add: verifyBitcoin_def Let_def)
    qed
  qed
qed

lemma add_info_sel [simp]:
  "r_VerifiedAt (add_info i r) = r_VerifiedAt r" "r_BlockHeight (add_info i r) = r_BlockHeight r"
  "r_BlockHash (add_info i r) = r_BlockHash r" "r_Valid (add_info i r) = r_Valid r"
  "r_Attestations (add_info i r) = r_Attestations r @ [i]"
  by (simp_all add: add_info_def)

lemma status_distinct [simp]:
  "StatusInvalid \<noteq> StatusConfirmed" "StatusUnverified \<noteq> StatusConfirmed" "StatusUnverified \<noteq> StatusInvalid"
  "StatusConfirmed \<noteq> StatusInvalid"
  by (simp_all add: status_defs)

text \<open>The state after some items, with confirmations \<open>conf\<close>.\<close>

definition loop_inv :: "(u64 \<times> BlockHeader) list \<Rightarrow> bool \<Rightarrow> bool \<Rightarrow> nat \<Rightarrow> loop_state \<Rightarrow> bool" where
  "loop_inv conf bad pend n st \<longleftrightarrow> earliest conf (ls_result st) \<and> \<not> r_Valid (ls_result st) \<and>
     ls_sawInvalid st = bad \<and> ls_sawPending st = pend \<and> length (r_Attestations (ls_result st)) = n"

lemma earliest_add_info [simp]: "earliest conf (add_info i r) \<longleftrightarrow> earliest conf r"
  by (simp add: earliest_def cong: option.case_cong)

lemma earliest_confirmed:
  assumes "earliest conf r"
  shows "earliest (conf @ [(h, header)])
    (if r_VerifiedAt r = None \<or> bh_Time header < the (r_VerifiedAt r)
     then r\<lparr>r_VerifiedAt := Some (bh_Time header), r_BlockHeight := h, r_BlockHash := bh_Hash header\<rparr> else r)"
  using assms by (cases "r_VerifiedAt r") (fastforce simp: earliest_def)+

lemma only_bitcoin [simp]:
  "confirms headers k (msg, PendingAttestation u) = []" "confirms headers k (msg, LitecoinBlockHeaderAttestation h) = []"
  "confirms headers k (msg, UnknownAttestation t p) = []" "\<not> contradicts headers k (msg, PendingAttestation u)"
  "\<not> contradicts headers k (msg, LitecoinBlockHeaderAttestation h)" "\<not> contradicts headers k (msg, UnknownAttestation t p)"
  by (cases headers; simp add: confirms_def contradicts_def)+

lemma is_pending_simps [simp]:
  "is_pending (msg, PendingAttestation u)" "\<not> is_pending (msg, BitcoinBlockHeaderAttestation h)"
  "\<not> is_pending (msg, LitecoinBlockHeaderAttestation h)" "\<not> is_pending (msg, UnknownAttestation t p)"
  by (simp_all add: is_pending_def)

lemma verify_item_inv:
  assumes inv: "loop_inv conf bad pend n st" and ok: "verify_item headers k (msg, att) st = Ok st'"
  shows "loop_inv (conf @ confirms headers k (msg, att)) (bad \<or> contradicts headers k (msg, att))
    (pend \<or> is_pending (msg, att)) (Suc n) st'"
proof (cases att)
  case (BitcoinBlockHeaderAttestation h)
  with ok obtain info where info: "verifyBitcoin headers k h msg = Ok info"
    by (auto simp: verify_item_def andThen_eq_Ok)
  let ?r = "add_info (AttestationInfo.truncate info) (ls_result st)"
  from info show ?thesis
  proof (cases rule: verifyBitcoin_cases)
    case (confirmed header)
    let ?r' = "if r_VerifiedAt ?r = None \<or> bh_Time header < the (r_VerifiedAt ?r)
      then ?r\<lparr>r_VerifiedAt := Some (bh_Time header), r_BlockHeight := h, r_BlockHash := bh_Hash header\<rparr> else ?r"
    from inv have "earliest (conf @ [(h, header)]) ?r'"
      by (intro earliest_confirmed) (simp add: loop_inv_def)
    moreover have "st' = st\<lparr>ls_result := ?r'\<rparr>"
      using ok confirmed info BitcoinBlockHeaderAttestation by (auto simp: verify_item_def Let_def split: if_splits)
    ultimately show ?thesis using inv confirmed BitcoinBlockHeaderAttestation
      by (simp add: loop_inv_def del: if_split)
  next
    case invalid
    then have "st' = st\<lparr>ls_result := ?r, ls_sawInvalid := True\<rparr>"
      using ok info BitcoinBlockHeaderAttestation by (simp add: verify_item_def Let_def)
    with invalid inv BitcoinBlockHeaderAttestation show ?thesis by (simp add: loop_inv_def)
  next
    case unverified
    then have "st' = st\<lparr>ls_result := ?r\<rparr>"
      using ok info BitcoinBlockHeaderAttestation by (simp add: verify_item_def Let_def)
    with unverified inv BitcoinBlockHeaderAttestation show ?thesis by (simp add: loop_inv_def)
  qed
qed (use inv ok in \<open>auto simp: verify_item_def loop_inv_def\<close>)

lemma verify_loop_inv:
  "loop_inv conf bad pend n st \<Longrightarrow> verify_loop headers k items st = Ok st' \<Longrightarrow>
   loop_inv (conf @ confirmations headers k items) (bad \<or> contradiction headers k items)
     (pend \<or> list_ex is_pending items) (n + length items) st'"
proof (induction items arbitrary: conf bad pend n st k)
  case (Cons item items)
  obtain msg att where item: "item = (msg, att)" by (cases item)
  from Cons.prems(2) obtain st1 where "verify_item headers k (msg, att) st = Ok st1"
    and l: "verify_loop headers (Suc k) items st1 = Ok st'" by (auto simp: item andThen_eq_Ok)
  from Cons.IH [OF verify_item_inv [OF Cons.prems(1) this(1)] l] show ?case by (simp add: item disj_assoc)
qed simp

lemma confirmations_D:
  "(h, header) \<in> set (confirmations headers k items) \<Longrightarrow>
   \<exists>src j. headers = Some src \<and> src j h = Ok header \<and> length (bh_MerkleRoot header) = 32 \<and>
     (bh_MerkleRoot header, BitcoinBlockHeaderAttestation h) \<in> set items"
proof (induction items arbitrary: k)
  case (Cons item items)
  obtain msg att where item: "item = (msg, att)" by (cases item)
  show ?case
  proof (cases "(h, header) \<in> set (confirms headers k item)")
    case True
    then show ?thesis
      by (auto simp: confirms_def item split: option.splits attestation.splits result.splits if_splits)
  next
    case False
    with Cons.prems have "(h, header) \<in> set (confirmations headers (Suc k) items)" by simp
    from Cons.IH [OF this] show ?thesis by auto
  qed
qed simp

context upgrader
begin

lemma Upgrade_keeps:
  assumes "linked H ts" and "Upgrade H up ts = (ts', r)"
  shows "linked H ts'" and "ts_Msg ts' = ts_Msg ts"
    and "set (AllAttestations ts) \<subseteq> set (AllAttestations ts')"
    and "set (AllAttestations ts') \<subseteq> set (AllAttestations ts) \<union> answers up (AllAttestations ts)"
    and "r = Ok b \<Longrightarrow> b \<longleftrightarrow> ts' \<noteq> ts"
    and "is_ok r \<or> (\<exists>k uri c. is_panic (up k uri c))" and "\<And>e. r \<noteq> Err e"
proof -
  obtain q where l: "Upgrade_loop H up 0 (AllAttestations ts) ts = (ts', q)"
    and r: "r = andThen q (\<lambda>_. Ok (length (AllAttestations ts) < length (AllAttestations ts')))"
    using assms(2) by (auto simp: Upgrade_def Let_def split: prod.splits)
  note k = Upgrade_loop_keeps [OF assms(1) l]
  from k show "linked H ts'" "ts_Msg ts' = ts_Msg ts" "set (AllAttestations ts) \<subseteq> set (AllAttestations ts')"
    "set (AllAttestations ts') \<subseteq> set (AllAttestations ts) \<union> answers up (AllAttestations ts)" by blast+
  show "b \<longleftrightarrow> ts' \<noteq> ts" if "r = Ok b" using that k r by (auto simp: grows_def andThen_eq_Ok)
  show "is_ok r \<or> (\<exists>k uri c. is_panic (up k uri c))" using k r by (auto simp: is_panic_iff)
  show "r \<noteq> Err e" for e using k r by auto
qed

lemma upgradePending_linked:
  "linked H ts \<Longrightarrow> upgradePending H up ts = (ts', r) \<Longrightarrow> linked H ts' \<and> ts_Msg ts' = ts_Msg ts"
  using Upgrade_keeps(1,2) [of ts ts'] by (auto simp: upgradePending_def split: prod.splits)

end

text \<open>The part of \<open>VerifyProof\<close> after the upgrade.\<close>

lemma VerifyProof_cases:
  assumes "VerifyProof H opts proof digest = (proof', Ok res)"
  obtains (refused) reason where "res = refuse reason"
  | (checked) st where "ts_Msg proof = digest"
      "proof' = (case o_Upgrader opts of None \<Rightarrow> proof | Some up \<Rightarrow> fst (upgradePending H up proof))"
      "verify_loop (o_Headers opts) 0 (AllAttestations proof')
         \<lparr>ls_result = zero_Result, ls_sawPending = False, ls_sawInvalid = False\<rparr> = Ok st"
      "res = conclude st"
proof (cases "ts_Msg proof = digest")
  case False
  then show ?thesis using assms refused by (auto simp: VerifyProof_def VerifyDigest_def)
next
  case True
  obtain p r where pr: "(case o_Upgrader opts of None \<Rightarrow> (proof, Ok ()) | Some up \<Rightarrow> upgradePending H up proof) = (p, r)"
    by fastforce
  then have p: "p = (case o_Upgrader opts of None \<Rightarrow> proof | Some up \<Rightarrow> fst (upgradePending H up proof))"
    by (auto split: option.splits)
  show ?thesis
  proof (cases r)
    case (Ok u)
    with assms True pr obtain st where "proof' = p" "res = conclude st"
      "verify_loop (o_Headers opts) 0 (AllAttestations proof')
         \<lparr>ls_result = zero_Result, ls_sawPending = False, ls_sawInvalid = False\<rparr> = Ok st"
      by (auto simp: VerifyProof_def VerifyDigest_def andThen_eq_Ok)
    then show ?thesis using checked True p by blast
  qed (use assms True pr refused in \<open>auto simp: VerifyProof_def VerifyDigest_def\<close>)
qed

lemma loop_start:
  assumes "verify_loop headers 0 items
      \<lparr>ls_result = zero_Result, ls_sawPending = False, ls_sawInvalid = False\<rparr> = Ok st"
  shows "loop_inv (confirmations headers 0 items) (contradiction headers 0 items) (list_ex is_pending items)
      (length items) st"
proof -
  have "loop_inv [] False False 0 \<lparr>ls_result = zero_Result, ls_sawPending = False, ls_sawInvalid = False\<rparr>"
    by (simp add: loop_inv_def earliest_def zero_Result_def)
  from verify_loop_inv [OF this assms] show ?thesis by simp
qed

text \<open>The verdict as a function of the attestations.\<close>

lemma conclude_verdict:
  assumes "loop_inv conf bad pend n st" and "n \<noteq> 0 \<or> conf = []"
  shows "r_Valid (conclude st) \<longleftrightarrow> conf \<noteq> []" and "earliest conf (conclude st)"
    and "r_Status (conclude st) =
      (if n = 0 then StatusInvalid else if conf \<noteq> [] then StatusConfirmed
       else if bad then StatusInvalid else if pend then StatusPending else StatusUnverified)"
    and "length (r_Attestations (conclude st)) = n"
proof -
  have "r_VerifiedAt (ls_result st) = None \<longleftrightarrow> conf = []"
    using assms(1) by (auto simp: loop_inv_def earliest_def split: option.splits)
  then show "r_Valid (conclude st) \<longleftrightarrow> conf \<noteq> []" "earliest conf (conclude st)"
    "r_Status (conclude st) =
      (if n = 0 then StatusInvalid else if conf \<noteq> [] then StatusConfirmed
       else if bad then StatusInvalid else if pend then StatusPending else StatusUnverified)"
    "length (r_Attestations (conclude st)) = n"
    using assms by (auto simp: conclude_def loop_inv_def Let_def earliest_def cong: option.case_cong)
qed

lemma confirmations_Nil_items: "items = [] \<Longrightarrow> confirmations headers k items = []"
  by simp

lemma VerifyProof_linked:
  assumes "linked H proof" and "\<And>up. o_Upgrader opts = Some up \<Longrightarrow> upgrader H up"
    and "p = (case o_Upgrader opts of None \<Rightarrow> proof | Some up \<Rightarrow> fst (upgradePending H up proof))"
  shows "linked H p \<and> ts_Msg p = ts_Msg proof"
  using assms upgrader.upgradePending_linked [of H _ "proof"]
  by (cases "o_Upgrader opts") (auto, (metis prod.collapse)+)

lemma VerifyProof_valid:
  assumes "linked H proof" and "\<And>up. o_Upgrader opts = Some up \<Longrightarrow> upgrader H up"
    and "VerifyProof H opts proof digest = (proof', Ok res)" and "r_Valid res"
  shows "ts_Msg proof = digest \<and> linked H proof' \<and>
    (\<exists>src k header xs. o_Headers opts = Some src \<and> src k (r_BlockHeight res) = Ok header \<and>
      (bh_MerkleRoot header, BitcoinBlockHeaderAttestation (r_BlockHeight res)) \<in> set (AllAttestations proof') \<and>
      list_all op_ok xs \<and> apply_ops H xs digest = Ok (bh_MerkleRoot header) \<and> length (bh_MerkleRoot header) = 32 \<and>
      r_VerifiedAt res = Some (bh_Time header) \<and> r_BlockHash res = bh_Hash header \<and>
      (\<forall>(h, other) \<in> set (confirmations (o_Headers opts) 0 (AllAttestations proof')). bh_Time header \<le> bh_Time other))"
  using assms(3)
proof (cases rule: VerifyProof_cases)
  case (refused reason)
  with assms(4) show ?thesis by (simp add: refuse_def zero_Result_def)
next
  case (checked st)
  let ?conf = "confirmations (o_Headers opts) 0 (AllAttestations proof')"
  note v = conclude_verdict [OF loop_start [OF checked(3)]]
  from v(1,2) checked(4) assms(4) have "?conf \<noteq> []" and e: "earliest ?conf res"
    by (cases "AllAttestations proof' = []"; simp)+
  then obtain h header where conf: "(h, header) \<in> set ?conf" "r_VerifiedAt res = Some (bh_Time header)"
    "r_BlockHeight res = h" "r_BlockHash res = bh_Hash header"
    "\<forall>(h, other) \<in> set ?conf. bh_Time header \<le> bh_Time other"
    by (auto simp: earliest_def split: option.splits)
  from confirmations_D [OF conf(1)] obtain src k where src: "o_Headers opts = Some src" "src k h = Ok header"
    "length (bh_MerkleRoot header) = 32"
    "(bh_MerkleRoot header, BitcoinBlockHeaderAttestation h) \<in> set (AllAttestations proof')" by blast
  have l: "linked H proof' \<and> ts_Msg proof' = ts_Msg proof"
    using VerifyProof_linked [OF assms(1,2) checked(2)] by simp
  from AllAttestations_chain [OF _ src(4), of H] l checked(1)
  obtain xs where "list_all op_ok xs" "apply_ops H xs digest = Ok (bh_MerkleRoot header)" by auto
  with src conf l checked(1) show ?thesis by blast
qed

section \<open>Properties\<close>

text \<open>
  C1. Verification fails closed and is sound. If the verdict is valid then the proof is on the given
  digest, and there is a block header, returned by the header source for the reported height, whose
  merkle root is what a chain of operations of the upgraded proof computes from the digest; the
  reported time and block hash are those of that header, and no other confirmed header is earlier.
\<close>

theorem VerifyProof_sound:
  assumes "linked H proof" and "\<And>up. o_Upgrader opts = Some up \<Longrightarrow> upgrader H up"
    and "VerifyProof H opts proof digest = (proof', Ok res)" and "r_Valid res"
  shows "ts_Msg proof = digest \<and> linked H proof' \<and>
    (\<exists>src k header xs. o_Headers opts = Some src \<and> src k (r_BlockHeight res) = Ok header \<and>
      (bh_MerkleRoot header, BitcoinBlockHeaderAttestation (r_BlockHeight res)) \<in> set (AllAttestations proof') \<and>
      list_all op_ok xs \<and> apply_ops H xs digest = Ok (bh_MerkleRoot header) \<and> length (bh_MerkleRoot header) = 32 \<and>
      r_VerifiedAt res = Some (bh_Time header) \<and> r_BlockHash res = bh_Hash header \<and>
      (\<forall>(h, other) \<in> set (confirmations (o_Headers opts) 0 (AllAttestations proof')). bh_Time header \<le> bh_Time other))"
  using VerifyProof_valid [OF assms] by blast

lemma verify_loop_no_panic:
  assumes "\<And>src k h. headers = Some src \<Longrightarrow> \<not> is_panic (src k h)"
  shows "is_ok (verify_loop headers k items st)"
proof -
  have b: "is_ok (verifyBitcoin headers j h msg)" for j h msg
  proof (cases headers)
    case (Some src)
    with assms [of src j h] show ?thesis by (cases "src j h") (auto simp: verifyBitcoin_def Let_def)
  qed (simp add: verifyBitcoin_def Let_def)
  have "is_ok (verify_item headers j (msg, att) s)" for j msg att s
  proof (cases att)
    case (BitcoinBlockHeaderAttestation h)
    with b [of j h msg] show ?thesis by (auto simp: verify_item_def is_ok_iff Let_def)
  qed (simp_all add: verify_item_def)
  then show ?thesis
  proof (induction items arbitrary: k st)
    case (Cons item items)
    then obtain st1 where "verify_item headers k item st = Ok st1" by (metis is_ok_iff prod.exhaust)
    with Cons.IH [OF Cons.prems] show ?case by simp
  qed simp
qed

definition sample_headers :: HeaderSource where
  "sample_headers k h = Ok \<lparr>bh_Height = h, bh_Hash = ''00ab'', bh_MerkleRoot = replicate 32 7, bh_Time = 1231006505\<rparr>"

definition sample_opts :: Options where
  "sample_opts = \<lparr>o_Upgrader = None, o_Headers = Some sample_headers\<rparr>"

lemma sample_verify:
  "\<exists>res. VerifyProof const_hashes sample_opts sample_ts [1] = (sample_ts, Ok res) \<and> r_Valid res \<and>
     r_BlockHeight res = 358391"
  by (simp add: VerifyProof_def VerifyDigest_def sample_opts_def sample_ts_def verify_item_def
      verifyBitcoin_def sample_headers_def conclude_def zero_Result_def Let_def add_info_def)

theorem VerifyProof_sound_witness:
  "\<exists>header xs. sample_headers 0 358391 = Ok header \<and> apply_ops const_hashes xs [1] = Ok (bh_MerkleRoot header)"
proof -
  obtain res where v: "VerifyProof const_hashes sample_opts sample_ts [1] = (sample_ts, Ok res)"
    and res: "r_Valid res" "r_BlockHeight res = 358391"
    using sample_verify by blast
  have "upgrader const_hashes up" if "o_Upgrader sample_opts = Some up" for up
    using that by (simp add: sample_opts_def)
  from VerifyProof_sound [OF sample_ts_ok(1) this v res(1)] res(2) show ?thesis
    by (auto simp: sample_headers_def sample_opts_def)
qed

lemma VerifyProof_outcome:
  assumes "linked H proof" and "ts_Msg proof = digest"
    and "\<And>up. o_Upgrader opts = Some up \<Longrightarrow> upgrader H up \<and> (\<forall>k uri c. \<not> is_panic (up k uri c))"
    and hd: "\<forall>src k h. o_Headers opts = Some src \<longrightarrow> \<not> is_panic (src k h)"
  shows "\<exists>proof' res. VerifyProof H opts proof digest = (proof', Ok res) \<and>
    (let items = AllAttestations proof'; conf = confirmations (o_Headers opts) 0 items in
     (r_Valid res \<longleftrightarrow> conf \<noteq> []) \<and> (o_Headers opts = None \<longrightarrow> \<not> r_Valid res) \<and>
     length (r_Attestations res) = length items \<and>
     r_Status res =
       (if items = [] then StatusInvalid else if conf \<noteq> [] then StatusConfirmed
        else if contradiction (o_Headers opts) 0 items then StatusInvalid
        else if list_ex is_pending items then StatusPending else StatusUnverified))"
proof -
  let ?st0 = "\<lparr>ls_result = zero_Result, ls_sawPending = False, ls_sawInvalid = False\<rparr>"
  obtain proof' where up: "(case o_Upgrader opts of None \<Rightarrow> (proof, Ok ()) | Some up \<Rightarrow> upgradePending H up proof) =
      (proof', Ok ())"
  proof (cases "o_Upgrader opts")
    case (Some up)
    obtain p r where pr: "Upgrade H up proof = (p, r)" by fastforce
    have "is_ok r" using upgrader.Upgrade_keeps(6) [of H up "proof" p r] assms(1,3) Some pr by blast
    with pr Some that [of p] show ?thesis by (auto simp: upgradePending_def is_ok_iff)
  qed (use that in simp)
  obtain st where st: "verify_loop (o_Headers opts) 0 (AllAttestations proof') ?st0 = Ok st"
    using verify_loop_no_panic [of "o_Headers opts" 0 "AllAttestations proof'" ?st0] hd by (auto simp: is_ok_iff)
  have v: "VerifyProof H opts proof digest = (proof', Ok (conclude st))"
    using up st assms(2) by (simp add: VerifyProof_def VerifyDigest_def)
  have none: "confirmations None k items = []" for k items
    by (induction items arbitrary: k) (auto simp: confirms_def split: prod.splits)
  note c = conclude_verdict [OF loop_start [OF st]]
  have "length (AllAttestations proof') \<noteq> 0 \<or> confirmations (o_Headers opts) 0 (AllAttestations proof') = []"
    by (cases "AllAttestations proof'") simp_all
  note c = c [OF this]
  show ?thesis using v c none [of 0 "AllAttestations proof'"] by (simp add: Let_def)
qed

text \<open>
  C14. The verdict. With a calendar client that keeps its contract, and no panicking source, a proof on
  the given digest gets a result with one entry per attestation of the upgraded proof; it is valid
  exactly if a header confirms one of them, never without a header source, and the status is decided in
  this order: no attestations, confirmed, contradicted by a header, pending, unverified.
\<close>

theorem VerifyProof_verdict:
  assumes "linked H proof" and "ts_Msg proof = digest"
    and "\<And>up. o_Upgrader opts = Some up \<Longrightarrow> upgrader H up \<and> (\<forall>k uri c. \<not> is_panic (up k uri c))"
    and "\<And>src k h. o_Headers opts = Some src \<Longrightarrow> \<not> is_panic (src k h)"
  shows "\<exists>proof' res. VerifyProof H opts proof digest = (proof', Ok res) \<and>
    (let items = AllAttestations proof'; conf = confirmations (o_Headers opts) 0 items in
     (r_Valid res \<longleftrightarrow> conf \<noteq> []) \<and> (o_Headers opts = None \<longrightarrow> \<not> r_Valid res) \<and>
     length (r_Attestations res) = length items \<and>
     r_Status res =
       (if items = [] then StatusInvalid else if conf \<noteq> [] then StatusConfirmed
        else if contradiction (o_Headers opts) 0 items then StatusInvalid
        else if list_ex is_pending items then StatusPending else StatusUnverified))"
  using VerifyProof_outcome [OF assms(1-3)] assms(4) by blast

theorem VerifyProof_verdict_witness:
  "\<exists>res. snd (VerifyProof const_hashes \<lparr>o_Upgrader = None, o_Headers = None\<rparr> sample_ts [1]) = Ok res \<and> \<not> r_Valid res"
proof -
  have "ts_Msg sample_ts = [1]" by (simp add: sample_ts_def)
  from VerifyProof_verdict [OF sample_ts_ok(1) this, of "\<lparr>o_Upgrader = None, o_Headers = None\<rparr>"]
  show ?thesis by (auto simp: Let_def)
qed

text \<open>
  Digest binding. A proof on another digest is refused as invalid, without calling the calendar or
  the header source and without changing the proof; and a file is only valid if its SHA-256 digest is
  the message of the proof.
\<close>

theorem verify_binds_digest:
  "(ts_Msg proof \<noteq> digest \<longrightarrow>
      VerifyProof H opts proof digest = (proof, Ok (refuse ''proof root does not match digest''))) \<and>
   (snd (VerifyDetached H opts file proof) = Ok res \<and> r_Valid res \<longrightarrow>
      SHA256_HashReader H file = Ok (ts_Msg proof))"
  by (auto simp: VerifyProof_def VerifyDigest_def VerifyDetached_def refuse_def zero_Result_def
      split: result.splits if_splits)

text \<open>
  C15. Upgrading with a client that keeps its contract never fails (a panic of the client aside), keeps
  the proof linked and on its message, keeps every attestation, adds only attestations of answers for
  pending commitments of the proof, and reports a change exactly if the proof changed.
\<close>

theorem Upgrade_correct:
  assumes "upgrader H up" and "linked H ts" and "Upgrade H up ts = (ts', r)"
  shows "linked H ts' \<and> ts_Msg ts' = ts_Msg ts \<and>
    set (AllAttestations ts) \<subseteq> set (AllAttestations ts') \<and>
    set (AllAttestations ts') \<subseteq> set (AllAttestations ts) \<union> answers up (AllAttestations ts) \<and>
    (\<forall>b. r = Ok b \<longrightarrow> b = (ts' \<noteq> ts)) \<and> (is_ok r \<or> (\<exists>k uri c. is_panic (up k uri c)))"
  using upgrader.Upgrade_keeps [OF assms] by blast

definition sample_up :: Upgrader where
  "sample_up k uri c = (if length c \<le> 32 then Ok (Timestamp c [BitcoinBlockHeaderAttestation 7] []) else Err TrailingGarbageError)"

lemma sample_up_ok: "upgrader H sample_up"
  by unfold_locales (auto simp: sample_up_def stamp_ok_def recursionLimit_def MaxMsgLength_def split: if_splits)

theorem Upgrade_correct_witness:
  "snd (Upgrade const_hashes sample_up sample_ts) = Ok True \<and>
   fst (Upgrade const_hashes sample_up sample_ts) \<noteq> sample_ts"
proof -
  have ok: "snd (Upgrade const_hashes sample_up sample_ts) = Ok True" by code_simp
  then have "Upgrade const_hashes sample_up sample_ts = (fst (Upgrade const_hashes sample_up sample_ts), Ok True)"
    by (metis prod.collapse)
  from Upgrade_correct [OF sample_up_ok sample_ts_ok(1) this] ok show ?thesis by blast
qed

lemma IsComplete_iff:
  "IsComplete t \<longleftrightarrow> (\<exists>m h. (m, BitcoinBlockHeaderAttestation h) \<in> set (AllAttestations t))"
proof
  assume "IsComplete t"
  then obtain m a where "(m, a) \<in> set (AllAttestations t)"
    and "case a of BitcoinBlockHeaderAttestation _ \<Rightarrow> True | _ \<Rightarrow> False"
    by (auto simp: IsComplete_def list_ex_iff)
  then show "\<exists>m h. (m, BitcoinBlockHeaderAttestation h) \<in> set (AllAttestations t)" by (cases a) auto
next
  assume "\<exists>m h. (m, BitcoinBlockHeaderAttestation h) \<in> set (AllAttestations t)"
  then obtain m h where "(m, BitcoinBlockHeaderAttestation h) \<in> set (AllAttestations t)" by blast
  then show "IsComplete t" unfolding IsComplete_def list_ex_iff by (rule bexI [rotated]) simp
qed

lemma sorted_first_Min: "sorted xs \<Longrightarrow> xs \<noteq> [] \<Longrightarrow> xs ! 0 = Min (set xs)"
  by (cases xs) (auto intro!: Min_eqI [symmetric])

lemma parse_loop_eq:
  "parse_loop items uris heights =
     (uris @ concat (map (\<lambda>(m, a). case a of PendingAttestation u \<Rightarrow> [u] | _ \<Rightarrow> []) items),
      heights @ concat (map (\<lambda>(m, a). case a of BitcoinBlockHeaderAttestation h \<Rightarrow> [h] | _ \<Rightarrow> []) items))"
  by (induction items uris heights rule: parse_loop.induct) (auto split: attestation.splits)

text \<open>
  \<open>ParseProof\<close> fails exactly on another digest; otherwise it lists the Bitcoin heights of the proof
  in ascending order, with the least as the block height, is complete exactly as \<open>IsComplete\<close> says, and
  lists the pending URIs in the order of the proof.
\<close>

theorem ParseProof_correct:
  "(is_ok (ParseProof proof digest) \<longleftrightarrow> ts_Msg proof = digest) \<and>
   (ParseProof proof digest = Ok res \<longrightarrow>
      sorted (pr_BlockHeights res) \<and>
      set (pr_BlockHeights res) = {h. \<exists>m. (m, BitcoinBlockHeaderAttestation h) \<in> set (AllAttestations proof)} \<and>
      pr_Complete res = IsComplete proof \<and>
      (pr_Complete res \<longrightarrow> pr_BlockHeight res = Min (set (pr_BlockHeights res))) \<and>
      set (pr_PendingURIs res) = {u. \<exists>m. (m, PendingAttestation u) \<in> set (AllAttestations proof)})"
proof (intro conjI impI)
  let ?uris = "concat (map (\<lambda>(m, a). case a of PendingAttestation u \<Rightarrow> [u] | _ \<Rightarrow> []) (AllAttestations proof))"
  let ?hs = "concat (map (\<lambda>(m, a). case a of BitcoinBlockHeaderAttestation h \<Rightarrow> [h] | _ \<Rightarrow> []) (AllAttestations proof))"
  show "is_ok (ParseProof proof digest) \<longleftrightarrow> ts_Msg proof = digest"
    by (auto simp: ParseProof_def VerifyDigest_def parse_loop_eq Let_def)
  assume "ParseProof proof digest = Ok res"
  then have res: "pr_PendingURIs res = ?uris" "pr_BlockHeights res = sort ?hs" "pr_Complete res = (?hs \<noteq> [])"
    "?hs \<noteq> [] \<Longrightarrow> pr_BlockHeight res = sort ?hs ! 0"
    by (auto simp: ParseProof_def VerifyDigest_def parse_loop_eq Let_def simp del: concat_eq_Nil_conv split: if_splits)
  have hs: "h \<in> set ?hs \<longleftrightarrow> (\<exists>m. (m, BitcoinBlockHeaderAttestation h) \<in> set (AllAttestations proof))" for h
    by (auto split: attestation.splits)
  show "sorted (pr_BlockHeights res)" by (simp add: res)
  show "set (pr_BlockHeights res) = {h. \<exists>m. (m, BitcoinBlockHeaderAttestation h) \<in> set (AllAttestations proof)}"
    using hs by (simp only: res set_sort) blast
  show "pr_Complete res = IsComplete proof"
  proof -
    have "?hs \<noteq> [] \<longleftrightarrow> (\<exists>h. h \<in> set ?hs)" by (metis last_in_set list.set(1) empty_iff)
    also have "\<dots> \<longleftrightarrow> IsComplete proof"
      unfolding hs IsComplete_iff by blast
    finally show ?thesis by (simp only: res(3))
  qed
  show "pr_BlockHeight res = Min (set (pr_BlockHeights res))" if "pr_Complete res"
  proof -
    have "?hs \<noteq> []" using that res(3) by simp
    moreover from this have "sort ?hs ! 0 = Min (set (sort ?hs))"
      by (intro sorted_first_Min) (simp_all only: sort_key_Nil_iff sorted_sort not_False_eq_True)
    ultimately show ?thesis using res by (simp only: not_False_eq_True)
  qed
  show "set (pr_PendingURIs res) = {u. \<exists>m. (m, PendingAttestation u) \<in> set (AllAttestations proof)}"
    unfolding res by (auto split: attestation.splits)
qed

end
