(* ===== verification/Builder.thy ===== *)
theory Builder
  imports Verify
begin

text \<open>
  The functions of \<^verbatim>\<open>internal/core/timestamp/timestamp.go\<close> that build shared structure, on an
  explicit store. A store is the list of the allocated \<open>Timestamp\<close> structs, a pointer is a position
  in it; \<open>nil\<close> is \<open>None\<close> where the code tests for it. A call returns the store after it, also when it
  fails, since the updates made before an error stay.
\<close>

section \<open>The store\<close>

record Node =
  n_Msg :: bytes
  n_Attestations :: "attestation list"
  n_Ops :: "(op \<times> nat) list"

type_synonym store = "Node list"

definition fresh_node :: "bytes \<Rightarrow> Node" where
  "fresh_node msg = \<lparr>n_Msg = msg, n_Attestations = [], n_Ops = []\<rparr>"

definition heap_New :: "store \<Rightarrow> bytes \<Rightarrow> store \<times> nat result" where
  "heap_New h msg =
     (if length msg > MaxMsgLength then
        (h, Err (ErrorString (''message exceeds op length limit; '' @ dec_nat (length msg) @ '' > '' @
               dec_nat MaxMsgLength)))
      else (h @ [fresh_node msg], Ok (length h)))"

fun find_ptr :: "(op \<times> nat) list \<Rightarrow> op \<Rightarrow> nat option" where
  "find_ptr [] x = None"
| "find_ptr ((y, b) # ops) x = (if op_Equal y x then Some 0 else map_option Suc (find_ptr ops x))"

definition heap_AddOp :: "hashes \<Rightarrow> store \<Rightarrow> nat \<Rightarrow> op \<Rightarrow> store \<times> nat result" where
  "heap_AddOp H h t x =
     (case op_Apply H x (n_Msg (h ! t)) of
        Panic p \<Rightarrow> (h, Panic p)
      | Err e \<Rightarrow> (h, Err e)
      | Ok r \<Rightarrow>
          (case heap_New h r of
             (h1, Ok child) \<Rightarrow>
               (case find_ptr (n_Ops (h1 ! t)) x of
                  Some i \<Rightarrow> (h1, Ok (snd (n_Ops (h1 ! t) ! i)))
                | None \<Rightarrow> (h1[t := (h1 ! t)\<lparr>n_Ops := n_Ops (h1 ! t) @ [(x, child)]\<rparr>], Ok child))
           | (h1, Err e) \<Rightarrow> (h1, Err e)
           | (h1, Panic p) \<Rightarrow> (h1, Panic p)))"

definition SetOpResult :: "store \<Rightarrow> nat \<Rightarrow> op \<Rightarrow> nat \<Rightarrow> store \<times> unit result" where
  "SetOpResult h t x stamp =
     (case find_ptr (n_Ops (h ! t)) x of
        None \<Rightarrow> (h, Err (ErrorString ''operation not found''))
      | Some i \<Rightarrow>
          if n_Msg (h ! snd (n_Ops (h ! t) ! i)) \<noteq> n_Msg (h ! stamp) then
            (h, Err (ErrorString
              ''can't change existing result timestamp: timestamps are for different messages''))
          else (h[t := (h ! t)\<lparr>n_Ops := (n_Ops (h ! t))[i := (fst (n_Ops (h ! t) ! i), stamp)]\<rparr>], Ok ()))"

text \<open>
  \<open>Equal\<close> follows pointers and compares nodes. Its recursion returns on an acyclic structure; on a
  cyclic one the call stack overflows. A descent through more nodes than the store has repeats a node,
  so \<open>length h\<close> bounds the depth at which it returns, and running past it is the overflow.
\<close>

fun heap_Equal :: "nat \<Rightarrow> store \<Rightarrow> nat \<Rightarrow> nat \<Rightarrow> bool result"
  and heap_Equal_ops :: "nat \<Rightarrow> store \<Rightarrow> (op \<times> nat) list \<Rightarrow> nat \<Rightarrow> bool result"
where
  "heap_Equal 0 h a b = Panic ''stack overflow''"
| "heap_Equal (Suc n) h a b =
     (if n_Msg (h ! a) \<noteq> n_Msg (h ! b) \<or>
         length (n_Attestations (h ! a)) \<noteq> length (n_Attestations (h ! b)) \<or>
         length (n_Ops (h ! a)) \<noteq> length (n_Ops (h ! b)) then Ok False
      else if \<not> list_all (\<lambda>att. list_ex (\<lambda>c. att_Equal c att) (n_Attestations (h ! b))) (n_Attestations (h ! a))
      then Ok False
      else heap_Equal_ops n h (n_Ops (h ! a)) b)"
| "heap_Equal_ops n h [] b = Ok True"
| "heap_Equal_ops n h ((x, c) # ops) b =
     (case find_ptr (n_Ops (h ! b)) x of
        None \<Rightarrow> Ok False
      | Some i \<Rightarrow> andThen (heap_Equal n h c (snd (n_Ops (h ! b) ! i)))
          (\<lambda>e. if e then heap_Equal_ops n h ops b else Ok False))"

section \<open>Combining\<close>

text \<open>Sequencing of calls that return the store.\<close>

definition thenS :: "store \<times> 'a result \<Rightarrow> (store \<Rightarrow> 'a \<Rightarrow> store \<times> 'b result) \<Rightarrow> store \<times> 'b result" where
  "thenS m f = (case m of (h, Ok x) \<Rightarrow> f h x | (h, Err e) \<Rightarrow> (h, Err e) | (h, Panic p) \<Rightarrow> (h, Panic p))"

text \<open>\<open>NonceTimestamp\<close>, given what \<open>rand.Read\<close> returned: the nonce of the requested length or an error.\<close>

definition NonceTimestamp :: "hashes \<Rightarrow> store \<Rightarrow> nat \<Rightarrow> bytes result \<Rightarrow> store \<times> nat result" where
  "NonceTimestamp H h private rand =
     thenS (h, rand) (\<lambda>h nonce.
     thenS (h, NewAppend nonce) (\<lambda>h appendOp.
     thenS (heap_AddOp H h private appendOp) (\<lambda>h stamp2.
     heap_AddOp H h stamp2 NewSHA256)))"

definition or_empty :: "store \<Rightarrow> nat option \<Rightarrow> store \<times> nat result" where
  "or_empty h p = (case p of None \<Rightarrow> heap_New h [] | Some a \<Rightarrow> (h, Ok a))"

definition CatThenUnaryOp :: "hashes \<Rightarrow> store \<Rightarrow> op \<Rightarrow> nat option \<Rightarrow> nat option \<Rightarrow> store \<times> nat result" where
  "CatThenUnaryOp H h unary left0 right0 =
     thenS (or_empty h left0) (\<lambda>h left.
     thenS (or_empty h right0) (\<lambda>h right.
     thenS (h, NewAppend (n_Msg (h ! right))) (\<lambda>h appendOp.
     thenS (heap_AddOp H h left appendOp) (\<lambda>h leftAppend.
     thenS (h, NewPrepend (n_Msg (h ! left))) (\<lambda>h prependOp.
     thenS (heap_AddOp H h right prependOp) (\<lambda>h rightPrepend.
     thenS (h, heap_Equal (length h) h leftAppend rightPrepend) (\<lambda>h eq.
     if \<not> eq then (h, Err (ErrorString ''append/prepend paths diverged''))
     else
       thenS (SetOpResult h left appendOp rightPrepend) (\<lambda>h _.
       heap_AddOp H h rightPrepend unary))))))))"

definition CatSHA256 :: "hashes \<Rightarrow> store \<Rightarrow> nat option \<Rightarrow> nat option \<Rightarrow> store \<times> nat result" where
  "CatSHA256 H h left right = CatThenUnaryOp H h NewSHA256 left right"

definition CatSHA256d :: "hashes \<Rightarrow> store \<Rightarrow> nat option \<Rightarrow> nat option \<Rightarrow> store \<times> nat result" where
  "CatSHA256d H h left right =
     thenS (CatSHA256 H h left right) (\<lambda>h once. heap_AddOp H h once NewSHA256)"

section \<open>The merkle tree\<close>

text \<open>One pass of the inner loop, from the pending \<open>prev\<close>, over the rest of \<open>current\<close>.\<close>

fun merkle_pass :: "hashes \<Rightarrow> store \<Rightarrow> nat option \<Rightarrow> nat list \<Rightarrow> nat list \<Rightarrow> store \<times> (nat option \<times> nat list) result"
where
  "merkle_pass H h prev [] next = (h, Ok (prev, next))"
| "merkle_pass H h None (x # xs) next = merkle_pass H h (Some x) xs next"
| "merkle_pass H h (Some p) (x # xs) next =
     (case CatSHA256 H h (Some p) (Some x) of
        (h', Ok pair) \<Rightarrow> merkle_pass H h' None xs (next @ [pair])
      | (h', Err e) \<Rightarrow> (h', Err e)
      | (h', Panic q) \<Rightarrow> (h', Panic q))"

lemma merkle_pass_length:
  "merkle_pass H h prev xs next = (h', Ok (prev', next')) \<Longrightarrow>
   2 * length next' + (case prev' of None \<Rightarrow> 0 | Some _ \<Rightarrow> 1) =
   2 * length next + (case prev of None \<Rightarrow> 0 | Some _ \<Rightarrow> 1) + length xs"
  by (induction H h prev xs "next" rule: merkle_pass.induct) (auto split: prod.splits result.splits)

lemma merkle_pass_shrinks:
  "merkle_pass H h None xs [] = (h', Ok (prev, next)) \<Longrightarrow> next \<noteq> [] \<Longrightarrow>
   length (next @ (case prev of None \<Rightarrow> [] | Some p \<Rightarrow> [p])) < length xs"
  using merkle_pass_length [of H h None xs "[]" h' prev "next"] by (cases "next") (auto split: option.splits)

function merkle_loop :: "hashes \<Rightarrow> store \<Rightarrow> nat list \<Rightarrow> store \<times> nat option result" where
  "merkle_loop H h current =
     (case merkle_pass H h None current [] of
        (h', Ok (prev, next)) \<Rightarrow>
          if length next = 0 then (h', Ok prev)
          else merkle_loop H h' (next @ (case prev of None \<Rightarrow> [] | Some p \<Rightarrow> [p]))
      | (h', Err e) \<Rightarrow> (h', Err e)
      | (h', Panic q) \<Rightarrow> (h', Panic q))"
  by pat_completeness auto
termination
proof (relation "measure (\<lambda>(H, h, current). length current)", goal_cases)
  case (2 H h current h' res y prev "next")
  then have "merkle_pass H h None current [] = (h', Ok (prev, next))" by simp
  from merkle_pass_shrinks [OF this] 2 show ?case by simp
qed simp

declare merkle_loop.simps [simp del]

text \<open>The pointer returned is nil only when \<open>current\<close> is empty, which the first test excludes.\<close>

definition MakeMerkleTree :: "hashes \<Rightarrow> store \<Rightarrow> nat list \<Rightarrow> store \<times> nat option result" where
  "MakeMerkleTree H h stamps =
     (if length stamps = 0 then (h, Err (ErrorString ''need at least one timestamp''))
      else merkle_loop H h stamps)"

section \<open>Well-formed stores\<close>

definition edge_ok :: "hashes \<Rightarrow> store \<Rightarrow> Node \<Rightarrow> op \<times> nat \<Rightarrow> bool" where
  "edge_ok H h n e \<longleftrightarrow> snd e < length h \<and> op_ok (fst e) \<and> op_Apply H (fst e) (n_Msg n) = Ok (n_Msg (h ! snd e))"

definition store_ok :: "hashes \<Rightarrow> store \<Rightarrow> bool" where
  "store_ok H h \<longleftrightarrow> (\<forall>n \<in> set h. length (n_Msg n) \<le> MaxMsgLength \<and> (\<forall>e \<in> set (n_Ops n). edge_ok H h n e))"

text \<open>A later store: nodes keep their messages, attestations and links, and may gain links.\<close>

definition extends :: "store \<Rightarrow> store \<Rightarrow> bool" where
  "extends h h' \<longleftrightarrow> length h \<le> length h' \<and>
     (\<forall>a < length h. n_Msg (h' ! a) = n_Msg (h ! a) \<and> n_Attestations (h' ! a) = n_Attestations (h ! a) \<and>
        set (n_Ops (h ! a)) \<subseteq> set (n_Ops (h' ! a)))"

lemma extends_refl [simp]: "extends h h"
  by (simp add: extends_def)

lemma extendsD:
  "extends h h' \<Longrightarrow> a < length h \<Longrightarrow> a < length h' \<and> n_Msg (h' ! a) = n_Msg (h ! a) \<and>
     n_Attestations (h' ! a) = n_Attestations (h ! a) \<and> set (n_Ops (h ! a)) \<subseteq> set (n_Ops (h' ! a))"
  by (simp add: extends_def)

lemma extends_trans: "extends h h' \<Longrightarrow> extends h' h'' \<Longrightarrow> extends h h''"
proof -
  assume a: "extends h h'" and b: "extends h' h''"
  have "n_Msg (h'' ! i) = n_Msg (h ! i) \<and> n_Attestations (h'' ! i) = n_Attestations (h ! i) \<and>
      set (n_Ops (h ! i)) \<subseteq> set (n_Ops (h'' ! i))" if "i < length h" for i
    using extendsD [OF a that] extendsD [OF b, of i] by auto
  with a b show ?thesis by (simp add: extends_def)
qed

lemma extends_msg: "extends h h' \<Longrightarrow> a < length h \<Longrightarrow> n_Msg (h' ! a) = n_Msg (h ! a)"
  by (simp add: extends_def)

lemma extends_length: "extends h h' \<Longrightarrow> a < length h \<Longrightarrow> a < length h'"
  by (simp add: extends_def)

text \<open>Paths: the operations on a way from one node to another.\<close>

inductive reach :: "store \<Rightarrow> nat \<Rightarrow> op list \<Rightarrow> nat \<Rightarrow> bool" for h where
  reach_refl: "a < length h \<Longrightarrow> reach h a [] a"
| reach_step: "a < length h \<Longrightarrow> (x, b) \<in> set (n_Ops (h ! a)) \<Longrightarrow> reach h b xs c \<Longrightarrow> reach h a (x # xs) c"

inductive_cases reach_ConsE: "reach h a (x # xs) c"
inductive_cases reach_NilE: "reach h a [] c"

lemma reach_trans: "reach h a xs b \<Longrightarrow> reach h b ys c \<Longrightarrow> reach h a (xs @ ys) c"
  by (induction rule: reach.induct) (auto intro: reach.intros)

lemma reach_extends: "reach h a xs b \<Longrightarrow> extends h h' \<Longrightarrow> reach h' a xs b"
proof (induction rule: reach.induct)
  case (reach_step a x b xs c)
  then have "(x, b) \<in> set (n_Ops (h' ! a))" "a < length h'" by (auto simp: extends_def)
  with reach_step show ?case by (blast intro: reach.intros)
qed (auto simp: extends_def intro: reach.intros)

lemma reach_apply_ops:
  "reach h a xs b \<Longrightarrow> store_ok H h \<Longrightarrow> list_all op_ok xs \<and> apply_ops H xs (n_Msg (h ! a)) = Ok (n_Msg (h ! b))"
proof (induction rule: reach.induct)
  case (reach_step a x b xs c)
  then have "edge_ok H h (h ! a) (x, b)" by (auto simp: store_ok_def)
  with reach_step show ?case by (simp add: edge_ok_def)
qed simp

section \<open>Adding operations\<close>

lemma find_ptr_None: "find_ptr ops x = None \<longleftrightarrow> x \<notin> fst ` set ops"
  by (induction ops x rule: find_ptr.induct) auto

lemma find_ptr_Some: "find_ptr ops x = Some i \<Longrightarrow> i < length ops \<and> fst (ops ! i) = x"
  by (induction ops x arbitrary: i rule: find_ptr.induct) (auto split: if_splits)

lemma edge_ok_append: "edge_ok H h n e \<Longrightarrow> edge_ok H (h @ k) n e"
  by (auto simp: edge_ok_def nth_append)

lemma edge_ok_update: "n_Msg m = n_Msg (h ! t) \<Longrightarrow> edge_ok H (h[t := m]) n e \<longleftrightarrow> edge_ok H h n e"
  by (cases "t < length h") (auto simp: edge_ok_def nth_list_update)

lemma edge_ok_msg: "n_Msg n = n_Msg n' \<Longrightarrow> edge_ok H h n e \<longleftrightarrow> edge_ok H h n' e"
  by (simp add: edge_ok_def)

lemma store_ok_alloc: "store_ok H h \<Longrightarrow> length msg \<le> MaxMsgLength \<Longrightarrow> store_ok H (h @ [fresh_node msg])"
  by (auto simp: store_ok_def fresh_node_def intro: edge_ok_append)

lemma store_ok_update:
  assumes "store_ok H h" and "t < length h" and "\<forall>e \<in> set ops. edge_ok H h (h ! t) e"
  shows "store_ok H (h[t := (h ! t)\<lparr>n_Ops := ops\<rparr>])"
  unfolding store_ok_def
proof (intro ballI)
  fix n assume "n \<in> set (h[t := (h ! t)\<lparr>n_Ops := ops\<rparr>])"
  then consider "n \<in> set h" | "n = (h ! t)\<lparr>n_Ops := ops\<rparr>" using set_update_subset_insert by fastforce
  then show "length (n_Msg n) \<le> MaxMsgLength \<and> (\<forall>e \<in> set (n_Ops n). edge_ok H (h[t := (h ! t)\<lparr>n_Ops := ops\<rparr>]) n e)"
  proof cases
    case 1
    with assms(1) show ?thesis by (simp add: store_ok_def edge_ok_update)
  next
    case 2
    with assms show ?thesis
      by (auto simp: store_ok_def edge_ok_update edge_ok_msg [of "(h ! t)\<lparr>n_Ops := ops\<rparr>" "h ! t"])
  qed
qed

lemma heap_New_eq: "length msg \<le> MaxMsgLength \<Longrightarrow> heap_New h msg = (h @ [fresh_node msg], Ok (length h))"
  by (simp add: heap_New_def)

lemma op_result_length: "op_Apply H x m = Ok r \<Longrightarrow> length r \<le> MaxMsgLength"
  by (auto dest: op_Apply_OkD simp: MaxResultLength_def MaxMsgLength_def)

lemma heap_AddOp_fresh:
  assumes "t < length h" and "x \<notin> fst ` set (n_Ops (h ! t))" and "op_Apply H x (n_Msg (h ! t)) = Ok r"
  shows "heap_AddOp H h t x =
    (h[t := (h ! t)\<lparr>n_Ops := n_Ops (h ! t) @ [(x, length h)]\<rparr>] @ [fresh_node r], Ok (length h))"
proof -
  from assms(2) have "find_ptr (n_Ops (h ! t)) x = None" by (simp add: find_ptr_None)
  then show ?thesis using assms op_result_length [OF assms(3)]
    by (simp add: heap_AddOp_def heap_New_eq nth_append list_update_append)
qed

lemma heap_AddOp_ok:
  assumes h: "store_ok H h" and t: "t < length h" and x: "op_ok x" and r: "heap_AddOp H h t x = (h', res)"
  shows "store_ok H h' \<and> extends h h' \<and> \<not> is_panic res \<and>
    (\<forall>a. res = Ok a \<longrightarrow> a < length h' \<and> (x, a) \<in> set (n_Ops (h' ! t)) \<and> op_Apply H x (n_Msg (h ! t)) = Ok (n_Msg (h' ! a)))"
proof (cases "op_Apply H x (n_Msg (h ! t))")
  case (Ok m)
  let ?h1 = "h @ [fresh_node m]"
  note m = op_result_length [OF Ok]
  have h1: "store_ok H ?h1" using h m by (rule store_ok_alloc)
  have e1: "extends h ?h1" by (simp add: extends_def nth_append)
  show ?thesis
  proof (cases "find_ptr (n_Ops (h ! t)) x")
    case (Some i)
    then have i: "i < length (n_Ops (h ! t))" "fst (n_Ops (h ! t) ! i) = x" using find_ptr_Some by auto
    then have mem: "(x, snd (n_Ops (h ! t) ! i)) \<in> set (n_Ops (h ! t))" by (metis nth_mem prod.collapse)
    then have "edge_ok H h (h ! t) (x, snd (n_Ops (h ! t) ! i))" using h t by (auto simp: store_ok_def)
    then show ?thesis using r Ok Some m h1 e1 t mem
      by (auto simp: heap_AddOp_def heap_New_eq nth_append edge_ok_def)
  next
    case None
    let ?ops = "n_Ops (h ! t) @ [(x, length h)]"
    from None have h': "h' = ?h1[t := (?h1 ! t)\<lparr>n_Ops := ?ops\<rparr>]" and res: "res = Ok (length h)"
      using r Ok m t by (simp_all add: heap_AddOp_def heap_New_eq nth_append)
    have "\<forall>e \<in> set ?ops. edge_ok H ?h1 (?h1 ! t) e"
      using h t x Ok by (auto simp: store_ok_def nth_append edge_ok_append) (simp add: edge_ok_def fresh_node_def)
    then have "store_ok H h'" unfolding h' using h1 t by (intro store_ok_update) simp_all
    moreover have "extends h h'" using t by (auto simp: h' extends_def nth_list_update nth_append)
    ultimately show ?thesis using res t Ok by (simp add: h' nth_list_update nth_append fresh_node_def)
  qed
qed (use r h op_Apply_no_panic [of H x "n_Msg (h ! t)"] in \<open>auto simp: heap_AddOp_def\<close>)

lemma SetOpResult_ok:
  assumes "store_ok H h" and "t < length h" and "stamp < length h" and "SetOpResult h t x stamp = (h', res)"
  shows "store_ok H h' \<and> length h' = length h \<and> \<not> is_panic res"
proof (cases "find_ptr (n_Ops (h ! t)) x")
  case None
  with assms show ?thesis by (auto simp: SetOpResult_def)
next
  case (Some i)
  then have i: "i < length (n_Ops (h ! t))" using find_ptr_Some by auto
  let ?ops = "(n_Ops (h ! t))[i := (fst (n_Ops (h ! t) ! i), stamp)]"
  show ?thesis
  proof (cases "n_Msg (h ! snd (n_Ops (h ! t) ! i)) = n_Msg (h ! stamp)")
    case True
    have old: "edge_ok H h (h ! t) e" if "e \<in> set (n_Ops (h ! t))" for e
      using that assms(1,2) by (auto simp: store_ok_def)
    have "edge_ok H h (h ! t) (fst (n_Ops (h ! t) ! i), stamp)"
      using old [OF nth_mem [OF i]] assms(3) True by (simp add: edge_ok_def)
    then have "\<forall>e \<in> set ?ops. edge_ok H h (h ! t) e"
      using old set_update_subset_insert [of "n_Ops (h ! t)" i] by blast
    from store_ok_update [OF assms(1,2) this] True Some assms(4) show ?thesis
      by (auto simp: SetOpResult_def)
  qed (use assms Some in \<open>auto simp: SetOpResult_def\<close>)
qed

section \<open>Concatenating\<close>

lemma thenS_simps [simp]:
  "thenS (h, Ok x) f = f h x" "thenS (h, Err e) f = (h, Err e)" "thenS (h, Panic p) f = (h, Panic p)"
  by (simp_all add: thenS_def)

text \<open>
  The store after \<open>CatSHA256\<close> of two nodes without operations: the first of the three new nodes is left
  unused, the second is the concatenation, reached from both nodes, the third its digest.
\<close>

definition cat_store :: "hashes \<Rightarrow> store \<Rightarrow> nat \<Rightarrow> nat \<Rightarrow> store" where
  "cat_store H h l r =
     (let n = length h; ml = n_Msg (h ! l); mr = n_Msg (h ! r);
          left = [(AppendOp mr, n + 1)]; right = [(PrependOp ml, n + 1)]
      in (if l = r then h[l := (h ! l)\<lparr>n_Ops := left @ right\<rparr>]
          else h[l := (h ! l)\<lparr>n_Ops := left\<rparr>, r := (h ! r)\<lparr>n_Ops := right\<rparr>]) @
         [fresh_node (ml @ mr), (fresh_node (ml @ mr))\<lparr>n_Ops := [(SHA256Op, n + 2)]\<rparr>,
          fresh_node (sha256_Sum256 H (ml @ mr))])"

definition cat_fits :: "store \<Rightarrow> nat \<Rightarrow> nat \<Rightarrow> bool" where
  "cat_fits h l r \<longleftrightarrow> l < length h \<and> r < length h \<and> n_Ops (h ! l) = [] \<and> n_Ops (h ! r) = [] \<and>
     0 < length (n_Msg (h ! l)) \<and> 0 < length (n_Msg (h ! r)) \<and>
     length (n_Msg (h ! l)) + length (n_Msg (h ! r)) \<le> MaxMsgLength"

lemma fresh_node_sel [simp]:
  "n_Msg (fresh_node m) = m" "n_Attestations (fresh_node m) = []" "n_Ops (fresh_node m) = []"
  by (simp_all add: fresh_node_def)

lemma heap_Equal_fresh:
  "n_Msg (h ! a) = n_Msg (h ! b) \<Longrightarrow> n_Attestations (h ! a) = [] \<Longrightarrow> n_Attestations (h ! b) = [] \<Longrightarrow>
   n_Ops (h ! a) = [] \<Longrightarrow> n_Ops (h ! b) = [] \<Longrightarrow> 0 < n \<Longrightarrow> heap_Equal n h a b = Ok True"
  by (cases n) simp_all

lemma CatSHA256_fresh:
  assumes f: "cat_fits h l r" and H: "hash_sizes H"
  shows "CatSHA256 H h (Some l) (Some r) = (cat_store H h l r, Ok (length h + 2))"
proof -
  let ?n = "length h" and ?ml = "n_Msg (h ! l)" and ?mr = "n_Msg (h ! r)"
  let ?A = "AppendOp ?mr" and ?P = "PrependOp ?ml"
  from f have lr: "l < ?n" "r < ?n" and ops: "n_Ops (h ! l) = []" "n_Ops (h ! r) = []"
    and len: "0 < length ?ml" "0 < length ?mr" "length ?ml + length ?mr \<le> MaxMsgLength"
    by (auto simp: cat_fits_def)
  have app: "NewAppend ?mr = Ok ?A" and pre: "NewPrepend ?ml = Ok ?P"
    using len by (auto simp: NewAppend_eq NewPrepend_eq MaxResultLength_def MaxMsgLength_def)
  have apA: "op_Apply H ?A ?ml = Ok (?ml @ ?mr)" by (rule op_Apply_append) (use len in simp_all)
  have apP: "op_Apply H ?P ?mr = Ok (?ml @ ?mr)" by (rule op_Apply_append) (use len in simp_all)
  define h1 where "h1 = h[l := (h ! l)\<lparr>n_Ops := [(?A, ?n)]\<rparr>] @ [fresh_node (?ml @ ?mr)]"
  have s1: "heap_AddOp H h l ?A = (h1, Ok ?n)"
    using heap_AddOp_fresh [OF lr(1) _ apA] ops(1) by (simp add: h1_def del: op_Apply.simps)
  have h1l: "n_Msg (h1 ! l) = ?ml" and h1r: "n_Msg (h1 ! r) = ?mr"
    using lr by (simp_all add: h1_def nth_append nth_list_update)
  have h1ops: "n_Ops (h1 ! r) = (if l = r then [(?A, ?n)] else [])"
    using lr ops by (simp add: h1_def nth_append nth_list_update)
  define h2 where "h2 = h1[r := (h1 ! r)\<lparr>n_Ops := n_Ops (h1 ! r) @ [(?P, Suc ?n)]\<rparr>] @ [fresh_node (?ml @ ?mr)]"
  have len1: "length h1 = Suc ?n" by (simp add: h1_def)
  have "heap_AddOp H h1 r ?P = (h2, Ok (length h1))"
    unfolding h2_def len1 [symmetric]
    by (rule heap_AddOp_fresh) (use lr h1ops h1r len1 apP in \<open>auto simp del: op_Apply.simps\<close>)
  then have s2: "heap_AddOp H h1 r ?P = (h2, Ok (Suc ?n))" by (simp add: len1)
  have n: "h2 ! ?n = fresh_node (?ml @ ?mr)" "h2 ! Suc ?n = fresh_node (?ml @ ?mr)" and len2: "length h2 = ?n + 2"
    using lr by (simp_all add: h2_def h1_def nth_append)
  have eq: "heap_Equal (length h2) h2 ?n (Suc ?n) = Ok True"
    by (rule heap_Equal_fresh) (simp_all add: n len2)
  have h2l: "n_Ops (h2 ! l) = (?A, ?n) # (if l = r then [(?P, Suc ?n)] else [])"
    using lr ops by (simp add: h2_def h1_def nth_append nth_list_update)
  define h3 where "h3 = h2[l := (h2 ! l)\<lparr>n_Ops := (?A, Suc ?n) # (if l = r then [(?P, Suc ?n)] else [])\<rparr>]"
  have s3: "SetOpResult h2 l ?A (Suc ?n) = (h3, Ok ())"
    by (simp add: SetOpResult_def h2l n h3_def)
  have len3: "length h3 = ?n + 2" "h3 ! Suc ?n = fresh_node (?ml @ ?mr)" using lr n len2 by (simp_all add: h3_def)
  have s4: "heap_AddOp H h3 (Suc ?n) SHA256Op =
      (h3[Suc ?n := (fresh_node (?ml @ ?mr))\<lparr>n_Ops := [(SHA256Op, ?n + 2)]\<rparr>] @ [fresh_node (sha256_Sum256 H (?ml @ ?mr))], Ok (?n + 2))"
    using heap_AddOp_fresh [of "Suc ?n" h3 SHA256Op H "sha256_Sum256 H (?ml @ ?mr)"] len3 H len
    by (simp add: op_Apply_SHA256 del: op_Apply.simps)
  have "cat_store H h l r = h3[Suc ?n := (fresh_node (?ml @ ?mr))\<lparr>n_Ops := [(SHA256Op, ?n + 2)]\<rparr>] @
      [fresh_node (sha256_Sum256 H (?ml @ ?mr))]"
    using lr ops by (auto simp: cat_store_def Let_def h3_def h2_def h1_def list_update_append list_update_swap
        nth_append nth_list_update list_update_overwrite)
  with s4 show ?thesis
    by (simp add: CatSHA256_def CatThenUnaryOp_def or_empty_def NewSHA256_def app pre s1 h1l s2 eq s3)
qed


text \<open>What the callers use of that store.\<close>

lemma cat_store_sel:
  assumes "cat_fits h l r"
  shows "length (cat_store H h l r) = length h + 3"
    and "cat_store H h l r ! (length h + 2) = fresh_node (sha256_Sum256 H (n_Msg (h ! l) @ n_Msg (h ! r)))"
    and "n_Msg (cat_store H h l r ! Suc (length h)) = n_Msg (h ! l) @ n_Msg (h ! r)"
    and "n_Ops (cat_store H h l r ! Suc (length h)) = [(SHA256Op, length h + 2)]"
    and "(AppendOp (n_Msg (h ! r)), Suc (length h)) \<in> set (n_Ops (cat_store H h l r ! l))"
    and "(PrependOp (n_Msg (h ! l)), Suc (length h)) \<in> set (n_Ops (cat_store H h l r ! r))"
    and "b < length h \<Longrightarrow> b \<noteq> l \<Longrightarrow> b \<noteq> r \<Longrightarrow> cat_store H h l r ! b = h ! b"
  using assms by (auto simp: cat_store_def cat_fits_def Let_def nth_append nth_list_update)

lemma cat_store_extends: "cat_fits h l r \<Longrightarrow> extends h (cat_store H h l r)"
  by (auto simp: extends_def cat_store_def cat_fits_def Let_def nth_append nth_list_update)

lemma cat_store_reach:
  assumes "cat_fits h l r"
  shows "reach (cat_store H h l r) l [AppendOp (n_Msg (h ! r)), SHA256Op] (length h + 2)"
    and "reach (cat_store H h l r) r [PrependOp (n_Msg (h ! l)), SHA256Op] (length h + 2)"
proof -
  note s = cat_store_sel [OF assms, where H = H]
  have "reach (cat_store H h l r) (Suc (length h)) [SHA256Op] (length h + 2)"
    by (intro reach_step [where b = "length h + 2"] reach_refl) (simp_all add: s)
  moreover have "l < length (cat_store H h l r)" "r < length (cat_store H h l r)"
    using assms s(1) by (simp_all add: cat_fits_def)
  ultimately show "reach (cat_store H h l r) l [AppendOp (n_Msg (h ! r)), SHA256Op] (length h + 2)"
    "reach (cat_store H h l r) r [PrependOp (n_Msg (h ! l)), SHA256Op] (length h + 2)"
    using s(5,6) by (blast intro: reach_step)+
qed

section \<open>Store-keeping calls\<close>

text \<open>
  A call that leaves a well-formed store well-formed, also when it fails, frees nothing, and returns a
  value with \<open>Q\<close>: its rules are the rules of a Hoare logic for the sequencing of calls.
\<close>

definition keeps :: "hashes \<Rightarrow> store \<Rightarrow> store \<times> 'a result \<Rightarrow> (store \<Rightarrow> 'a \<Rightarrow> bool) \<Rightarrow> bool" where
  "keeps H h m Q \<longleftrightarrow> store_ok H (fst m) \<and> length h \<le> length (fst m) \<and> (\<forall>x. snd m = Ok x \<longrightarrow> Q (fst m) x)"

lemma keeps_pure: "store_ok H h \<Longrightarrow> (\<And>x. r = Ok x \<Longrightarrow> Q h x) \<Longrightarrow> keeps H h (h, r) Q"
  by (simp add: keeps_def)

lemma keeps_thenS:
  assumes "keeps H h m Q"
    and "\<And>h' x. store_ok H h' \<Longrightarrow> length h \<le> length h' \<Longrightarrow> Q h' x \<Longrightarrow> keeps H h' (f h' x) R"
  shows "keeps H h (thenS m f) R"
proof (cases m)
  case (Pair h' r)
  show ?thesis
  proof (cases r)
    case (Ok x)
    with Pair assms have "keeps H h' (f h' x) R" "length h \<le> length h'" by (simp_all add: keeps_def)
    with Pair Ok show ?thesis by (simp add: keeps_def)
  qed (use Pair assms(1) in \<open>simp_all add: keeps_def\<close>)
qed

lemma keeps_AddOp:
  "store_ok H h \<Longrightarrow> t < length h \<Longrightarrow> op_ok x \<Longrightarrow> keeps H h (heap_AddOp H h t x) (\<lambda>h' a. a < length h')"
  using heap_AddOp_ok [of H h t x "fst (heap_AddOp H h t x)" "snd (heap_AddOp H h t x)"]
  by (simp add: keeps_def extends_def)

lemma keeps_SetOpResult:
  "store_ok H h \<Longrightarrow> t < length h \<Longrightarrow> s < length h \<Longrightarrow> keeps H h (SetOpResult h t x s) (\<lambda>h' _. length h' = length h)"
  using SetOpResult_ok [of H h t s x "fst (SetOpResult h t x s)" "snd (SetOpResult h t x s)"]
  by (simp add: keeps_def)

lemma keeps_or_empty:
  "store_ok H h \<Longrightarrow> (\<And>a. p = Some a \<Longrightarrow> a < length h) \<Longrightarrow> keeps H h (or_empty h p) (\<lambda>h' a. a < length h')"
  by (cases p) (simp_all add: or_empty_def keeps_def heap_New_def store_ok_alloc)

lemma keeps_NewAppend: "store_ok H h \<Longrightarrow> keeps H h (h, NewAppend m) (\<lambda>h' x. h' = h \<and> op_ok x)"
  and keeps_NewPrepend: "store_ok H h \<Longrightarrow> keeps H h (h, NewPrepend m) (\<lambda>h' x. h' = h \<and> op_ok x)"
  by (auto simp: keeps_def dest: NewAppend_OkD NewPrepend_OkD)

lemma keeps_value: "store_ok H h \<Longrightarrow> keeps H h (h, r) (\<lambda>h' _. h' = h)"
  and keeps_Err: "store_ok H h \<Longrightarrow> keeps H h (h, Err e) Q"
  by (simp_all add: keeps_def)

lemma keeps_if:
  "(b \<Longrightarrow> keeps H h x Q) \<Longrightarrow> (\<not> b \<Longrightarrow> keeps H h y Q) \<Longrightarrow> keeps H h (if b then x else y) Q"
  by simp

lemmas keeps_steps = keeps_thenS [OF keeps_or_empty] keeps_thenS [OF keeps_NewAppend]
  keeps_thenS [OF keeps_NewPrepend] keeps_thenS [OF keeps_AddOp] keeps_thenS [OF keeps_SetOpResult]
  keeps_thenS [OF keeps_value [where r = "heap_Equal n h a b" for n h a b]] keeps_if keeps_Err keeps_AddOp

lemma keeps_CatThenUnaryOp:
  assumes "store_ok H h" and "\<And>a. left = Some a \<Longrightarrow> a < length h" and "\<And>a. right = Some a \<Longrightarrow> a < length h"
    and "op_ok unary"
  shows "keeps H h (CatThenUnaryOp H h unary left right) (\<lambda>h' a. a < length h')"
  unfolding CatThenUnaryOp_def
  by (intro keeps_steps) (use assms in \<open>auto dest: less_le_trans\<close>)

lemma keeps_CatSHA256d:
  assumes "store_ok H h" and "\<And>a. left = Some a \<Longrightarrow> a < length h" and "\<And>a. right = Some a \<Longrightarrow> a < length h"
  shows "keeps H h (CatSHA256d H h left right) (\<lambda>h' a. a < length h')"
  unfolding CatSHA256d_def CatSHA256_def NewSHA256_def
  by (intro keeps_thenS [OF keeps_CatThenUnaryOp] keeps_AddOp) (use assms in simp_all)

lemma keeps_NonceTimestamp:
  assumes "store_ok H h" and "private < length h"
  shows "keeps H h (NonceTimestamp H h private rand) (\<lambda>h' a. a < length h')"
  unfolding NonceTimestamp_def NewSHA256_def
  by (intro keeps_thenS [OF keeps_value [where r = rand]] keeps_steps) (use assms in auto)

section \<open>The merkle tree as a function of the messages\<close>

fun pair_level :: "hashes \<Rightarrow> bytes list \<Rightarrow> bytes list" where
  "pair_level H [] = []"
| "pair_level H [x] = [x]"
| "pair_level H (x # y # zs) = sha256_Sum256 H (x @ y) # pair_level H zs"

lemma length_pair_level: "length (pair_level H xs) = (length xs + 1) div 2"
  by (induction H xs rule: pair_level.induct) auto

function merkle_root :: "hashes \<Rightarrow> bytes list \<Rightarrow> bytes" where
  "merkle_root H [] = []"
| "merkle_root H [x] = x"
| "merkle_root H (x # y # zs) = merkle_root H (pair_level H (x # y # zs))"
  by pat_completeness auto
termination
  by (relation "measure (\<lambda>(H, xs). length xs)") (simp_all add: length_pair_level)

text \<open>
  The nodes a level may hold: without operations, with a message that is not empty and short enough
  for a pair to stay within the limit.
\<close>

definition leaf :: "store \<Rightarrow> nat \<Rightarrow> bool" where
  "leaf h a \<longleftrightarrow> a < length h \<and> n_Ops (h ! a) = [] \<and> 0 < length (n_Msg (h ! a)) \<and> length (n_Msg (h ! a)) \<le> 2048"

definition msgs :: "store \<Rightarrow> nat list \<Rightarrow> bytes list" where
  "msgs h as = map (\<lambda>a. n_Msg (h ! a)) as"

definition opt_list :: "'a option \<Rightarrow> 'a list" where
  "opt_list x = (case x of None \<Rightarrow> [] | Some a \<Rightarrow> [a])"

lemma opt_list_simps [simp]: "opt_list None = []" "opt_list (Some a) = [a]"
  by (simp_all add: opt_list_def)

lemma leaf_cat_fits: "leaf h l \<Longrightarrow> leaf h r \<Longrightarrow> cat_fits h l r"
  by (auto simp: leaf_def cat_fits_def MaxMsgLength_def)

lemma leaf_keeps:
  "leaf h a \<Longrightarrow> cat_fits h l r \<Longrightarrow> a \<noteq> l \<Longrightarrow> a \<noteq> r \<Longrightarrow> leaf (cat_store H h l r) a"
  using cat_store_sel(1) [of h l r H] cat_store_sel(7) [of h l r a H] by (simp add: leaf_def)

lemma leaf_new: "cat_fits h l r \<Longrightarrow> hash_sizes H \<Longrightarrow> leaf (cat_store H h l r) (length h + 2)"
  using cat_store_sel(1,2) [of h l r H] by (simp add: leaf_def hash_sizesD flip: length_0_conv)

lemma msgs_extends: "extends h h' \<Longrightarrow> \<forall>a \<in> set as. a < length h \<Longrightarrow> msgs h' as = msgs h as"
  by (auto simp: msgs_def extends_msg)

text \<open>
  All ways from a node end in one node without operations, after at most so many operations. Later calls
  that give operations only to nodes without them prolong these ways.
\<close>

inductive leads :: "store \<Rightarrow> nat \<Rightarrow> nat \<Rightarrow> nat \<Rightarrow> bool" for h r where
  leads_here: "r < length h \<Longrightarrow> n_Ops (h ! r) = [] \<Longrightarrow> leads h r k r"
| leads_step: "a < length h \<Longrightarrow> n_Ops (h ! a) \<noteq> [] \<Longrightarrow> (\<And>x b. (x, b) \<in> set (n_Ops (h ! a)) \<Longrightarrow> leads h r k b) \<Longrightarrow>
    leads h r (Suc k) a"

definition grown :: "store \<Rightarrow> store \<Rightarrow> bool" where
  "grown h h' \<longleftrightarrow> length h \<le> length h' \<and>
     (\<forall>a < length h. n_Ops (h ! a) \<noteq> [] \<longrightarrow> n_Ops (h' ! a) = n_Ops (h ! a))"

lemma grown_refl [simp]: "grown h h"
  by (simp add: grown_def)

lemma grown_trans: "grown h h' \<Longrightarrow> grown h' h'' \<Longrightarrow> grown h h''"
  by (auto simp: grown_def)

lemma leads_mono: "leads h r k a \<Longrightarrow> k \<le> k' \<Longrightarrow> leads h r k' a"
proof (induction arbitrary: k' rule: leads.induct)
  case (leads_step a k)
  then show ?case by (cases k') (auto intro: leads.leads_step)
qed (auto intro: leads_here)

lemma leads_trans: "leads h r k a \<Longrightarrow> grown h h' \<Longrightarrow> leads h' r' k' r \<Longrightarrow> leads h' r' (k + k') a"
proof (induction rule: leads.induct)
  case (leads_here k)
  then show ?case using leads_mono by fastforce
next
  case (leads_step a k)
  then have "n_Ops (h' ! a) = n_Ops (h ! a)" "a < length h'" by (auto simp: grown_def)
  with leads_step show ?case by (auto intro: leads.leads_step)
qed

lemma leads_reach: "leads h r k a \<Longrightarrow> \<exists>xs. reach h a xs r"
proof (induction rule: leads.induct)
  case (leads_step a k)
  then obtain x b where "(x, b) \<in> set (n_Ops (h ! a))" by (metis list.set_intros(1) neq_Nil_conv surj_pair)
  with leads_step show ?case by (blast intro: reach.reach_step)
qed (auto intro: reach_refl)

lemma cat_store_grown:
  assumes "cat_fits h l r"
  shows "grown h (cat_store H h l r)"
proof -
  note s = cat_store_sel [OF assms, where H = H]
  have "n_Ops (h ! l) = []" "n_Ops (h ! r) = []" using assms by (simp_all add: cat_fits_def)
  then have "n_Ops (cat_store H h l r ! a) = n_Ops (h ! a)" if "a < length h" "n_Ops (h ! a) \<noteq> []" for a
    using s(7) [OF that(1)] that(2) by metis
  then show ?thesis using s(1) by (simp add: grown_def)
qed

lemma cat_store_ops:
  assumes "cat_fits h l r" and "a \<in> {l, r}" and "(x, b) \<in> set (n_Ops (cat_store H h l r ! a))"
  shows "b = Suc (length h)"
  using assms by (cases "l = r") (auto simp: cat_store_def cat_fits_def Let_def nth_append nth_list_update split: if_splits)

lemma cat_store_leads:
  assumes "cat_fits h l r" and "a \<in> {l, r}"
  shows "leads (cat_store H h l r) (length h + 2) 2 a"
proof -
  let ?h = "cat_store H h l r"
  note s = cat_store_sel [OF assms(1), where H = H]
  have "n_Ops (?h ! (length h + 2)) = []" by (simp only: s(2) fresh_node_sel)
  then have "leads ?h (length h + 2) 0 (length h + 2)" using s(1) by (intro leads_here) simp_all
  then have 1: "leads ?h (length h + 2) (Suc 0) (Suc (length h))" by (intro leads_step) (auto simp: s)
  have "leads ?h (length h + 2) (Suc (Suc 0)) a"
  proof (rule leads_step)
    show "a < length ?h" "n_Ops (?h ! a) \<noteq> []" using assms s(1,5,6) by (auto simp: cat_fits_def)
    show "leads ?h (length h + 2) (Suc 0) b" if "(x, b) \<in> set (n_Ops (?h ! a))" for x b
      using cat_store_ops [OF assms that] 1 by simp
  qed
  then show ?thesis by (simp add: numeral_2_eq_2)
qed

text \<open>The number of passes over a level of \<open>n\<close> nodes.\<close>

fun levels :: "nat \<Rightarrow> nat" where
  "levels n = (if n \<le> 1 then 0 else Suc (levels ((n + 1) div 2)))"

declare levels.simps [simp del]

lemma levels_mono: "m \<le> n \<Longrightarrow> levels m \<le> levels n"
proof (induction n arbitrary: m rule: less_induct)
  case (less n)
  show ?case
  proof (cases "m \<le> 1")
    case False
    then have "levels ((m + 1) div 2) \<le> levels ((n + 1) div 2)" using less.prems by (intro less.IH) auto
    then show ?thesis using False less.prems by (simp add: levels.simps [of m] levels.simps [of n])
  qed (simp add: levels.simps [of m])
qed

lemma levels_power: "n \<le> 2 ^ k \<Longrightarrow> levels n \<le> k"
proof (induction k arbitrary: n)
  case 0
  then show ?case by (simp add: levels.simps)
next
  case (Suc k)
  then have "(n + 1) div 2 \<le> 2 ^ k" by simp
  then show ?case using Suc.IH by (subst levels.simps) simp
qed

text \<open>
  What a pass of the inner loop gives: every node of the old level leads to a node of the new one,
  whose messages are the paired digests; the nodes of the new level are old ones or new in the store, and
  the nodes outside of the old level are as they were.
\<close>

definition level_step :: "hashes \<Rightarrow> store \<Rightarrow> nat list \<Rightarrow> nat list \<Rightarrow> store \<Rightarrow> nat list \<Rightarrow> bool" where
  "level_step H h done todo h' as \<longleftrightarrow> store_ok H h' \<and> extends h h' \<and> distinct as \<and> (\<forall>a \<in> set as. leaf h' a) \<and>
     msgs h' as = msgs h done @ pair_level H (msgs h todo) \<and>
     (\<forall>a \<in> set done \<union> set todo. \<exists>b \<in> set as. leads h' b 2 a) \<and> grown h h' \<and>
     (length as < length done + length todo \<longrightarrow> length h + 3 \<le> length h') \<and>
     set as \<subseteq> set done \<union> set todo \<union> {length h..} \<and>
     (\<forall>b < length h. b \<notin> set done \<union> set todo \<longrightarrow> h' ! b = h ! b)"

lemma pass_keeps: "merkle_pass H h prev xs done = (h', Ok (prev', next)) \<Longrightarrow> set done \<subseteq> set next"
  by (induction H h prev xs "done" rule: merkle_pass.induct) (auto split: prod.splits result.splits)

lemma merkle_pass_step:
  assumes "store_ok H h" and "hash_sizes H" and "\<forall>a \<in> set (done @ opt_list prev @ xs). leaf h a"
    and "distinct (done @ opt_list prev @ xs)"
  shows "\<exists>h' prev' next. merkle_pass H h prev xs done = (h', Ok (prev', next)) \<and>
    level_step H h done (opt_list prev @ xs) h' (next @ opt_list prev')"
  using assms
proof (induction H h prev xs "done" rule: merkle_pass.induct)
  case (1 H h prev "done")
  have "leads h a 2 a" if "a \<in> set (done @ opt_list prev)" for a
    using that "1.prems"(3) by (intro leads_here) (auto simp: leaf_def)
  moreover have "msgs h (done @ opt_list prev) = msgs h done @ pair_level H (msgs h (opt_list prev))"
    by (cases prev) (simp_all add: msgs_def)
  ultimately show ?case using "1.prems" by (fastforce simp: level_step_def)
next
  case (2 H h x xs "done")
  then show ?case by simp
next
  case (3 H h p x xs "done")
  let ?h = "cat_store H h p x" and ?c = "length h + 2"
  have fits: "cat_fits h p x" using "3.prems"(3) by (intro leaf_cat_fits) simp_all
  note cat = CatSHA256_fresh [OF fits "3.prems"(2)]
  have ok: "store_ok H ?h"
    using keeps_CatThenUnaryOp [OF "3.prems"(1), of "Some p" "Some x" NewSHA256] fits cat
    by (simp add: keeps_def CatSHA256_def cat_fits_def NewSHA256_def)
  note ext = cat_store_extends [OF fits, of H]
  have old: "leaf ?h a \<and> a < length h" if "a \<in> set (done @ xs)" for a
  proof -
    have "leaf h a" "a \<noteq> p" "a \<noteq> x" using that "3.prems"(3,4) by auto
    then show ?thesis using leaf_keeps [OF _ fits] by (simp add: leaf_def)
  qed
  have "\<forall>a \<in> set ((done @ [?c]) @ opt_list None @ xs). leaf ?h a"
    using old leaf_new [OF fits "3.prems"(2)] by auto
  moreover have "distinct ((done @ [?c]) @ opt_list None @ xs)"
    using "3.prems"(4) old by fastforce
  ultimately obtain h' prev' next' where
    pass: "merkle_pass H ?h None xs (done @ [?c]) = (h', Ok (prev', next'))"
    and step: "level_step H ?h (done @ [?c]) xs h' (next' @ opt_list prev')"
    using "3.IH" [OF cat [symmetric] refl ok "3.prems"(2)] by auto
  have "msgs ?h (done @ [?c]) @ pair_level H (msgs ?h xs) = msgs h done @ pair_level H (msgs h (p # x # xs))"
    using msgs_extends [OF ext, of "done"] msgs_extends [OF ext, of xs] old cat_store_sel(2) [OF fits, of H]
    by (simp add: msgs_def cong: map_cong)
  moreover have "\<exists>b \<in> set (next' @ opt_list prev'). leads h' b 2 a" if "a \<in> set done \<union> set (p # x # xs)" for a
  proof (cases "a \<in> {p, x}")
    case True
    have g: "grown ?h h'" "leaf h' ?c" "?c \<in> set (next' @ opt_list prev')" using step pass_keeps [OF pass] by (auto simp: level_step_def)
    then have "leads h' ?c 0 ?c" by (intro leads_here) (simp_all add: leaf_def)
    from leads_trans [OF cat_store_leads [OF fits True] g(1) this] g(3) show ?thesis by (auto simp: leaf_def)
  next
    case False
    with that step show ?thesis by (auto simp: level_step_def)
  qed
  moreover have "h' ! b = h ! b" if "b < length h" "b \<notin> set done \<union> set (p # x # xs)" for b
    using that step cat_store_sel(1) [OF fits, of H] cat_store_sel(7) [OF fits, of b H] by (auto simp: level_step_def)
  moreover have "set (next' @ opt_list prev') \<subseteq> set done \<union> set (p # x # xs) \<union> {length h..}"
    using step cat_store_sel(1) [OF fits, of H] by (fastforce simp: level_step_def)
  moreover have "grown h h'" "length h + 3 \<le> length h'"
  proof -
    have "grown ?h h'" using step by (simp add: level_step_def)
    then show "grown h h'" by (rule grown_trans [OF cat_store_grown [OF fits]])
    from \<open>grown ?h h'\<close> show "length h + 3 \<le> length h'" using cat_store_sel(1) [OF fits, of H] by (simp add: grown_def)
  qed
  ultimately have "level_step H h done (p # x # xs) h' (next' @ opt_list prev')"
    using step extends_trans [OF ext] by (simp add: level_step_def)
  then show ?case using pass cat by simp
qed

lemma pair_level_root: "xs \<noteq> [] \<Longrightarrow> merkle_root H (pair_level H xs) = merkle_root H xs"
  by (cases "(H, xs)" rule: merkle_root.cases) simp_all

lemma merkle_loop_leads:
  assumes "store_ok H h" and "hash_sizes H" and "\<forall>a \<in> set as. leaf h a" and "distinct as" and "as \<noteq> []"
  shows "\<exists>h' root. merkle_loop H h as = (h', Ok (Some root)) \<and> store_ok H h' \<and> extends h h' \<and> leaf h' root \<and>
    n_Msg (h' ! root) = merkle_root H (msgs h as) \<and>
    (\<exists>k \<le> 2 * levels (length as). k + length h \<le> length h' \<and> (\<forall>a \<in> set as. leads h' root k a)) \<and> grown h h' \<and>
    (root \<in> set as \<or> length h \<le> root) \<and> (\<forall>b < length h. b \<notin> set as \<longrightarrow> h' ! b = h ! b)"
  using assms
proof (induction "length as" arbitrary: h "as" rule: less_induct)
  case less
  obtain h1 prev "next" where pass: "merkle_pass H h None as [] = (h1, Ok (prev, next))"
    and step: "level_step H h [] as h1 (next @ opt_list prev)"
    using merkle_pass_step [of H h "[]" None "as"] less.prems by auto
  show ?case
  proof (cases "next = []")
    case True
    from merkle_pass_length [OF pass] True less.prems(5) obtain a where "as = [a]"
      by (cases "as"; cases prev) (auto split: option.splits)
    moreover from this have "merkle_loop H h as = (h, Ok (Some a))" by (simp add: merkle_loop.simps)
    moreover have "leads h a 0 a" using less.prems(3) \<open>as = [a]\<close> by (intro leads_here) (simp_all add: leaf_def)
    ultimately show ?thesis using less.prems(1,3) by (auto simp: msgs_def)
  next
    case False
    let ?bs = "next @ opt_list prev"
    have eq: "merkle_loop H h as = merkle_loop H h1 ?bs"
      using pass False by (simp add: merkle_loop.simps [of H h "as"] opt_list_def)
    have "length ?bs < length as" using merkle_pass_shrinks [OF pass False] by (simp add: opt_list_def)
    then obtain h' root where h': "merkle_loop H h1 ?bs = (h', Ok (Some root))" "store_ok H h'" "extends h1 h'"
      "leaf h' root" "n_Msg (h' ! root) = merkle_root H (msgs h1 ?bs)"
      "\<exists>k \<le> 2 * levels (length ?bs). k + length h1 \<le> length h' \<and> (\<forall>a \<in> set ?bs. leads h' root k a)" "grown h1 h'"
      "root \<in> set ?bs \<or> length h1 \<le> root" "\<forall>b < length h1. b \<notin> set ?bs \<longrightarrow> h' ! b = h1 ! b"
      using less.hyps [of ?bs h1] step less.prems(2) False by (auto simp: level_step_def)
    have "merkle_root H (msgs h1 ?bs) = merkle_root H (msgs h as)"
      using step pair_level_root [of "msgs h as" H] less.prems(5) by (simp add: level_step_def msgs_def)
    moreover have "\<exists>k \<le> 2 * levels (length as). k + length h \<le> length h' \<and> (\<forall>a \<in> set as. leads h' root k a)"
    proof -
      have up: "\<forall>a \<in> set as. \<exists>b \<in> set ?bs. leads h1 b 2 a" and more: "length h + 3 \<le> length h1"
        using step \<open>length ?bs < length as\<close> unfolding level_step_def by simp_all
      obtain k where k: "k \<le> 2 * levels (length ?bs)" "k + length h1 \<le> length h'" "\<forall>a \<in> set ?bs. leads h' root k a"
        using h'(6) by blast
      have "2 * length ?bs = length as + (case prev of None \<Rightarrow> 0 | Some _ \<Rightarrow> 1)"
        using merkle_pass_length [OF pass] by (simp split: option.splits)
      then have "length ?bs = (length as + 1) div 2" by (simp split: option.splits)
      then have "Suc (levels (length ?bs)) = levels (length as)"
        using \<open>length ?bs < length as\<close> False by (simp add: levels.simps [of "length as"])
      moreover have "leads h' root (2 + k) a" if "a \<in> set as" for a
        using up k(3) that leads_trans [OF _ h'(7)] by blast
      ultimately show ?thesis using k more by (intro exI [of _ "2 + k"]) simp
    qed
    moreover have bs: "set ?bs \<subseteq> set as \<union> {length h..}" "length h \<le> length h1" using step by (auto simp: level_step_def extends_def)
    moreover have "h' ! b = h ! b" if "b < length h" "b \<notin> set as" for b
    proof -
      have "b \<notin> set ?bs" "b < length h1" using that bs by auto
      then show ?thesis using h'(9) step that by (simp add: level_step_def)
    qed
    moreover have "root \<in> set as \<or> length h \<le> root" using h'(8) bs by auto
    moreover have "grown h h'" using step grown_trans [OF _ h'(7)] by (simp add: level_step_def)
    ultimately show ?thesis using h'(1-4) h'(5) eq step extends_trans [of h h1 h'] by (simp add: level_step_def)
  qed
qed

lemma merkle_loop_correct:
  assumes "store_ok H h" and "hash_sizes H" and "\<forall>a \<in> set as. leaf h a" and "distinct as" and "as \<noteq> []"
  shows "\<exists>h' root. merkle_loop H h as = (h', Ok (Some root)) \<and> store_ok H h' \<and> extends h h' \<and> leaf h' root \<and>
    n_Msg (h' ! root) = merkle_root H (msgs h as) \<and> (\<forall>a \<in> set as. \<exists>xs. reach h' a xs root) \<and>
    (root \<in> set as \<or> length h \<le> root) \<and> (\<forall>b < length h. b \<notin> set as \<longrightarrow> h' ! b = h ! b)"
  using merkle_loop_leads [OF assms] leads_reach by meson

lemma heap_AddOp_msg: "a < length h \<Longrightarrow> n_Msg (fst (heap_AddOp H h t x) ! a) = n_Msg (h ! a)"
  by (cases "t < Suc (length h)")
    (auto simp: heap_AddOp_def list_update_beyond heap_New_def nth_append nth_list_update split: result.splits option.splits)

lemma CatThenUnaryOp_nil_left: "\<not> is_ok (snd (CatThenUnaryOp H h x None r))"
proof -
  have *: "\<not> is_ok (snd (thenS (heap_AddOp H h2 l A) (\<lambda>h' la. thenS (h', NewPrepend (n_Msg (h' ! l))) (g h' la))))"
    if "l < length h2" "n_Msg (h2 ! l) = []" for h2 l A and g :: "store \<Rightarrow> nat \<Rightarrow> store \<Rightarrow> op \<Rightarrow> store \<times> nat result"
    using heap_AddOp_msg [OF that(1), of H l A] that(2)
    by (cases "heap_AddOp H h2 l A"; cases "snd (heap_AddOp H h2 l A)") (simp_all add: NewPrepend_def)
  show ?thesis
    by (cases r; cases "NewAppend (n_Msg ((h @ [fresh_node []]) ! the r))")
      (simp_all add: CatThenUnaryOp_def or_empty_def heap_New_def * nth_append NewAppend_def)
qed

section \<open>Properties\<close>

text \<open>
  C6. \<open>MakeMerkleTree\<close> on distinct nodes without operations, with non-empty messages of at most 2048
  bytes, succeeds; the message of the root it returns is the merkle root of the messages, and from
  every node a chain of operations leads to the root and computes its message. The other nodes keep
  their messages, attestations and links. An empty list is an error.
\<close>

theorem MakeMerkleTree_correct:
  assumes "store_ok H h" and "hash_sizes H" and "\<forall>a \<in> set stamps. leaf h a" and "distinct stamps"
  shows "(stamps = [] \<longrightarrow> MakeMerkleTree H h stamps = (h, Err (ErrorString ''need at least one timestamp''))) \<and>
    (stamps \<noteq> [] \<longrightarrow>
      (\<exists>h' root. MakeMerkleTree H h stamps = (h', Ok (Some root)) \<and> store_ok H h' \<and> extends h h' \<and>
        n_Msg (h' ! root) = merkle_root H (map (\<lambda>a. n_Msg (h ! a)) stamps) \<and>
        (\<forall>a \<in> set stamps. \<exists>xs. reach h' a xs root \<and>
           apply_ops H xs (n_Msg (h ! a)) = Ok (n_Msg (h' ! root)))))"
proof (intro conjI impI)
  assume ne: "stamps \<noteq> []"
  from merkle_loop_correct [OF assms ne] obtain h' root where m: "merkle_loop H h stamps = (h', Ok (Some root))"
    "store_ok H h'" "extends h h'" "n_Msg (h' ! root) = merkle_root H (msgs h stamps)"
    "\<forall>a \<in> set stamps. \<exists>xs. reach h' a xs root" by blast
  have "\<exists>xs. reach h' a xs root \<and> apply_ops H xs (n_Msg (h ! a)) = Ok (n_Msg (h' ! root))" if a: "a \<in> set stamps" for a
  proof -
    from a assms(3) have "n_Msg (h' ! a) = n_Msg (h ! a)" using extends_msg [OF m(3)] by (simp add: leaf_def)
    with a m(5) reach_apply_ops [OF _ m(2)] show ?thesis by metis
  qed
  with m ne show "\<exists>h' root. MakeMerkleTree H h stamps = (h', Ok (Some root)) \<and> store_ok H h' \<and> extends h h' \<and>
        n_Msg (h' ! root) = merkle_root H (map (\<lambda>a. n_Msg (h ! a)) stamps) \<and>
        (\<forall>a \<in> set stamps. \<exists>xs. reach h' a xs root \<and> apply_ops H xs (n_Msg (h ! a)) = Ok (n_Msg (h' ! root)))"
    by (auto simp: MakeMerkleTree_def msgs_def)
qed (simp add: MakeMerkleTree_def)

definition sample_store :: store where
  "sample_store = [fresh_node [1], fresh_node [2, 2], fresh_node [3]]"

lemma sample_store_ok: "store_ok H sample_store" "\<forall>a \<in> set [0, 1, 2]. leaf sample_store a"
  by (simp_all add: store_ok_def sample_store_def MaxMsgLength_def leaf_def fresh_node_def numeral_2_eq_2)

theorem MakeMerkleTree_correct_witness:
  "\<exists>h' root xs. MakeMerkleTree const_hashes sample_store [0, 1, 2] = (h', Ok (Some root)) \<and>
     n_Msg (h' ! root) = merkle_root const_hashes [[1], [2, 2], [3]] \<and>
     apply_ops const_hashes xs [2, 2] = Ok (n_Msg (h' ! root))"
proof -
  have "distinct [0, 1, 2 :: nat]" by simp
  from MakeMerkleTree_correct [OF sample_store_ok(1) hash_sizes_const sample_store_ok(2) this]
  show ?thesis by (force simp: sample_store_def fresh_node_def numeral_2_eq_2)
qed

text \<open>
  The building operations keep every store well-formed (each link leads to the message that its
  operation computes), whether they succeed or fail and whatever the nodes hold already.
\<close>

theorem builders_keep_store_ok:
  assumes "store_ok H h" and "a < length h" and "b < length h" and "op_ok x"
  shows "store_ok H (fst (heap_AddOp H h a x)) \<and> store_ok H (fst (SetOpResult h a x b)) \<and>
    store_ok H (fst (NonceTimestamp H h a rand)) \<and>
    store_ok H (fst (CatThenUnaryOp H h x (Some a) (Some b))) \<and>
    store_ok H (fst (CatThenUnaryOp H h x None (Some b))) \<and>
    store_ok H (fst (CatThenUnaryOp H h x (Some a) None)) \<and>
    store_ok H (fst (CatSHA256d H h (Some a) (Some b)))"
  using keeps_AddOp [OF assms(1,2,4)] keeps_SetOpResult [OF assms(1-3), of x]
    keeps_NonceTimestamp [OF assms(1,2), of rand] keeps_CatSHA256d [OF assms(1), of "Some a" "Some b"]
    keeps_CatThenUnaryOp [OF assms(1) _ _ assms(4), of "Some a" "Some b"]
    keeps_CatThenUnaryOp [OF assms(1) _ _ assms(4), of None "Some b"]
    keeps_CatThenUnaryOp [OF assms(1) _ _ assms(4), of "Some a" None] assms
  by (simp add: keeps_def)

text \<open>
  \<open>CatSHA256\<close> of two nodes without operations, not necessarily distinct, returns a node on the digest
  of the concatenation that both nodes lead to, the left through an append and the right through a
  prepend operation. With a nil operand it always fails, since the empty message is not a valid argument.
\<close>

theorem CatSHA256_correct:
  "(cat_fits h l r \<and> hash_sizes H \<longrightarrow>
     (\<exists>h' c. CatSHA256 H h (Some l) (Some r) = (h', Ok c) \<and> extends h h' \<and>
        n_Msg (h' ! c) = sha256_Sum256 H (n_Msg (h ! l) @ n_Msg (h ! r)) \<and>
        reach h' l [AppendOp (n_Msg (h ! r)), SHA256Op] c \<and> reach h' r [PrependOp (n_Msg (h ! l)), SHA256Op] c)) \<and>
   (\<forall>a. \<not> is_ok (snd (CatSHA256 H h None a))) \<and> (\<forall>a. \<not> is_ok (snd (CatSHA256 H h a None)))"
proof (intro conjI allI impI)
  assume "cat_fits h l r \<and> hash_sizes H"
  then show "\<exists>h' c. CatSHA256 H h (Some l) (Some r) = (h', Ok c) \<and> extends h h' \<and>
        n_Msg (h' ! c) = sha256_Sum256 H (n_Msg (h ! l) @ n_Msg (h ! r)) \<and>
        reach h' l [AppendOp (n_Msg (h ! r)), SHA256Op] c \<and> reach h' r [PrependOp (n_Msg (h ! l)), SHA256Op] c"
    using CatSHA256_fresh cat_store_extends cat_store_sel(2) cat_store_reach fresh_node_sel(1) by metis
next
  show "\<not> is_ok (snd (CatSHA256 H h a None))" for a
    by (cases a) (simp_all add: CatSHA256_def CatThenUnaryOp_def or_empty_def heap_New_def NewAppend_def nth_append)
  show "\<not> is_ok (snd (CatSHA256 H h None a))" for a
    by (simp add: CatSHA256_def CatThenUnaryOp_nil_left)
qed

end
