(* ===== verification/Client.thy ===== *)
theory Client
  imports Builder
begin

text \<open>
  The client library \<^verbatim>\<open>pkg/ots\<close>: the HTTP client of a calendar, the pool of calendars, stamping,
  upgrading and the wrappers of verification. The network is a parameter \<open>http\<close>: from the number of the
  call and the request to the response, or the error of building or sending the request. A response
  body is a reader, as the code consumes it through \<open>io.LimitReader\<close>.
\<close>

section \<open>The functions of package strings\<close>

text \<open>\<open>unicode.IsSpace\<close> characters, in UTF-8.\<close>

definition space_runes :: "string list" where
  "space_runes =
     [[CHR 0x09], [CHR 0x0A], [CHR 0x0B], [CHR 0x0C], [CHR 0x0D], [CHR 0x20], [CHR 0xC2, CHR 0x85],
      [CHR 0xC2, CHR 0xA0], [CHR 0xE1, CHR 0x9A, CHR 0x80], [CHR 0xE2, CHR 0x80, CHR 0x80],
      [CHR 0xE2, CHR 0x80, CHR 0x81], [CHR 0xE2, CHR 0x80, CHR 0x82], [CHR 0xE2, CHR 0x80, CHR 0x83],
      [CHR 0xE2, CHR 0x80, CHR 0x84], [CHR 0xE2, CHR 0x80, CHR 0x85], [CHR 0xE2, CHR 0x80, CHR 0x86],
      [CHR 0xE2, CHR 0x80, CHR 0x87], [CHR 0xE2, CHR 0x80, CHR 0x88], [CHR 0xE2, CHR 0x80, CHR 0x89],
      [CHR 0xE2, CHR 0x80, CHR 0x8A], [CHR 0xE2, CHR 0x80, CHR 0xA8], [CHR 0xE2, CHR 0x80, CHR 0xA9],
      [CHR 0xE2, CHR 0x80, CHR 0xAF], [CHR 0xE2, CHR 0x81, CHR 0x9F], [CHR 0xE3, CHR 0x80, CHR 0x80]]"

definition strip_prefix :: "string list \<Rightarrow> string \<Rightarrow> string option" where
  "strip_prefix ps s = (case filter (\<lambda>p. p \<noteq> [] \<and> take (length p) s = p) ps of [] \<Rightarrow> None | p # _ \<Rightarrow> Some (drop (length p) s))"

lemma strip_prefix_shorter: "strip_prefix ps s = Some s' \<Longrightarrow> length s' < length s"
proof (cases "filter (\<lambda>p. p \<noteq> [] \<and> take (length p) s = p) ps")
  case (Cons p qs)
  then have "p \<in> set (filter (\<lambda>p. p \<noteq> [] \<and> take (length p) s = p) ps)" by simp
  then have p: "p \<noteq> []" "take (length p) s = p" by auto
  then have "s \<noteq> []" by auto
  assume "strip_prefix ps s = Some s'"
  with Cons have "s' = drop (length p) s" by (simp add: strip_prefix_def)
  with p \<open>s \<noteq> []\<close> show ?thesis by simp
qed (simp add: strip_prefix_def)

function trim_left :: "string list \<Rightarrow> string \<Rightarrow> string" where
  "trim_left ps s = (case strip_prefix ps s of None \<Rightarrow> s | Some s' \<Rightarrow> trim_left ps s')"
  by pat_completeness auto
termination
  by (relation "measure (\<lambda>(ps, s). length s)") (auto dest: strip_prefix_shorter)

declare trim_left.simps [simp del]

definition trim_right :: "string list \<Rightarrow> string \<Rightarrow> string" where
  "trim_right ps s = rev (trim_left (map rev ps) (rev s))"

definition TrimSpace :: "string \<Rightarrow> string" where
  "TrimSpace s = trim_right space_runes (trim_left space_runes s)"

definition TrimRight_slash :: "string \<Rightarrow> string" where
  "TrimRight_slash s = trim_right [''/''] s"

text \<open>
  The verb \<open>%q\<close> of a string: double quotes around it, and the escapes of \<open>strconv.Quote\<close> on ASCII
  characters. Bytes from \<open>0x80\<close> on are kept, as \<open>Quote\<close> keeps printable text; calendar URIs of decoded
  proofs are ASCII.
\<close>

definition quote_string :: "string \<Rightarrow> string" where
  "quote_string s =
     [CHR 0x22] @ concat (map (\<lambda>c. let r = of_char c :: nat in
        if r = 0x22 then [CHR 0x5c, CHR 0x22] else if r = 0x27 then [c]
        else if r < 0x80 then escape_rune r else [c]) s) @ [CHR 0x22]"

section \<open>HTTP\<close>

record http_request =
  rq_Method :: string
  rq_URL :: string
  rq_Header :: "(string \<times> string) list"
  rq_Body :: bytes

record http_response =
  rs_StatusCode :: int
  rs_Body :: reader

type_synonym http = "nat \<Rightarrow> http_request \<Rightarrow> http_response result"

text \<open>
  \<open>io.ReadAll(io.LimitReader(r, n))\<close>: reading stops after \<open>n\<close> bytes, at the end or at an error. An
  error that a read returns together with its last bytes is seen only if all of them fit.
\<close>

fun ReadAll_limited :: "nat \<Rightarrow> bytes \<Rightarrow> reader \<Rightarrow> bytes result" where
  "ReadAll_limited n acc [] = Ok acc"
| "ReadAll_limited n acc ((buf, err) # r) =
     (if n = 0 then Ok acc
      else if length buf > n then Ok (acc @ take n buf)
      else
        (case err of
           Some EOF \<Rightarrow> Ok (acc @ buf)
         | Some (ReadErr e) \<Rightarrow> Err e
         | None \<Rightarrow> ReadAll_limited (n - length buf) (acc @ buf) r))"

section \<open>The client of one calendar\<close>

definition acceptHeader :: string where "acceptHeader = ''application/vnd.opentimestamps.v1''"
definition maxResponse :: nat where "maxResponse = 10000"

record Client =
  cl_baseURL :: string
  cl_userAgent :: string

definition NewClient :: "string \<Rightarrow> Client" where
  "NewClient calendarURL = \<lparr>cl_baseURL = TrimRight_slash calendarURL, cl_userAgent = ''ots-go/0.1.0''\<rparr>"

definition Client_Submit :: "hashes \<Rightarrow> http \<Rightarrow> Client \<Rightarrow> nat \<Rightarrow> bytes \<Rightarrow> Timestamp result" where
  "Client_Submit H http c k digest =
     andThen (http k \<lparr>rq_Method = ''POST'', rq_URL = cl_baseURL c @ ''/digest'',
                rq_Header = [(''Accept'', acceptHeader), (''User-Agent'', cl_userAgent c),
                             (''Content-Type'', ''application/octet-stream'')],
                rq_Body = digest\<rparr>) (\<lambda>resp.
     andThen (ReadAll_limited maxResponse [] (rs_Body resp)) (\<lambda>body.
     if rs_StatusCode resp \<noteq> 200 then Err (ErrorString (''submit failed: '' @ string_of_bytes body))
     else ts_DeserializeBytes H body digest))"

definition Client_GetTimestamp :: "hashes \<Rightarrow> http \<Rightarrow> Client \<Rightarrow> Upgrader" where
  "Client_GetTimestamp H http c k calendarURI commitment =
     andThen (http k \<lparr>rq_Method = ''GET'', rq_URL = cl_baseURL c @ ''/timestamp/'' @ hex_EncodeToString commitment,
                rq_Header = [(''Accept'', acceptHeader), (''User-Agent'', cl_userAgent c)], rq_Body = []\<rparr>) (\<lambda>resp.
     andThen (ReadAll_limited maxResponse [] (rs_Body resp)) (\<lambda>body.
     if rs_StatusCode resp \<noteq> 200 then Err (ErrorString (''get timestamp failed: '' @ string_of_bytes body))
     else ts_DeserializeBytes H body commitment))"

section \<open>The pool\<close>

definition DefaultCalendars :: "string list" where
  "DefaultCalendars = [''https://alice.btc.calendar.opentimestamps.org'',
     ''https://bob.btc.calendar.opentimestamps.org'', ''https://finney.calendar.eternitywall.com'']"

record Pool =
  p_calendars :: "string \<rightharpoonup> Client"
  p_urls :: "string list"

fun NewPool_loop :: "string list \<Rightarrow> string list \<Rightarrow> Pool \<Rightarrow> Pool" where
  "NewPool_loop [] seen p = p"
| "NewPool_loop (raw # rest) seen p =
     (let u = TrimRight_slash (TrimSpace raw) in
      if u = '''' then NewPool_loop rest seen p
      else if u \<in> set seen then NewPool_loop rest seen p
      else NewPool_loop rest (u # seen)
             (p\<lparr>p_urls := p_urls p @ [u], p_calendars := (p_calendars p)(u \<mapsto> NewClient u)\<rparr>))"

definition NewPool :: "string list \<Rightarrow> Pool result" where
  "NewPool urls =
     (if length urls = 0 then Err (ErrorString ''at least one calendar URL required'')
      else
        let p = NewPool_loop urls [] \<lparr>p_calendars = Map.empty, p_urls = []\<rparr> in
        if length (p_urls p) = 0 then Err (ErrorString ''no valid calendar URLs'') else Ok p)"

text \<open>Each client keeps its base URL; the timeout is a property of the network.\<close>

definition NewPoolWithTimeout :: "string list \<Rightarrow> int \<Rightarrow> Pool result" where
  "NewPoolWithTimeout urls timeout = NewPool urls"

definition URLs :: "Pool \<Rightarrow> string list" where
  "URLs p = p_urls p"

definition Pool_Client :: "Pool \<Rightarrow> string \<Rightarrow> Client option" where
  "Pool_Client p calendarURI = p_calendars p (TrimRight_slash (TrimSpace calendarURI))"

text \<open>
  \<open>Stamp\<close> sends its requests in parallel and reads the results in the order of their arrival, \<open>order\<close>,
  a permutation of the URLs. The \<open>k\<close>-th arrival is the call \<open>k\<close> of the network.
\<close>

fun Stamp_results :: "hashes \<Rightarrow> http \<Rightarrow> Pool \<Rightarrow> bytes \<Rightarrow> nat \<Rightarrow> string list \<Rightarrow> Timestamp result list" where
  "Stamp_results H http p digest k [] = []"
| "Stamp_results H http p digest k (u # us) =
     (case p_calendars p u of
        None \<Rightarrow> Panic ''runtime error: invalid memory address or nil pointer dereference''
      | Some c \<Rightarrow> Client_Submit H http c k digest) # Stamp_results H http p digest (Suc k) us"

fun Stamp_merge :: "hashes \<Rightarrow> Timestamp \<Rightarrow> Timestamp option \<Rightarrow> go_error list \<Rightarrow> Timestamp result list \<Rightarrow>
    (Timestamp option \<times> go_error list) result"
where
  "Stamp_merge H root acc errs [] = Ok (acc, errs)"
| "Stamp_merge H root acc errs (r # rs) =
     (case r of
        Panic p \<Rightarrow> Panic p
      | Err e \<Rightarrow> Stamp_merge H root acc (errs @ [e]) rs
      | Ok proof \<Rightarrow>
          (case Merge H (case acc of None \<Rightarrow> root | Some m \<Rightarrow> m) proof of
             (m, Ok _) \<Rightarrow> Stamp_merge H root (Some m) errs rs
           | (m, Err e) \<Rightarrow> Stamp_merge H root (Some m) (errs @ [e]) rs
           | (m, Panic p) \<Rightarrow> Panic p))"

fun join_errors :: "go_error list \<Rightarrow> string" where
  "join_errors [] = ''''"
| "join_errors [e] = error_string e"
| "join_errors (e # f # es) = error_string e @ '' '' @ join_errors (f # es)"

definition Pool_Stamp :: "hashes \<Rightarrow> http \<Rightarrow> Pool \<Rightarrow> string list \<Rightarrow> bytes \<Rightarrow> Timestamp result" where
  "Pool_Stamp H http p order digest =
     andThen (New digest) (\<lambda>root.
     andThen (Stamp_merge H root None [] (Stamp_results H http p digest 0 order)) (\<lambda>(acc, errs).
     case acc of
       None \<Rightarrow> Err (ErrorString (''all calendars failed: ['' @ join_errors errs @ '']''))
     | Some m \<Rightarrow> Ok m))"

definition Pool_GetTimestamp :: "hashes \<Rightarrow> http \<Rightarrow> Pool \<Rightarrow> Upgrader" where
  "Pool_GetTimestamp H http p k calendarURI commitment =
     (case Pool_Client p calendarURI of
        None \<Rightarrow> Err (ErrorString (''unknown calendar '' @ quote_string calendarURI))
      | Some c \<Rightarrow> Client_GetTimestamp H http c k calendarURI commitment)"

fun first_proof :: "Timestamp result list \<Rightarrow> go_error list \<Rightarrow> Timestamp result" where
  "first_proof [] errs = Err (ErrorString (''commitment not found on any calendar: ['' @ join_errors errs @ '']''))"
| "first_proof (r # rs) errs =
     (case r of Ok proof \<Rightarrow> Ok proof | Err e \<Rightarrow> first_proof rs (errs @ [e]) | Panic p \<Rightarrow> Panic p)"

fun Get_results :: "hashes \<Rightarrow> http \<Rightarrow> Pool \<Rightarrow> bytes \<Rightarrow> nat \<Rightarrow> string list \<Rightarrow> Timestamp result list" where
  "Get_results H http p commitment k [] = []"
| "Get_results H http p commitment k (u # us) =
     (case p_calendars p u of
        None \<Rightarrow> Panic ''runtime error: invalid memory address or nil pointer dereference''
      | Some c \<Rightarrow> Client_GetTimestamp H http c k u commitment) # Get_results H http p commitment (Suc k) us"

text \<open>A panic in one of the parallel calls ends the program, whatever the others return.\<close>

definition some_panic :: "'a result list \<Rightarrow> string option" where
  "some_panic rs = (case filter is_panic rs of [] \<Rightarrow> None | r # _ \<Rightarrow> (case r of Panic p \<Rightarrow> Some p | _ \<Rightarrow> None))"

definition GetTimestampAny :: "hashes \<Rightarrow> http \<Rightarrow> Pool \<Rightarrow> string list \<Rightarrow> bytes \<Rightarrow> Timestamp result" where
  "GetTimestampAny H http p order commitment =
     (let rs = Get_results H http p commitment 0 order
      in case some_panic rs of Some q \<Rightarrow> Panic q | None \<Rightarrow> first_proof rs [])"

definition Pool_Upgrade :: "hashes \<Rightarrow> http \<Rightarrow> Pool \<Rightarrow> Timestamp \<Rightarrow> Timestamp \<times> bool result" where
  "Pool_Upgrade H http p ts = Upgrade H (Pool_GetTimestamp H http p) ts"

text \<open>
  \<open>Ping\<close>: call 0 is the HEAD request, call 1 the GET request after its failure. A request that cannot be
  built (an invalid URL) is a call that fails, for both methods alike.
\<close>

definition Ping :: "http \<Rightarrow> Pool \<Rightarrow> string \<Rightarrow> unit result" where
  "Ping http p url =
     (case p_calendars p url of
        None \<Rightarrow> Err (ErrorString (''unknown calendar '' @ quote_string url))
      | Some c \<Rightarrow>
          (let req = (\<lambda>meth. \<lparr>rq_Method = meth, rq_URL = cl_baseURL c @ ''/'', rq_Header = [], rq_Body = []\<rparr>)
           in case http 0 (req ''HEAD'') of
                Panic q \<Rightarrow> Panic q
              | Ok _ \<Rightarrow> Ok ()
              | Err e \<Rightarrow> (case http 1 (req ''GET'') of Panic q \<Rightarrow> Panic q | Err _ \<Rightarrow> Err e | Ok _ \<Rightarrow> Ok ())))"

section \<open>Stamping, upgrading, verifying\<close>

definition merge_into :: "hashes \<Rightarrow> DetachedTimestampFile \<Rightarrow> Timestamp \<Rightarrow> DetachedTimestampFile result" where
  "merge_into H det proof =
     (case Merge H (df_Timestamp det) proof of
        (m, Ok _) \<Rightarrow> Ok (det\<lparr>df_Timestamp := m\<rparr>) | (m, Err e) \<Rightarrow> Err e | (m, Panic p) \<Rightarrow> Panic p)"

definition StampDigest :: "hashes \<Rightarrow> http \<Rightarrow> Client \<Rightarrow> bytes \<Rightarrow> DetachedTimestampFile result" where
  "StampDigest H http c digest =
     andThen (New digest) (\<lambda>root.
     andThen (NewDetached root) (\<lambda>det.
     andThen (Client_Submit H http c 0 digest) (\<lambda>proof. merge_into H det proof)))"

definition StampFile :: "hashes \<Rightarrow> http \<Rightarrow> Client \<Rightarrow> reader \<Rightarrow> DetachedTimestampFile result" where
  "StampFile H http c r =
     andThen (FromReader H r) (\<lambda>det.
     andThen (Client_Submit H http c 0 (FileDigest det)) (\<lambda>proof. merge_into H det proof))"

definition ots_Upgrade :: "hashes \<Rightarrow> http \<Rightarrow> Client \<Rightarrow> Timestamp \<Rightarrow> Timestamp \<times> bool result" where
  "ots_Upgrade H http c ts = Upgrade H (Client_GetTimestamp H http c) ts"

text \<open>
  \<open>UpgradeUntilConfirmed\<close>: what happens in the \<open>select\<close> of each round is a list of events; the network of
  round \<open>i\<close> is \<open>net i\<close>. The result \<open>None\<close> means that the loop still waits after these events.
\<close>

datatype poll_event = CtxDone go_error | TimerFired

fun UpgradeUntilConfirmed :: "hashes \<Rightarrow> (nat \<Rightarrow> http) \<Rightarrow> Client \<Rightarrow> nat \<Rightarrow> poll_event list \<Rightarrow> Timestamp \<Rightarrow>
    Timestamp \<times> unit result option"
where
  "UpgradeUntilConfirmed H net c i events ts =
     (case ots_Upgrade H (net i) c ts of
        (ts', Err e) \<Rightarrow> (ts', Some (Err e))
      | (ts', Panic p) \<Rightarrow> (ts', Some (Panic p))
      | (ts', Ok _) \<Rightarrow>
          if IsComplete ts' then (ts', Some (Ok ()))
          else
            (case events of
               [] \<Rightarrow> (ts', None)
             | CtxDone e # _ \<Rightarrow> (ts', Some (Err e))
             | TimerFired # events' \<Rightarrow> UpgradeUntilConfirmed H net c (Suc i) events' ts'))"

text \<open>Go has a header type in each of \<open>ots\<close> and \<open>bitcoin\<close>, with the same fields; the adapter copies one to the other.\<close>

definition headerAdapter_BlockHeader :: "HeaderSource \<Rightarrow> HeaderSource" where
  "headerAdapter_BlockHeader src k height =
     andThen (src k height) (\<lambda>h.
     Ok \<lparr>bh_Height = bh_Height h, bh_Hash = bh_Hash h, bh_MerkleRoot = bh_MerkleRoot h, bh_Time = bh_Time h\<rparr>)"

lemma headerAdapter_id [simp]: "headerAdapter_BlockHeader = (\<lambda>src. src)"
proof (intro ext)
  show "headerAdapter_BlockHeader src k height = src k height" for src k height
    by (cases "src k height") (simp_all add: headerAdapter_BlockHeader_def)
qed

definition options :: "hashes \<Rightarrow> http \<Rightarrow> Client option \<Rightarrow> HeaderSource option \<Rightarrow> Options" where
  "options H http c headers = \<lparr>o_Upgrader = map_option (Client_GetTimestamp H http) c, o_Headers = map_option headerAdapter_BlockHeader headers\<rparr>"

definition ots_VerifyDetached :: "hashes \<Rightarrow> http \<Rightarrow> Client option \<Rightarrow> HeaderSource option \<Rightarrow> reader \<Rightarrow>
    DetachedTimestampFile \<Rightarrow> Timestamp \<times> Result result"
where
  "ots_VerifyDetached H http c headers file det = VerifyDetached H (options H http c headers) file (df_Timestamp det)"

definition ots_VerifyProof :: "hashes \<Rightarrow> http \<Rightarrow> Client option \<Rightarrow> HeaderSource option \<Rightarrow> Timestamp \<Rightarrow> bytes \<Rightarrow>
    Timestamp \<times> Result result"
where
  "ots_VerifyProof H http c headers proof digest = VerifyProof H (options H http c headers) proof digest"

definition ots_ParseProof :: "Timestamp \<Rightarrow> bytes \<Rightarrow> ParseResult result" where
  "ots_ParseProof proof digest = ParseProof proof digest"

definition ots_IsComplete :: "Timestamp \<Rightarrow> bool" where
  "ots_IsComplete ts = IsComplete ts"

text \<open>\<open>VerifyFile\<close>, given what reading the proof file and opening the content file return.\<close>

definition VerifyFile :: "hashes \<Rightarrow> http \<Rightarrow> Client option \<Rightarrow> HeaderSource option \<Rightarrow> reader result \<Rightarrow> bytes result \<Rightarrow>
    Result result"
where
  "VerifyFile H http c headers openFile otsFile =
     andThen otsFile (\<lambda>otsData.
     andThen (DeserializeDetachedBytes H otsData) (\<lambda>det.
     andThen openFile (\<lambda>f. snd (ots_VerifyDetached H http c headers f det))))"

section \<open>Trimming\<close>

lemma trim_left_fixed: "strip_prefix ps (trim_left ps s) = None"
proof (induction ps s rule: trim_left.induct)
  case (1 ps s)
  then show ?case by (subst trim_left.simps, cases "strip_prefix ps s") (simp_all add: trim_left.simps [of ps s])
qed

lemma trim_left_id: "strip_prefix ps s = None \<Longrightarrow> trim_left ps s = s"
  by (simp add: trim_left.simps)

lemma TrimRight_slash_idem [simp]: "TrimRight_slash (TrimRight_slash s) = TrimRight_slash s"
  by (simp add: TrimRight_slash_def trim_right_def trim_left_id trim_left_fixed)

lemma TrimRight_slash_last: "TrimRight_slash s \<noteq> [] \<Longrightarrow> last (TrimRight_slash s) \<noteq> CHR ''/''"
proof -
  assume "TrimRight_slash s \<noteq> []"
  then obtain c r where r: "trim_left [''/''] (rev s) = c # r" by (cases "trim_left [''/''] (rev s)") (auto simp: TrimRight_slash_def trim_right_def)
  with trim_left_fixed [of "[''/'']" "rev s"] have "c \<noteq> CHR ''/''" by (auto simp: strip_prefix_def split: if_splits)
  with r show ?thesis by (simp add: TrimRight_slash_def trim_right_def)
qed

section \<open>What a client returns\<close>

interpretation client_up: upgrader H "Client_GetTimestamp H http c" for H http c
  by unfold_locales
    (auto simp: Client_GetTimestamp_def andThen_eq_Ok split: if_splits intro: ts_DeserializeBytes_ok)

interpretation pool_up: upgrader H "Pool_GetTimestamp H http p" for H http p
  by unfold_locales (auto simp: Pool_GetTimestamp_def split: option.splits intro: client_up.GetTimestamp_ok)

lemma Client_Submit_ok: "Client_Submit H http c k digest = Ok t \<Longrightarrow> stamp_ok H digest t"
  by (auto simp: Client_Submit_def andThen_eq_Ok split: if_splits intro: ts_DeserializeBytes_ok)

section \<open>The pool\<close>

definition normal_url :: "string \<Rightarrow> string" where
  "normal_url raw = TrimRight_slash (TrimSpace raw)"

definition pool_ok :: "Pool \<Rightarrow> bool" where
  "pool_ok p \<longleftrightarrow> distinct (p_urls p) \<and> '''' \<notin> set (p_urls p) \<and> (\<forall>u \<in> set (p_urls p). TrimRight_slash u = u) \<and>
     p_calendars p = (\<lambda>u. if u \<in> set (p_urls p) then Some (NewClient u) else None)"

lemma NewPool_loop_ok:
  assumes "pool_ok p" and "set seen = set (p_urls p)"
  shows "pool_ok (NewPool_loop urls seen p) \<and>
    set (p_urls (NewPool_loop urls seen p)) = set (p_urls p) \<union> (normal_url ` set urls - {''''})"
  using assms
proof (induction urls seen p rule: NewPool_loop.induct)
  case (2 raw rest seen p)
  let ?u = "normal_url raw"
  show ?case
  proof (cases "?u = '''' \<or> ?u \<in> set seen")
    case True
    then show ?thesis using 2 by (auto simp: normal_url_def Let_def)
  next
    case False
    let ?p = "p\<lparr>p_urls := p_urls p @ [?u], p_calendars := (p_calendars p)(?u \<mapsto> NewClient ?u)\<rparr>"
    have p: "pool_ok ?p" using 2(4,5) False by (auto simp: pool_ok_def normal_url_def fun_eq_iff)
    have "set (?u # seen) = set (p_urls ?p)" using 2(5) by auto
    with "2.IH"(3) [of ?u] p False
    have "pool_ok (NewPool_loop rest (?u # seen) ?p) \<and>
        set (p_urls (NewPool_loop rest (?u # seen) ?p)) = set (p_urls ?p) \<union> (normal_url ` set rest - {''''})"
      by (auto simp: normal_url_def)
    moreover have "NewPool_loop (raw # rest) seen p = NewPool_loop rest (?u # seen) ?p"
      using False by (simp add: normal_url_def Let_def)
    ultimately show ?thesis using False by auto
  qed
qed simp

lemma NewPool_OkD:
  "NewPool urls = Ok p \<Longrightarrow> pool_ok p \<and> p_urls p \<noteq> [] \<and> set (p_urls p) = normal_url ` set urls - {''''}"
  using NewPool_loop_ok [of "\<lparr>p_calendars = Map.empty, p_urls = []\<rparr>" "[]" urls]
  by (auto simp: NewPool_def pool_ok_def Let_def split: if_splits)

lemma Stamp_results_ok:
  "Ok t \<in> set (Stamp_results H http p digest k us) \<Longrightarrow> stamp_ok H digest t"
  by (induction us arbitrary: k) (auto dest: Client_Submit_ok [OF sym] split: option.splits)

definition oks :: "'a result list \<Rightarrow> 'a set" where
  "oks rs = {t. Ok t \<in> set rs}"

lemma Stamp_merge_correct:
  assumes "\<forall>r \<in> set rs. \<not> is_panic r" and "\<forall>t \<in> oks rs. stamp_ok H m t" and "length m \<le> MaxMsgLength"
    and "\<And>t. acc = Some t \<Longrightarrow> stamp_ok H m t"
  shows "\<exists>acc' errs'. Stamp_merge H (Timestamp m [] []) acc errs rs = Ok (acc', errs') \<and>
    (acc' = None \<longleftrightarrow> acc = None \<and> oks rs = {}) \<and>
    (\<forall>t. acc' = Some t \<longrightarrow> stamp_ok H m t \<and> set (AllAttestations t) =
       (case acc of None \<Rightarrow> {} | Some a \<Rightarrow> set (AllAttestations a)) \<union> (\<Union>u \<in> oks rs. set (AllAttestations u)))"
  using assms
proof (induction rs arbitrary: acc errs)
  case Nil
  then show ?case by (auto simp: oks_def)
next
  case (Cons r rs)
  have sub: "\<forall>r \<in> set rs. \<not> is_panic r" "\<forall>t \<in> oks rs. stamp_ok H m t" using Cons.prems(1,2) by (auto simp: oks_def)
  show ?case
  proof (cases r)
    case (Err e)
    then show ?thesis using Cons.IH [OF sub Cons.prems(3,4), of acc "errs @ [e]"] by (simp add: oks_def)
  next
    case (Panic q)
    then show ?thesis using Cons.prems(1) by simp
  next
    case (Ok t)
    let ?base = "case acc of None \<Rightarrow> Timestamp m [] [] | Some a \<Rightarrow> a"
    have t: "stamp_ok H m t" using Cons.prems(2) Ok by (simp add: oks_def)
    have base: "linked H ?base" "ts_Msg ?base = m" "?base = Timestamp m [] [] \<or> full ?base \<and> ts_depth ?base \<le> recursionLimit"
      using Cons.prems(3,4) by (auto simp: stamp_ok_def split: option.splits)
    obtain a where a: "Merge H ?base t = (a, Ok ())" "stamp_ok H m a"
      "set (AllAttestations a) = set (AllAttestations ?base) \<union> set (AllAttestations t)"
      using Merge_stamp_ok [OF t base] by blast
    obtain acc' errs' where IH: "Stamp_merge H (Timestamp m [] []) (Some a) errs rs = Ok (acc', errs')"
      "acc' \<noteq> None" "\<forall>t. acc' = Some t \<longrightarrow> stamp_ok H m t \<and>
         set (AllAttestations t) = set (AllAttestations a) \<union> (\<Union>u \<in> oks rs. set (AllAttestations u))"
      using Cons.IH [OF sub Cons.prems(3), of "Some a" errs] a(2) by auto
    moreover have "oks (r # rs) = insert t (oks rs)" by (auto simp: oks_def Ok)
    ultimately show ?thesis using Ok a by (auto split: option.splits)
  qed
qed

section \<open>Stamping\<close>

lemma merge_into_ok:
  assumes "df_Timestamp det = Timestamp m [] []" and "length m = 32" and "stamp_ok H m t"
  shows "\<exists>d. merge_into H det t = Ok d \<and> df_ok H d \<and> FileDigest d = m \<and>
    set (AllAttestations (df_Timestamp d)) = set (AllAttestations t)"
proof -
  obtain r where "Merge H (Timestamp m [] []) t = (r, Ok ())" "stamp_ok H m r"
    "set (AllAttestations r) = set (AllAttestations t)"
    using Merge_stamp_ok [OF assms(3), of "Timestamp m [] []"] assms(2) by (auto simp: MaxMsgLength_def)
  then show ?thesis using assms(1,2) by (auto simp: merge_into_def df_ok_def stamp_ok_def FileDigest_def)
qed


lemma VerifyFile_valid:
  assumes "VerifyFile H http c headers (Ok file) otsFile = Ok res" and "r_Valid res"
  shows "\<exists>digest src k header xs. SHA256_HashReader H file = Ok digest \<and> headers = Some src \<and>
    src k (r_BlockHeight res) = Ok header \<and> list_all op_ok xs \<and> apply_ops H xs digest = Ok (bh_MerkleRoot header) \<and>
    r_VerifiedAt res = Some (bh_Time header) \<and> r_BlockHash res = bh_Hash header"
proof -
  from assms(1) obtain bs det p' where det: "DeserializeDetachedBytes H bs = Ok det"
    and v: "VerifyDetached H (options H http c headers) file (df_Timestamp det) = (p', Ok res)"
    by (auto simp: VerifyFile_def ots_VerifyDetached_def andThen_eq_Ok prod_eq_iff)
  have linked: "linked H (df_Timestamp det)" using DeserializeDetached_OkD [OF det] by (simp add: df_ok_def)
  from v assms(2) obtain digest where digest: "SHA256_HashReader H file = Ok digest"
    and vp: "VerifyProof H (options H http c headers) (df_Timestamp det) digest = (p', Ok res)"
    by (auto simp: VerifyDetached_def refuse_def zero_Result_def split: result.splits if_splits)
  have up: "upgrader H u" if "o_Upgrader (options H http c headers) = Some u" for u
    using that client_up.upgrader_axioms by (auto simp: options_def)
  from VerifyProof_valid [OF linked up vp assms(2)] digest show ?thesis
    by (auto simp: options_def)
qed

lemma Pool_Stamp_outcome:
  assumes "NewPool urls = Ok p" and "mset order = mset (p_urls p)" and "length digest \<le> MaxMsgLength"
    and "\<And>c k. \<not> is_panic (Client_Submit H http c k digest)"
  shows "let proofs = oks (Stamp_results H http p digest 0 order) in
    (proofs \<noteq> {} \<longrightarrow> (\<exists>t. Pool_Stamp H http p order digest = Ok t \<and> stamp_ok H digest t \<and>
       set (AllAttestations t) = (\<Union>u \<in> proofs. set (AllAttestations u)))) \<and>
    (proofs = {} \<longrightarrow> (\<exists>e. Pool_Stamp H http p order digest = Err e))"
proof -
  let ?rs = "Stamp_results H http p digest 0 order"
  have order: "set order = set (p_urls p)" using assms(2) by (metis set_mset_mset)
  have "\<not> is_panic r" if "set us \<subseteq> set (p_urls p)" "r \<in> set (Stamp_results H http p digest k us)" for r us k
    using that NewPool_OkD [OF assms(1)] assms(4)
    by (induction us arbitrary: k) (auto simp: pool_ok_def)
  then have np: "\<forall>r \<in> set ?rs. \<not> is_panic r" using order by blast
  have ok: "\<forall>t \<in> oks ?rs. stamp_ok H digest t" by (auto simp: oks_def intro: Stamp_results_ok)
  obtain acc errs where "Stamp_merge H (Timestamp digest [] []) None [] ?rs = Ok (acc, errs)"
    "acc = None \<longleftrightarrow> oks ?rs = {}" "\<forall>t. acc = Some t \<longrightarrow> stamp_ok H digest t \<and>
       set (AllAttestations t) = (\<Union>u \<in> oks ?rs. set (AllAttestations u))"
    using Stamp_merge_correct [OF np ok assms(3), of None "[]"] by auto
  then show ?thesis using assms(3) by (cases acc) (auto simp: Pool_Stamp_def New_Ok Let_def)
qed

section \<open>Properties\<close>

text \<open>
  A pool of calendars stamps a digest, whatever the order in which the answers arrive: if a
  calendar answers with a proof, the result is a proof on the digest that can be serialized and holds
  exactly the attestations of all the proofs received; if none does, the result is an error.
\<close>

theorem Pool_Stamp_correct:
  assumes "NewPool urls = Ok p" and "mset order = mset (p_urls p)" and "length digest \<le> MaxMsgLength"
    and "\<And>c k. \<not> is_panic (Client_Submit H http c k digest)"
  shows "let proofs = oks (Stamp_results H http p digest 0 order) in
    (proofs \<noteq> {} \<longrightarrow> (\<exists>t. Pool_Stamp H http p order digest = Ok t \<and> stamp_ok H digest t \<and>
       set (AllAttestations t) = (\<Union>u \<in> proofs. set (AllAttestations u)))) \<and>
    (proofs = {} \<longrightarrow> (\<exists>e. Pool_Stamp H http p order digest = Err e))"
  using Pool_Stamp_outcome [OF assms] .

text \<open>A network that answers every submission with a Bitcoin attestation on the digest.\<close>

definition sample_http :: http where
  "sample_http k rq = Ok \<lparr>rs_StatusCode = 200,
     rs_Body = [(0 # att_Serialize [] (BitcoinBlockHeaderAttestation 5), Some EOF)]\<rparr>"

lemma sample_submit:
  "length m \<le> MaxMsgLength \<Longrightarrow> Client_Submit H sample_http c k m = Ok (Timestamp m [BitcoinBlockHeaderAttestation 5] [])"
proof -
  assume m: "length m \<le> MaxMsgLength"
  have len: "length (att_Serialize [] (BitcoinBlockHeaderAttestation 5)) < maxResponse" by code_simp
  have "ts_DeserializeBytes H (0 # att_Serialize [] (BitcoinBlockHeaderAttestation 5)) m =
      Ok (Timestamp m [BitcoinBlockHeaderAttestation 5] [])"
    using notary_Deserialize_enc [of "BitcoinBlockHeaderAttestation 5" "[]"] m
    by (simp add: ts_DeserializeBytes_def recursionLimit_def ts_Deserialize.simps Deserialize_loop.simps
        readItem.simps New_def NewContext_def)
  then show ?thesis using len by (simp add: Client_Submit_def sample_http_def del: att_Serialize.simps)
qed

theorem Pool_Stamp_correct_witness:
  "\<exists>p t. NewPool [''https://a/'', '' https://b''] = Ok p \<and>
     Pool_Stamp const_hashes sample_http p (p_urls p) [1] = Ok t \<and> stamp_ok const_hashes [1] t"
proof -
  obtain p where p: "NewPool [''https://a/'', '' https://b''] = Ok p" "p_urls p \<noteq> []"
  proof -
    have "is_ok (NewPool [''https://a/'', '' https://b''])" by code_simp
    then show ?thesis using that NewPool_OkD by (auto simp: is_ok_iff)
  qed
  let ?rs = "Stamp_results const_hashes sample_http p [1] 0 (p_urls p)"
  obtain u us where "p_urls p = u # us" using p(2) by (cases "p_urls p") auto
  then have "oks ?rs \<noteq> {}" using NewPool_OkD [OF p(1)]
    by (auto simp: oks_def pool_ok_def sample_submit MaxMsgLength_def)
  with Pool_Stamp_correct [OF p(1) refl, of "[1]" const_hashes sample_http] p(1) show ?thesis
    by (auto simp: sample_submit MaxMsgLength_def Let_def)
qed

text \<open>
  \<open>NewPool\<close> keeps the distinct non-empty normalised URLs (spaces and trailing slashes removed), with a
  client for each and for nothing else, and fails exactly if there is none.
\<close>

theorem NewPool_correct:
  "(is_ok (NewPool urls) \<longleftrightarrow> (\<exists>u \<in> set urls. TrimRight_slash (TrimSpace u) \<noteq> '''')) \<and>
   (NewPool urls = Ok p \<longrightarrow> distinct (p_urls p) \<and>
      set (p_urls p) = {u. u \<noteq> '''' \<and> (\<exists>raw \<in> set urls. u = TrimRight_slash (TrimSpace raw))} \<and>
      (\<forall>u \<in> set (p_urls p). last u \<noteq> CHR ''/'' \<and> p_calendars p u = Some \<lparr>cl_baseURL = u, cl_userAgent = ''ots-go/0.1.0''\<rparr>) \<and>
      dom (p_calendars p) = set (p_urls p))"
proof (intro conjI impI)
  have "set (p_urls (NewPool_loop urls [] \<lparr>p_calendars = Map.empty, p_urls = []\<rparr>)) = normal_url ` set urls - {''''}"
    using NewPool_loop_ok [of "\<lparr>p_calendars = Map.empty, p_urls = []\<rparr>" "[]" urls] by (simp add: pool_ok_def)
  then have "p_urls (NewPool_loop urls [] \<lparr>p_calendars = Map.empty, p_urls = []\<rparr>) \<noteq> [] \<longleftrightarrow>
      normal_url ` set urls - {''''} \<noteq> {}" by (metis set_empty)
  then show "is_ok (NewPool urls) \<longleftrightarrow> (\<exists>u \<in> set urls. TrimRight_slash (TrimSpace u) \<noteq> '''')"
    by (auto simp: NewPool_def Let_def normal_url_def)
next
  assume "NewPool urls = Ok p"
  then have p: "pool_ok p" and urls: "set (p_urls p) = normal_url ` set urls - {''''}" using NewPool_OkD by blast+
  then show "distinct (p_urls p)" by (simp add: pool_ok_def)
  show "set (p_urls p) = {u. u \<noteq> '''' \<and> (\<exists>raw \<in> set urls. u = TrimRight_slash (TrimSpace raw))}"
    unfolding urls normal_url_def by blast
  have "p_calendars p = (\<lambda>u. if u \<in> set (p_urls p) then Some (NewClient u) else None)" using p by (simp add: pool_ok_def)
  then show "dom (p_calendars p) = set (p_urls p)" by (simp only: dom_def) simp
  show "\<forall>u \<in> set (p_urls p). last u \<noteq> CHR ''/'' \<and> p_calendars p u = Some \<lparr>cl_baseURL = u, cl_userAgent = ''ots-go/0.1.0''\<rparr>"
  proof
    fix u assume u: "u \<in> set (p_urls p)"
    with p have "TrimRight_slash u = u" "u \<noteq> ''''" "p_calendars p u = Some (NewClient u)"
      unfolding pool_ok_def by auto
    with TrimRight_slash_last [of u]
    show "last u \<noteq> CHR ''/'' \<and> p_calendars p u = Some \<lparr>cl_baseURL = u, cl_userAgent = ''ots-go/0.1.0''\<rparr>"
      by (simp add: NewClient_def)
  qed
qed

text \<open>
  \<open>StampDigest\<close> on a 32-byte digest returns, if the calendar answers with a proof, a detached file on the
  digest with exactly the attestations of the answer, which serializes to bytes that are read back;
  \<open>StampFile\<close> does the same for the SHA-256 digest of the content. Any failure of the calendar is returned.
\<close>

theorem Stamp_correct:
  assumes "length digest = 32" and "hash_sizes H"
  shows "(\<forall>t. Client_Submit H http c 0 digest = Ok t \<longrightarrow>
      (\<exists>d. StampDigest H http c digest = Ok d \<and> df_ok H d \<and> FileDigest d = digest \<and>
        set (AllAttestations (df_Timestamp d)) = set (AllAttestations t))) \<and>
    (\<forall>e. Client_Submit H http c 0 digest = Err e \<longrightarrow> StampDigest H http c digest = Err e) \<and>
    (\<forall>d. StampFile H http c r = Ok d \<longrightarrow> df_ok H d \<and> SHA256_HashReader H r = Ok (FileDigest d))"
proof (intro conjI allI impI)
  have new: "New digest = Ok (Timestamp digest [] [])" "NewDetached (Timestamp digest [] []) = Ok \<lparr>df_Timestamp = Timestamp digest [] []\<rparr>"
    using assms(1) by (simp_all add: New_Ok MaxMsgLength_def NewDetached_def SHA256_DigestLength_def)
  show "\<exists>d. StampDigest H http c digest = Ok d \<and> df_ok H d \<and> FileDigest d = digest \<and>
        set (AllAttestations (df_Timestamp d)) = set (AllAttestations t)" if "Client_Submit H http c 0 digest = Ok t" for t
    using merge_into_ok [OF _ assms(1) Client_Submit_ok [OF that], of "\<lparr>df_Timestamp = Timestamp digest [] []\<rparr>"] that
    by (simp add: StampDigest_def new)
  show "StampDigest H http c digest = Err e" if "Client_Submit H http c 0 digest = Err e" for e
    using that by (simp add: StampDigest_def new)
  fix d assume ok: "StampFile H http c r = Ok d"
  then obtain m t where m: "SHA256_HashReader H r = Ok m" and t: "Client_Submit H http c 0 m = Ok t"
    and d: "merge_into H \<lparr>df_Timestamp = Timestamp m [] []\<rparr> t = Ok d" and len: "length m = 32"
    by (auto simp: StampFile_def FromReader_def andThen_eq_Ok New_def NewDetached_def FileDigest_def
        SHA256_DigestLength_def split: if_splits)
  from merge_into_ok [OF _ len Client_Submit_ok [OF t], of "\<lparr>df_Timestamp = Timestamp m [] []\<rparr>"] d m
  show "df_ok H d" "SHA256_HashReader H r = Ok (FileDigest d)" by auto
qed

text \<open>
  End to end: if \<open>VerifyFile\<close> returns a valid result, the proof file was decoded, and a chain of
  operations leads from the SHA-256 digest of the content file to the merkle root of a block header that
  the header source returned for the reported height and that has the reported time and hash.
\<close>

theorem VerifyFile_sound:
  assumes "VerifyFile H http c headers (Ok file) otsFile = Ok res" and "r_Valid res"
  shows "\<exists>digest src k header xs. SHA256_HashReader H file = Ok digest \<and> headers = Some src \<and>
    src k (r_BlockHeight res) = Ok header \<and> list_all op_ok xs \<and> apply_ops H xs digest = Ok (bh_MerkleRoot header) \<and>
    r_VerifiedAt res = Some (bh_Time header) \<and> r_BlockHash res = bh_Hash header"
  using VerifyFile_valid [OF assms] .

theorem VerifyFile_sound_witness:
  "\<exists>digest k h header xs. SHA256_HashReader const_hashes [([9], Some EOF)] = Ok digest \<and>
     sample_headers k h = Ok header \<and> apply_ops const_hashes xs digest = Ok (bh_MerkleRoot header)"
proof -
  let ?t = "Timestamp (replicate 32 7) [BitcoinBlockHeaderAttestation 5] []"
  let ?bs = "HeaderMagic @ [MajorVersion] @ [0x08] @ replicate 32 7 @ ts_enc ?t"
  have t: "linked const_hashes ?t" "full ?t" "ts_depth ?t \<le> recursionLimit" by code_simp+
  have "normal ?t = ?t" by code_simp
  then have det: "DeserializeDetachedBytes const_hashes ?bs = Ok \<lparr>df_Timestamp = ?t\<rparr>"
    using DeserializeDetached_prefix [of "replicate 32 7" const_hashes "ts_enc ?t"]
      ts_Deserialize_enc [OF t, of "[]"]
    by (simp add: DeserializeDetachedBytes_def NewContext_def AssertEOF_def NewDetached_def SHA256_DigestLength_def)
  have fd: "SHA256_HashReader const_hashes [([9], Some EOF)] = Ok (replicate 32 7)"
    by (simp add: SHA256_HashReader_def const_hashes_def)
  have "\<exists>res. VerifyFile const_hashes sample_http None (Some sample_headers) (Ok [([9], Some EOF)]) (Ok ?bs) = Ok res \<and> r_Valid res"
    by (simp add: VerifyFile_def det ots_VerifyDetached_def VerifyDetached_def fd VerifyProof_def VerifyDigest_def
        options_def verify_item_def verifyBitcoin_def sample_headers_def conclude_def zero_Result_def Let_def add_info_def
        del: append.simps)
  then obtain res where "VerifyFile const_hashes sample_http None (Some sample_headers) (Ok [([9], Some EOF)]) (Ok ?bs) = Ok res"
    and "r_Valid res" by blast
  from VerifyFile_sound [OF this] show ?thesis by blast
qed

text \<open>What polling returns is settled by the rounds up to the end of the context.\<close>

lemma polling_settled:
  assumes "i < length events" and "events ! i = CtxDone e"
  shows "\<exists>ts' r. \<forall>net' events'. (\<forall>j \<le> i. net' (k + j) = net (k + j)) \<and> take (Suc i) events' = take (Suc i) events \<longrightarrow>
    UpgradeUntilConfirmed H net' c k events' ts = (ts', Some r)"
  using assms
proof (induction events arbitrary: i k ts)
  case (Cons x es)
  obtain t1 b where u: "ots_Upgrade H (net k) c ts = (t1, b)" by fastforce
  have same: "ots_Upgrade H (net' k) c ts = (t1, b)" if "\<forall>j \<le> i. net' (k + j) = net (k + j)" for net'
    using that [rule_format, of 0] u by simp
  have split: "\<exists>es'. events' = x # es' \<and> take i es' = take i es" if "take (Suc i) events' = take (Suc i) (x # es)" for events'
    using that by (cases events') auto
  consider (again) n where "is_ok b" "\<not> IsComplete t1" "x = TimerFired" "i = Suc n" | (ends) "\<not> (is_ok b \<and> \<not> IsComplete t1 \<and> x = TimerFired)"
    using Cons.prems(2) by (cases i) auto
  then show ?case
  proof cases
    case again
    from Cons.IH [of n "Suc k" t1] Cons.prems again(4) obtain ts' r where
      r: "\<And>net' events'. (\<forall>j \<le> n. net' (Suc k + j) = net (Suc k + j)) \<and> take (Suc n) events' = take (Suc n) es \<Longrightarrow>
        UpgradeUntilConfirmed H net' c (Suc k) events' t1 = (ts', Some r)" by auto
    have "UpgradeUntilConfirmed H net' c k events' ts = (ts', Some r)"
      if a: "(\<forall>j \<le> i. net' (k + j) = net (k + j)) \<and> take (Suc i) events' = take (Suc i) (x # es)" for net' events'
    proof -
      obtain es' where e: "events' = x # es'" "take i es' = take i es" using split a by blast
      have "net' (Suc k + j) = net (Suc k + j)" if "j \<le> n" for j using conjunct1 [OF a, rule_format, of "Suc j"] that again(4) by simp
      then have "UpgradeUntilConfirmed H net' c (Suc k) es' t1 = (ts', Some r)" using e(2) again(4) by (intro r) simp
      then show ?thesis using same a again(1-3) e(1) by (auto simp: is_ok_iff)
    qed
    then show ?thesis by blast
  next
    case ends
    let ?r = "case b of Err e \<Rightarrow> Err e | Panic p \<Rightarrow> Panic p | Ok _ \<Rightarrow> if IsComplete t1 then Ok () else (case x of CtxDone e \<Rightarrow> Err e | _ \<Rightarrow> Ok ())"
    have "UpgradeUntilConfirmed H net' c k events' ts = (t1, Some ?r)"
      if a: "(\<forall>j \<le> i. net' (k + j) = net (k + j)) \<and> take (Suc i) events' = take (Suc i) (x # es)" for net' events'
    proof -
      obtain es' where e: "events' = x # es'" using split a by blast
      show ?thesis using same a ends e by (cases b; cases x) auto
    qed
    then show ?thesis by blast
  qed
qed simp

text \<open>
  Polling keeps the proof: when \<open>UpgradeUntilConfirmed\<close> returns without an error the proof carries a Bitcoin attestation;
  at every point of the loop the proof is linked, on its message, and has kept all its attestations.
\<close>

theorem UpgradeUntilConfirmed_correct:
  assumes "linked H ts" and "UpgradeUntilConfirmed H net c i events ts = (ts', r)"
  shows "(r = Some (Ok ()) \<longrightarrow> IsComplete ts') \<and> (r = None \<longrightarrow> \<not> IsComplete ts') \<and> linked H ts' \<and>
    ts_Msg ts' = ts_Msg ts \<and> set (AllAttestations ts) \<subseteq> set (AllAttestations ts')"
  using assms
proof (induction H net c i events ts rule: UpgradeUntilConfirmed.induct)
  case (1 H net c i events ts)
  obtain t1 b where u: "Upgrade H (Client_GetTimestamp H (net i) c) ts = (t1, b)" by fastforce
  note k = client_up.Upgrade_keeps [OF "1.prems"(1) u]
  show ?case
  proof (cases "\<exists>x es. b = Ok x \<and> \<not> IsComplete t1 \<and> events = TimerFired # es")
    case True
    then obtain x es where x: "b = Ok x" "\<not> IsComplete t1" "events = TimerFired # es" by blast
    then have "UpgradeUntilConfirmed H net c (Suc i) es t1 = (ts', r)"
      using "1.prems"(2) u by (simp add: ots_Upgrade_def)
    from "1.IH" [OF _ x(1) x(2) x(3) refl k(1) this] u k show ?thesis by (auto simp: ots_Upgrade_def)
  next
    case False
    then show ?thesis using "1.prems"(2) u k
      by (auto simp: ots_Upgrade_def split: result.splits if_splits list.splits poll_event.splits)
  qed
qed

text \<open>
  C27. Polling ends with its context: if the context is done in some round, \<open>UpgradeUntilConfirmed\<close> returns,
  after at most the requests of the rounds up to that one, whatever the network or the timer would do later. If
  it returns nil the proof carries a Bitcoin attestation; in any case the proof is linked, on its message,
  and has kept all its attestations.
\<close>

theorem polling_terminates:
  assumes "linked H ts" and "i < length events" and "events ! i = CtxDone e"
  shows "\<exists>ts' r. UpgradeUntilConfirmed H net c 0 events ts = (ts', Some r) \<and>
    (\<forall>net' events'. (\<forall>j \<le> i. net' j = net j) \<and> take (Suc i) events' = take (Suc i) events \<longrightarrow>
       UpgradeUntilConfirmed H net' c 0 events' ts = (ts', Some r)) \<and>
    (r = Ok () \<longrightarrow> IsComplete ts') \<and> linked H ts' \<and> ts_Msg ts' = ts_Msg ts \<and>
    set (AllAttestations ts) \<subseteq> set (AllAttestations ts')"
proof -
  from polling_settled [OF assms(2,3), where net = net and k = 0 and H = H and c = c and ts = ts] obtain ts' r where
    all: "\<forall>net' events'. (\<forall>j \<le> i. net' j = net j) \<and> take (Suc i) events' = take (Suc i) events \<longrightarrow>
       UpgradeUntilConfirmed H net' c 0 events' ts = (ts', Some r)" by auto
  then have run: "UpgradeUntilConfirmed H net c 0 events ts = (ts', Some r)" by simp
  from UpgradeUntilConfirmed_correct [OF assms(1) run] run all show ?thesis by blast
qed

theorem polling_terminates_witness:
  "\<exists>ts' r. UpgradeUntilConfirmed const_hashes (\<lambda>_. sample_http) (NewClient ''https://a'') 0
     [TimerFired, CtxDone (ErrorString ''context canceled'')] sample_ts = (ts', Some r)"
proof -
  let ?es = "[TimerFired, CtxDone (ErrorString ''context canceled'')]"
  have "1 < length ?es" "?es ! 1 = CtxDone (ErrorString ''context canceled'')" by simp_all
  from polling_terminates [OF sample_ts_ok(1) this, of "\<lambda>_. sample_http" "NewClient ''https://a''"] show ?thesis by blast
qed

end
