(* ===== verification/Bitcoin_Client.thy ===== *)
theory Bitcoin_Client
  imports Client
begin

text \<open>
  The Bitcoin Core client of \<^verbatim>\<open>internal/bitcoin/client.go\<close>. The JSON-RPC library and the node behind it are a
  parameter, the record \<open>node\<close>: the calls the client makes, with the decoding of their answers into the
  values the client reads. A call that changes the world, \<open>sendrawtransaction\<close>, is visible in the list of the
  requests that \<open>SendOpReturn\<close> returns beside its result.
\<close>

section \<open>Decoding hexadecimal text\<close>

definition hex_value :: "char \<Rightarrow> nat option" where
  "hex_value c =
     (let n = of_char c :: nat in
      if 48 \<le> n \<and> n \<le> 57 then Some (n - 48)
      else if 97 \<le> n \<and> n \<le> 102 then Some (n - 87)
      else if 65 \<le> n \<and> n \<le> 70 then Some (n - 55)
      else None)"

text \<open>The verb \<open>%#U\<close> of a byte taken as a rune.\<close>

definition upper_hex_digit :: "nat \<Rightarrow> char" where
  "upper_hex_digit n = ''0123456789ABCDEF'' ! n"

definition rune_text :: "char \<Rightarrow> string" where
  "rune_text c =
     (let n = of_char c :: nat in
      ''U+00'' @ [upper_hex_digit (n div 16), upper_hex_digit (n mod 16)] @
      (if 32 \<le> n \<and> n < 127 then '' '' @ [CHR 0x27, c, CHR 0x27]
       else if 161 \<le> n \<and> n \<noteq> 173 then '' '' @ [CHR 0x27, char_of (192 + n div 64), char_of (128 + n mod 64), CHR 0x27]
       else ''''))"

definition InvalidByteError :: "char \<Rightarrow> go_error" where
  "InvalidByteError c = ErrorString (''encoding/hex: invalid byte: '' @ rune_text c)"

fun hex_DecodeString :: "string \<Rightarrow> bytes result" where
  "hex_DecodeString [] = Ok []"
| "hex_DecodeString [c] =
     (if hex_value c = None then Err (InvalidByteError c) else Err (ErrorString ''encoding/hex: odd length hex string''))"
| "hex_DecodeString (c # d # s) =
     (case hex_value c of
        None \<Rightarrow> Err (InvalidByteError c)
      | Some a \<Rightarrow>
          (case hex_value d of
             None \<Rightarrow> Err (InvalidByteError d)
           | Some b \<Rightarrow> andThen (hex_DecodeString s) (\<lambda>bs. Ok (word_of_nat (16 * a + b) # bs))))"

section \<open>Configuration\<close>

record Config =
  cfg_Host :: string
  cfg_User :: string
  cfg_Pass :: string
  cfg_Network :: string

definition Validate :: "Config \<Rightarrow> unit result" where
  "Validate c =
     (if cfg_Network c \<in> {''mainnet'', ''testnet'', ''regtest''} then Ok ()
      else Err (ErrorString (''unknown bitcoin network '' @ quote_string (cfg_Network c) @
             '' (want mainnet, testnet, or regtest)'')))"

section \<open>The node\<close>

text \<open>The parameters the client marshals.\<close>

datatype json = JString string | JBool bool | JArray "json list" | JObject "(string \<times> json) list"

type_synonym request = "string \<times> json list"

record 'j node =
  RawRequest :: "request \<Rightarrow> 'j result"
  as_chain :: "'j \<Rightarrow> string result"
  as_text :: "'j \<Rightarrow> string result"
  as_funded :: "'j \<Rightarrow> (string \<times> int) result"
  as_signed :: "'j \<Rightarrow> (string \<times> bool) result"
  GetBlockCount :: "int result"
  GetBestBlockHash :: "bytes result"
  GetBlockHash :: "int \<Rightarrow> bytes result"
  GetBlockHeader :: "bytes \<Rightarrow> (bytes \<times> int) result"
  GetBlockVerbose :: "bytes \<Rightarrow> (int \<times> string list) result"
  GetTransaction :: "bytes \<Rightarrow> (int \<times> string) result"
  GetBalance :: "int result"
  NewHashFromStr :: "string \<Rightarrow> bytes result"
  Hash_String :: "bytes \<Rightarrow> string"
  Amount_String :: "int \<Rightarrow> string"

record 'j BtcClient =
  bc_rpc :: "'j node"
  bc_network :: string

text \<open>\<open>rpcclient.New\<close> is the parameter \<open>connect\<close>.\<close>

definition NewBtcClient :: "(Config \<Rightarrow> 'j node result) \<Rightarrow> Config \<Rightarrow> 'j BtcClient result" where
  "NewBtcClient connect cfg =
     andThen (Validate cfg) (\<lambda>_.
     andThen (connect cfg) (\<lambda>rpc. Ok \<lparr>bc_rpc = rpc, bc_network = cfg_Network cfg\<rparr>))"

definition Network :: "'j BtcClient \<Rightarrow> string" where
  "Network c = bc_network c"

definition chain_name :: "string \<Rightarrow> string" where
  "chain_name network =
     (if network = ''mainnet'' then ''main'' else if network = ''testnet'' then ''test''
      else if network = ''regtest'' then ''regtest'' else '''')"

definition CheckNetwork :: "'j BtcClient \<Rightarrow> unit result" where
  "CheckNetwork c =
     andThen (RawRequest (bc_rpc c) (''getblockchaininfo'', [])) (\<lambda>res.
     andThen (as_chain (bc_rpc c) res) (\<lambda>chain.
     if chain \<noteq> chain_name (bc_network c) then
       Err (ErrorString (''bitcoin node runs chain '' @ quote_string chain @ '' but server configured for '' @ bc_network c))
     else Ok ()))"

definition BlockCount :: "'j BtcClient \<Rightarrow> int result" where
  "BlockCount c = GetBlockCount (bc_rpc c)"

definition BestBlockHash :: "'j BtcClient \<Rightarrow> bytes result" where
  "BestBlockHash c = GetBestBlockHash (bc_rpc c)"

definition BlockHashByHeight :: "'j BtcClient \<Rightarrow> int \<Rightarrow> bytes result" where
  "BlockHashByHeight c height = GetBlockHash (bc_rpc c) height"

definition WalletBalance :: "'j BtcClient \<Rightarrow> int result" where
  "WalletBalance c = GetBalance (bc_rpc c)"

definition wrap_err :: "string \<Rightarrow> 'a result \<Rightarrow> 'a result" where
  "wrap_err prefix r =
     (case r of Ok x \<Rightarrow> Ok x | Err e \<Rightarrow> Err (ErrorString (prefix @ '': '' @ error_string e)) | Panic p \<Rightarrow> Panic p)"

definition btc_BlockHeader :: "'j BtcClient \<Rightarrow> u64 \<Rightarrow> BlockHeader result" where
  "btc_BlockHeader c height =
     andThen (wrap_err (''getblockhash '' @ dec_nat (unat height)) (GetBlockHash (bc_rpc c) (sint height))) (\<lambda>hash.
     andThen (wrap_err (''getblockheader '' @ Hash_String (bc_rpc c) hash) (GetBlockHeader (bc_rpc c) hash)) (\<lambda>(root, time).
     Ok \<lparr>bh_Height = height, bh_Hash = Hash_String (bc_rpc c) hash, bh_MerkleRoot = root, bh_Time = time\<rparr>))"

fun parse_txids :: "'j node \<Rightarrow> string list \<Rightarrow> bytes list result" where
  "parse_txids N [] = Ok []"
| "parse_txids N (s # ss) =
     andThen (NewHashFromStr N s) (\<lambda>h. andThen (parse_txids N ss) (\<lambda>hs. Ok (h # hs)))"

definition BlockTxIDs :: "'j BtcClient \<Rightarrow> bytes \<Rightarrow> (int \<times> bytes list) result" where
  "BlockTxIDs c hash =
     andThen (GetBlockVerbose (bc_rpc c) hash) (\<lambda>(height, txs).
     andThen (parse_txids (bc_rpc c) txs) (\<lambda>txids. Ok (height, txids)))"

record TxStatus =
  tx_Confirmations :: int
  tx_BlockHash :: "bytes option"

definition btc_TxStatus :: "'j BtcClient \<Rightarrow> bytes \<Rightarrow> TxStatus result" where
  "btc_TxStatus c txid =
     andThen (GetTransaction (bc_rpc c) txid) (\<lambda>(confirmations, blockHash).
     if blockHash \<noteq> '''' then
       andThen (NewHashFromStr (bc_rpc c) blockHash) (\<lambda>h. Ok \<lparr>tx_Confirmations = confirmations, tx_BlockHash = Some h\<rparr>)
     else Ok \<lparr>tx_Confirmations = confirmations, tx_BlockHash = None\<rparr>)"

section \<open>Sending\<close>

text \<open>Sequencing with the list of the requests sent.\<close>

definition thenL :: "request list \<times> 'a result \<Rightarrow> ('a \<Rightarrow> request list \<times> 'b result) \<Rightarrow> request list \<times> 'b result" where
  "thenL m f =
     (case m of
        (sent, Ok x) \<Rightarrow> (case f x of (sent', r) \<Rightarrow> (sent @ sent', r))
      | (sent, Err e) \<Rightarrow> (sent, Err e)
      | (sent, Panic p) \<Rightarrow> (sent, Panic p))"

definition rpc_call :: "'j node \<Rightarrow> string \<Rightarrow> json list \<Rightarrow> request list \<times> 'j result" where
  "rpc_call N meth params = ([(meth, params)], wrap_err meth (RawRequest N (meth, params)))"

definition SendOpReturn :: "'j BtcClient \<Rightarrow> bytes \<Rightarrow> int \<Rightarrow> request list \<times> (bytes \<times> bytes) result" where
  "SendOpReturn c data maxFee =
     (let N = bc_rpc c in
      thenL (rpc_call N ''createrawtransaction'' [JArray [], JArray [JObject [(''data'', JString (hex_EncodeToString data))]]]) (\<lambda>res.
      thenL ([], as_text N res) (\<lambda>rawHex.
      thenL (rpc_call N ''fundrawtransaction'' [JString rawHex, JObject [(''replaceable'', JBool True)]]) (\<lambda>res.
      thenL ([], as_funded N res) (\<lambda>(fundedHex, fee).
      if maxFee > 0 \<and> fee > maxFee then
        ([], Err (ErrorString (''tx fee '' @ Amount_String N fee @ '' exceeds --btc-max-fee '' @ Amount_String N maxFee)))
      else
        thenL (rpc_call N ''signrawtransactionwithwallet'' [JString fundedHex]) (\<lambda>res.
        thenL ([], as_signed N res) (\<lambda>(signedHex, complete).
        if \<not> complete then ([], Err (ErrorString ''wallet could not fully sign transaction''))
        else
          thenL ([], hex_DecodeString signedHex) (\<lambda>rawTx.
          thenL (rpc_call N ''sendrawtransaction'' [JString signedHex]) (\<lambda>res.
          thenL ([], as_text N res) (\<lambda>txidStr.
          thenL ([], NewHashFromStr N txidStr) (\<lambda>txid.
          ([], Ok (txid, rawTx)))))))))))))"

section \<open>As a source of headers\<close>

text \<open>
  \<^verbatim>\<open>pkg/ots/verify.go\<close>: the header source of a node, adapted twice by copying the fields. The node of the
  \<open>k\<close>-th call may answer differently from the others.
\<close>

definition clientHeaderSource_BlockHeader :: "'j BtcClient \<Rightarrow> u64 \<Rightarrow> BlockHeader result" where
  "clientHeaderSource_BlockHeader c height =
     andThen (btc_BlockHeader c height) (\<lambda>h.
       Ok \<lparr>bh_Height = bh_Height h, bh_Hash = bh_Hash h, bh_MerkleRoot = bh_MerkleRoot h, bh_Time = bh_Time h\<rparr>)"

definition BitcoinRPCHeaderSource :: "(Config \<Rightarrow> (nat \<Rightarrow> 'j node) result) \<Rightarrow> string \<Rightarrow> string \<Rightarrow> string \<Rightarrow> string \<Rightarrow> HeaderSource result" where
  "BitcoinRPCHeaderSource connect host user pass network =
     (let cfg = \<lparr>cfg_Host = host, cfg_User = user, cfg_Pass = pass, cfg_Network = network\<rparr> in
      andThen (Validate cfg) (\<lambda>_.
      andThen (connect cfg) (\<lambda>nodes.
      Ok (\<lambda>k. clientHeaderSource_BlockHeader \<lparr>bc_rpc = nodes k, bc_network = network\<rparr>))))"

section \<open>Hexadecimal text round-trips\<close>

lemma hex_value_digit: "n < 16 \<Longrightarrow> hex_value (hex_digit n) = Some n"
proof -
  assume "n < 16"
  then have "n \<in> set [0..<16]" by simp
  moreover have "\<forall>n \<in> set [0..<16]. hex_value (hex_digit n) = Some n" by code_simp
  ultimately show ?thesis by blast
qed

lemma hex_DecodeString_Encode: "hex_DecodeString (hex_EncodeToString bs) = Ok bs"
proof (induction bs)
  case (Cons b bs)
  have "unat b < 256" using unsigned_less [of b, where ?'a = nat] by simp
  then have d: "unat b div 16 < 16" "unat b mod 16 < 16" by simp_all
  have "word_of_nat (16 * (unat b div 16) + unat b mod 16) = b" by simp
  with Cons d show ?case by (simp add: hex_EncodeToString_def hex_byte_def hex_value_digit del: of_nat_add of_nat_mult)
qed (simp add: hex_EncodeToString_def)

lemma hex_DecodeString_no_panic: "\<not> is_panic (hex_DecodeString s)"
  by (induction s rule: hex_DecodeString.induct) (auto simp: is_panic_iff andThen_eq_Panic split: option.splits)

section \<open>Sending\<close>

lemma thenL_Ok: "thenL (l, Ok x) f = (l @ fst (f x), snd (f x))"
  by (simp add: thenL_def split: prod.splits)

lemma wrap_err_Ok: "wrap_err p r = Ok x \<longleftrightarrow> r = Ok x"
  by (cases r) (auto simp: wrap_err_def)

lemma thenL_result: "snd (thenL m f) = Ok y \<longleftrightarrow> (\<exists>x. snd m = Ok x \<and> snd (f x) = Ok y)"
  by (cases m; cases "snd m") (auto simp: thenL_def split: prod.splits)

lemma sent_pure: "q \<in> set (fst (thenL ([], r) f)) \<longleftrightarrow> (\<exists>x. r = Ok x \<and> q \<in> set (fst (f x)))"
  by (cases r) (auto simp: thenL_def split: prod.splits)

lemma sent_call:
  "(m, ps) \<in> set (fst (thenL (rpc_call N meth params) f)) \<longleftrightarrow>
   (m = meth \<and> ps = params) \<or> (\<exists>x. RawRequest N (meth, params) = Ok x \<and> (m, ps) \<in> set (fst (f x)))"
  by (cases "RawRequest N (meth, params)") (auto simp: thenL_def rpc_call_def wrap_err_def split: prod.splits)

lemma result_call: "snd (thenL (rpc_call N meth params) f) = Ok y \<longleftrightarrow> (\<exists>x. RawRequest N (meth, params) = Ok x \<and> snd (f x) = Ok y)"
  by (simp add: thenL_result rpc_call_def wrap_err_Ok)

lemma if_sent: "q \<in> set (fst (if b then ([], r) else e)) \<longleftrightarrow> \<not> b \<and> q \<in> set (fst e)"
  by simp

lemma if_result: "snd (if b then (l, Err x) else e) = Ok y \<longleftrightarrow> \<not> b \<and> snd e = Ok y"
  by simp

lemma method_names:
  "(''sendrawtransaction'' = ''createrawtransaction'') = False"
  "(''sendrawtransaction'' = ''fundrawtransaction'') = False"
  "(''sendrawtransaction'' = ''signrawtransactionwithwallet'') = False"
  by simp_all

lemma result_pure: "snd (thenL ([], r) f) = Ok y \<longleftrightarrow> (\<exists>x. r = Ok x \<and> snd (f x) = Ok y)"
  by (simp add: thenL_result)

lemmas sending = SendOpReturn_def Let_def result_pure sent_pure sent_call result_call if_sent if_result method_names
  split_paired_Ex prod.case fst_conv snd_conv simp_thms
  list.set(1) empty_iff de_Morgan_conj not_less ex_simps
  list.inject json.inject result.inject prod.inject

section \<open>Properties\<close>

text \<open>
  C33. A transaction is broadcast only if the fee is within the limit (where there is one) and the wallet
  signed it completely; it is the funded and signed transaction that carries the data. If the call
  succeeds, the bytes it returns are those of the transaction that was broadcast.
\<close>

theorem SendOpReturn_safe:
  "(\<forall>params. (''sendrawtransaction'', params) \<in> set (fst (SendOpReturn c data maxFee)) \<longrightarrow>
     (\<exists>r1 raw r2 funded fee r3 signed complete bytes.
        RawRequest (bc_rpc c) (''createrawtransaction'', [JArray [], JArray [JObject [(''data'', JString (hex_EncodeToString data))]]]) = Ok r1 \<and> 
        as_text (bc_rpc c) r1 = Ok raw \<and>
        RawRequest (bc_rpc c) (''fundrawtransaction'', [JString raw, JObject [(''replaceable'', JBool True)]]) = Ok r2 \<and>
        as_funded (bc_rpc c) r2 = Ok (funded, fee) \<and>
        (maxFee \<le> 0 \<or> fee \<le> maxFee) \<and>
        RawRequest (bc_rpc c) (''signrawtransactionwithwallet'', [JString funded]) = Ok r3 \<and> as_signed (bc_rpc c) r3 = Ok (signed, complete) \<and> complete \<and>
        hex_DecodeString signed = Ok bytes \<and> params = [JString signed])) \<and>
   (\<forall>txid rawTx. snd (SendOpReturn c data maxFee) = Ok (txid, rawTx) \<longrightarrow>
     (\<exists>signed. (''sendrawtransaction'', [JString signed]) \<in> set (fst (SendOpReturn c data maxFee)) \<and> hex_DecodeString signed = Ok rawTx))"
proof (intro conjI allI impI, goal_cases)
  case (1 params)
  then show ?case unfolding sending by blast
next
  case (2 txid rawTx)
  then show ?case unfolding sending by blast
qed

definition sample_node :: "string node" where
  "sample_node = \<lparr>RawRequest = (\<lambda>(m, ps). Ok (case last ps of JString t \<Rightarrow> t | _ \<Rightarrow> ''0a'')), as_chain = Ok, as_text = Ok, as_funded = (\<lambda>j. Ok (''0a0b'', 5)),
     as_signed = (\<lambda>j. Ok (j, True)), GetBlockCount = Ok 7, GetBestBlockHash = Ok [1], GetBlockHash = (\<lambda>n. Ok [2]),
     GetBlockHeader = (\<lambda>h. Ok (replicate 32 7, 100)), GetBlockVerbose = (\<lambda>h. Ok (7, [])), GetTransaction = (\<lambda>t. Ok (6, ''aa'')),
     GetBalance = Ok 1, NewHashFromStr = (\<lambda>s. Ok [9]), Hash_String = (\<lambda>h. ''aa''), Amount_String = (\<lambda>a. ''5'')\<rparr>"

theorem SendOpReturn_safe_witness:
  "\<exists>signed. (''sendrawtransaction'', [JString signed]) \<in> set (fst (SendOpReturn \<lparr>bc_rpc = sample_node, bc_network = ''regtest''\<rparr> [1, 2] 10)) \<and>
     hex_DecodeString signed = Ok [0x0a, 0x0b]"
proof -
  have "snd (SendOpReturn \<lparr>bc_rpc = sample_node, bc_network = ''regtest''\<rparr> [1, 2] 10) = Ok ([9], [0x0a, 0x0b])" by code_simp
  with SendOpReturn_safe [of "\<lparr>bc_rpc = sample_node, bc_network = ''regtest''\<rparr>" "[1, 2]" 10] show ?thesis by blast
qed

text \<open>
  Verification against a node: if a file is verified as valid with the node as the source of headers,
  the network was a known one, and the node returned, for the hash of the block at the reported height, a
  header with a merkle root to which a chain of operations leads from the SHA-256 digest of the file, and
  with the reported time.
\<close>

lemma VerifyFile_with_node:
  assumes "BitcoinRPCHeaderSource connect host user pass network = Ok src"
    and "VerifyFile H http c (Some src) (Ok content) otsFile = Ok res" and "r_Valid res"
  shows "network \<in> {''mainnet'', ''testnet'', ''regtest''} \<and>
    (\<exists>nodes k hash digest root time xs. connect \<lparr>cfg_Host = host, cfg_User = user, cfg_Pass = pass, cfg_Network = network\<rparr> = Ok nodes \<and>
      SHA256_HashReader H content = Ok digest \<and> GetBlockHash (nodes k) (sint (r_BlockHeight res)) = Ok hash \<and>
      GetBlockHeader (nodes k) hash = Ok (root, time) \<and> list_all op_ok xs \<and> apply_ops H xs digest = Ok root \<and>
      r_VerifiedAt res = Some time)"
proof -
  from assms(1) obtain nodes where n: "network \<in> {''mainnet'', ''testnet'', ''regtest''}"
    "connect \<lparr>cfg_Host = host, cfg_User = user, cfg_Pass = pass, cfg_Network = network\<rparr> = Ok nodes"
    and src: "src = (\<lambda>k. clientHeaderSource_BlockHeader \<lparr>bc_rpc = nodes k, bc_network = network\<rparr>)"
    by (auto simp: BitcoinRPCHeaderSource_def Validate_def Let_def andThen_eq_Ok split: if_splits)
  from VerifyFile_valid [OF assms(2,3)] obtain digest k header xs where "SHA256_HashReader H content = Ok digest"
    "src k (r_BlockHeight res) = Ok header" "list_all op_ok xs" "apply_ops H xs digest = Ok (bh_MerkleRoot header)"
    "r_VerifiedAt res = Some (bh_Time header)" by blast
  moreover from this(2) obtain hash where "GetBlockHash (nodes k) (sint (r_BlockHeight res)) = Ok hash"
    "GetBlockHeader (nodes k) hash = Ok (bh_MerkleRoot header, bh_Time header)"
    by (auto simp: src clientHeaderSource_BlockHeader_def btc_BlockHeader_def andThen_eq_Ok wrap_err_Ok)
  ultimately show ?thesis using n by blast
qed

end
