(* ===== verification/Http_Api.thy ===== *)
theory Http_Api
  imports Bitcoin_Client
begin

text \<open>
  What the two HTTP servers share: the response writer of \<^verbatim>\<open>net/http\<close>, the JSON texts of the types of
  \<^verbatim>\<open>api/server/types.go\<close>, and the request log of \<^verbatim>\<open>api/server/logging.go\<close> (the calendar server has its own
  copy under \<^verbatim>\<open>api/calendarserver\<close>, modelled beside it). A handler is a function from the response writer to the writer after
  the call, or to the panic that ends it, which the HTTP server recovers by closing the connection. What
  the library reads out of a request (path values, form files, the decoded JSON body) is an argument.
\<close>

section \<open>Response writers\<close>

type_synonym header = "string \<rightharpoonup> string"

text \<open>
  \<open>rw_Header\<close> is the map that the handler changes; \<open>rw_sent\<close> is the status line and the headers once they
  are written, \<open>rw_informational\<close> the informational responses before it, \<open>rw_body\<close> what the connection took.
\<close>

record ResponseWriter =
  rw_Header :: header
  rw_informational :: "(int \<times> header) list"
  rw_sent :: "(int \<times> header) option"
  rw_body :: bytes

definition new_writer :: ResponseWriter where
  "new_writer = \<lparr>rw_Header = Map.empty, rw_informational = [], rw_sent = None, rw_body = []\<rparr>"

definition Header_Set :: "string \<Rightarrow> string \<Rightarrow> ResponseWriter \<Rightarrow> ResponseWriter" where
  "Header_Set k v w = w\<lparr>rw_Header := (rw_Header w)(k \<mapsto> v)\<rparr>"

definition Header_Del :: "string \<Rightarrow> ResponseWriter \<Rightarrow> ResponseWriter" where
  "Header_Del k w = w\<lparr>rw_Header := (rw_Header w)(k := None)\<rparr>"

text \<open>The status codes are from 100 to 999: the library panics on others, and no handler has one.\<close>

definition WriteHeader :: "int \<Rightarrow> ResponseWriter \<Rightarrow> ResponseWriter" where
  "WriteHeader code w =
     (case rw_sent w of
        Some _ \<Rightarrow> w
      | None \<Rightarrow>
          if 100 \<le> code \<and> code \<le> 199 \<and> code \<noteq> 101
          then w\<lparr>rw_informational := rw_informational w @ [(code, rw_Header w)]\<rparr>
          else w\<lparr>rw_sent := Some (code, rw_Header w)\<rparr>)"

text \<open>\<open>Write\<close>, where the connection takes \<open>n\<close> bytes of the buffer.\<close>

definition Write_n :: "bytes \<Rightarrow> nat \<Rightarrow> ResponseWriter \<Rightarrow> ResponseWriter" where
  "Write_n b n w = (let w' = (if rw_sent w = None then WriteHeader 200 w else w) in w'\<lparr>rw_body := rw_body w' @ take n b\<rparr>)"

definition Write :: "bytes \<Rightarrow> ResponseWriter \<Rightarrow> ResponseWriter" where
  "Write b w = Write_n b (length b) w"

definition http_Error :: "string \<Rightarrow> int \<Rightarrow> ResponseWriter \<Rightarrow> ResponseWriter" where
  "http_Error msg code w =
     Write (bytes_of_string (msg @ [CHR 0x0A]))
       (WriteHeader code
         (Header_Set ''X-Content-Type-Options'' ''nosniff''
           (Header_Set ''Content-Type'' ''text/plain; charset=utf-8'' (Header_Del ''Content-Length'' w))))"

text \<open>\<open>if err != nil { ...; return }\<close>.\<close>

definition check :: "'a result \<Rightarrow> (go_error \<Rightarrow> 'b result) \<Rightarrow> ('a \<Rightarrow> 'b result) \<Rightarrow> 'b result" where
  "check r bad good = (case r of Ok x \<Rightarrow> good x | Err e \<Rightarrow> bad e | Panic p \<Rightarrow> Panic p)"

section \<open>JSON\<close>

datatype jvalue =
    JvNull
  | JvBool bool
  | JvNumber string
  | JvText string
  | JvArray "jvalue list"
  | JvObject "(string \<times> jvalue) list"

text \<open>The number of bytes of the UTF-8 character at the head of a string that starts with a byte from \<open>0x80\<close> on; 0 if there is none.\<close>

definition in_range :: "nat \<Rightarrow> nat \<Rightarrow> char \<Rightarrow> bool" where
  "in_range lo hi c \<longleftrightarrow> lo \<le> (of_char c :: nat) \<and> (of_char c :: nat) \<le> hi"

definition rune_size :: "string \<Rightarrow> nat" where
  "rune_size s =
     (case s of
        c # d # rest \<Rightarrow>
          if in_range 0xC2 0xDF c then (if in_range 0x80 0xBF d then 2 else 0)
          else if in_range 0xE0 0xEF c then
            (if in_range (if in_range 0xE0 0xE0 c then 0xA0 else 0x80) (if in_range 0xED 0xED c then 0x9F else 0xBF) d
               \<and> rest \<noteq> [] \<and> in_range 0x80 0xBF (hd rest) then 3 else 0)
          else if in_range 0xF0 0xF4 c then
            (if in_range (if in_range 0xF0 0xF0 c then 0x90 else 0x80) (if in_range 0xF4 0xF4 c then 0x8F else 0xBF) d
               \<and> length rest \<ge> 2 \<and> in_range 0x80 0xBF (rest ! 0) \<and> in_range 0x80 0xBF (rest ! 1) then 4 else 0)
          else 0
      | _ \<Rightarrow> 0)"

definition json_ascii :: "char \<Rightarrow> string" where
  "json_ascii c =
     (let r = of_char c :: nat in
      if r = 0x22 \<or> r = 0x5C then [CHR 0x5C, c]
      else if r = 0x08 then [CHR 0x5C, CHR ''b'']
      else if r = 0x0C then [CHR 0x5C, CHR ''f'']
      else if r = 0x0A then [CHR 0x5C, CHR ''n'']
      else if r = 0x0D then [CHR 0x5C, CHR ''r'']
      else if r = 0x09 then [CHR 0x5C, CHR ''t'']
      else if r < 0x20 \<or> r = 0x3C \<or> r = 0x3E \<or> r = 0x26
      then [CHR 0x5C] @ ''u00'' @ [hex_digit (r div 16), hex_digit (r mod 16)]
      else [c])"

function json_chars :: "string \<Rightarrow> string" where
  "json_chars s =
     (case s of
        [] \<Rightarrow> []
      | c # rest \<Rightarrow>
          if (of_char c :: nat) < 0x80 then json_ascii c @ json_chars rest
          else let n = rune_size s in
            if n = 0 then [CHR 0x5C] @ ''ufffd'' @ json_chars rest
            else if take 3 s = [CHR 0xE2, CHR 0x80, CHR 0xA8] then [CHR 0x5C] @ ''u2028'' @ json_chars (drop n s)
            else if take 3 s = [CHR 0xE2, CHR 0x80, CHR 0xA9] then [CHR 0x5C] @ ''u2029'' @ json_chars (drop n s)
            else take n s @ json_chars (drop n s))"
  by pat_completeness auto
termination
  by (relation "measure length") auto

declare json_chars.simps [simp del]

definition json_string :: "string \<Rightarrow> string" where
  "json_string s = [CHR 0x22] @ json_chars s @ [CHR 0x22]"

fun json_text :: "jvalue \<Rightarrow> string"
  and json_elems :: "jvalue list \<Rightarrow> string"
  and json_fields :: "(string \<times> jvalue) list \<Rightarrow> string"
where
  "json_text JvNull = ''null''"
| "json_text (JvBool b) = (if b then ''true'' else ''false'')"
| "json_text (JvNumber n) = n"
| "json_text (JvText s) = json_string s"
| "json_text (JvArray vs) = ''['' @ json_elems vs @ '']''"
| "json_text (JvObject fs) = [CHR 0x7B] @ json_fields fs @ [CHR 0x7D]"
| "json_elems [] = ''''"
| "json_elems [v] = json_text v"
| "json_elems (v # u # vs) = json_text v @ '','' @ json_elems (u # vs)"
| "json_fields [] = ''''"
| "json_fields [(k, v)] = json_string k @ '':'' @ json_text v"
| "json_fields ((k, v) # f # fs) = json_string k @ '':'' @ json_text v @ '','' @ json_fields (f # fs)"

text \<open>\<open>json.NewEncoder(w).Encode(v)\<close> writes the text and a newline in one call.\<close>

definition Encode :: "jvalue \<Rightarrow> bytes" where
  "Encode v = bytes_of_string (json_text v @ [CHR 0x0A])"

definition writeJSON :: "int \<Rightarrow> jvalue \<Rightarrow> ResponseWriter \<Rightarrow> ResponseWriter" where
  "writeJSON status v w = Write (Encode v) (WriteHeader status (Header_Set ''Content-Type'' ''application/json'' w))"

text \<open>A field with the option \<open>omitempty\<close>; a nil slice without it is \<open>null\<close>.\<close>

definition omitempty :: "bool \<Rightarrow> string \<Rightarrow> jvalue \<Rightarrow> (string \<times> jvalue) list" where
  "omitempty zero k v = (if zero then [] else [(k, v)])"

definition jv_slice :: "jvalue list \<Rightarrow> jvalue" where
  "jv_slice vs = (if vs = [] then JvNull else JvArray vs)"

definition jv_uint :: "u64 \<Rightarrow> jvalue" where
  "jv_uint n = JvNumber (dec_nat (unat n))"

section \<open>The types of the interface\<close>

record CreateTimestampRequest =
  ctr_Digest :: string

record CreateTimestampResponse =
  cts_Proof :: string
  cts_Commitment :: string

definition json_CreateTimestampResponse :: "CreateTimestampResponse \<Rightarrow> jvalue" where
  "json_CreateTimestampResponse r =
     JvObject [(''proof'', JvText (cts_Proof r)), (''commitment'', JvText (cts_Commitment r))]"

record VerifyRequest =
  vq_Digest :: string
  vq_Proof :: string

record AttestationInfoJSON =
  aj_Kind :: string
  aj_Detail :: string
  aj_Status :: string

definition json_AttestationInfoJSON :: "AttestationInfoJSON \<Rightarrow> jvalue" where
  "json_AttestationInfoJSON a =
     JvObject [(''kind'', JvText (aj_Kind a)), (''detail'', JvText (aj_Detail a)), (''status'', JvText (aj_Status a))]"

record VerifyResponse =
  vr_Valid :: bool
  vr_Status :: string
  vr_Reason :: string
  vr_VerifiedAt :: string
  vr_BlockHeight :: u64
  vr_BlockHash :: string
  vr_Attestations :: "AttestationInfoJSON list"

definition json_VerifyResponse :: "VerifyResponse \<Rightarrow> jvalue" where
  "json_VerifyResponse r =
     JvObject ([(''valid'', JvBool (vr_Valid r)), (''status'', JvText (vr_Status r))] @
       omitempty (vr_Reason r = '''') ''reason'' (JvText (vr_Reason r)) @
       omitempty (vr_VerifiedAt r = '''') ''verified_at'' (JvText (vr_VerifiedAt r)) @
       omitempty (vr_BlockHeight r = 0) ''block_height'' (jv_uint (vr_BlockHeight r)) @
       omitempty (vr_BlockHash r = '''') ''block_hash'' (JvText (vr_BlockHash r)) @
       [(''attestations'', jv_slice (map json_AttestationInfoJSON (vr_Attestations r)))])"

record UpgradeRequest =
  uq_Digest :: string
  uq_Proof :: string

record UpgradeResponse =
  ur_Proof :: string
  ur_Upgraded :: bool
  ur_Complete :: bool

definition json_UpgradeResponse :: "UpgradeResponse \<Rightarrow> jvalue" where
  "json_UpgradeResponse r =
     JvObject [(''proof'', JvText (ur_Proof r)), (''upgraded'', JvBool (ur_Upgraded r)), (''complete'', JvBool (ur_Complete r))]"

record ParseProofRequest =
  pq_Digest :: string
  pq_Proof :: string

record ParseProofResponse =
  pp_Complete :: bool
  pp_BlockHeight :: u64
  pp_BlockHeights :: "u64 list"
  pp_PendingCalendars :: "string list"

definition json_ParseProofResponse :: "ParseProofResponse \<Rightarrow> jvalue" where
  "json_ParseProofResponse r =
     JvObject ([(''complete'', JvBool (pp_Complete r))] @
       omitempty (pp_BlockHeight r = 0) ''block_height'' (jv_uint (pp_BlockHeight r)) @
       omitempty (pp_BlockHeights r = []) ''block_heights'' (JvArray (map jv_uint (pp_BlockHeights r))) @
       omitempty (pp_PendingCalendars r = []) ''pending_calendars'' (JvArray (map JvText (pp_PendingCalendars r))))"

record CalendarStatus =
  cst_URL :: string
  cst_Reachable :: bool
  cst_Detail :: string

definition json_CalendarStatus :: "CalendarStatus \<Rightarrow> jvalue" where
  "json_CalendarStatus c =
     JvObject ([(''url'', JvText (cst_URL c)), (''reachable'', JvBool (cst_Reachable c))] @
       omitempty (cst_Detail c = '''') ''detail'' (JvText (cst_Detail c)))"

text \<open>The lists of calendars are made with \<open>make\<close>, so an empty one is not nil.\<close>

record StatusResponse =
  sts_Version :: string
  sts_Calendars :: "CalendarStatus list"
  sts_BitcoinVerify :: string

definition json_StatusResponse :: "StatusResponse \<Rightarrow> jvalue" where
  "json_StatusResponse r =
     JvObject ([(''version'', JvText (sts_Version r)),
                (''calendars'', JvArray (map json_CalendarStatus (sts_Calendars r)))] @
       omitempty (sts_BitcoinVerify r = '''') ''bitcoin_verify'' (JvText (sts_BitcoinVerify r)))"

record HealthResponse =
  hr_Status :: string
  hr_Calendars :: "CalendarStatus list"

definition json_HealthResponse :: "HealthResponse \<Rightarrow> jvalue" where
  "json_HealthResponse r =
     JvObject [(''status'', JvText (hr_Status r)), (''calendars'', JvArray (map json_CalendarStatus (hr_Calendars r)))]"

record ErrorResponse =
  er_Error :: string

definition json_ErrorResponse :: "ErrorResponse \<Rightarrow> jvalue" where
  "json_ErrorResponse r = JvObject [(''error'', JvText (er_Error r))]"

definition writeJSONError :: "int \<Rightarrow> string \<Rightarrow> ResponseWriter \<Rightarrow> ResponseWriter" where
  "writeJSONError status msg w = writeJSON status (json_ErrorResponse \<lparr>er_Error = msg\<rparr>) w"

definition verifyResponseFrom :: "Result \<Rightarrow> VerifyResponse" where
  "verifyResponseFrom result =
     (let resp = \<lparr>vr_Valid = r_Valid result, vr_Status = r_Status result, vr_Reason = r_Reason result,
            vr_VerifiedAt = '''', vr_BlockHeight = r_BlockHeight result, vr_BlockHash = r_BlockHash result,
            vr_Attestations = []\<rparr>;
          resp = (case r_VerifiedAt result of None \<Rightarrow> resp | Some t \<Rightarrow> resp\<lparr>vr_VerifiedAt := format_RFC3339 t\<rparr>)
      in fold (\<lambda>att resp. resp\<lparr>vr_Attestations := vr_Attestations resp @
                 [\<lparr>aj_Kind = ai_Kind att, aj_Detail = ai_Detail att, aj_Status = ai_Status att\<rparr>]\<rparr>)
           (r_Attestations result) resp)"

section \<open>The request log\<close>

definition maxLoggedErrorBody :: nat where "maxLoggedErrorBody = 512"

record loggingResponseWriter =
  lw_ResponseWriter :: ResponseWriter
  lw_status :: int
  lw_bytes :: int
  lw_body :: bytes

definition lw_WriteHeader :: "int \<Rightarrow> loggingResponseWriter \<Rightarrow> loggingResponseWriter" where
  "lw_WriteHeader status w =
     (if lw_status w \<noteq> 0 then w
      else w\<lparr>lw_status := status, lw_ResponseWriter := WriteHeader status (lw_ResponseWriter w)\<rparr>)"

definition lw_Write :: "bytes \<Rightarrow> nat \<Rightarrow> loggingResponseWriter \<Rightarrow> loggingResponseWriter" where
  "lw_Write b n w =
     (let w1 = (if lw_status w = 0 then w\<lparr>lw_status := 200\<rparr> else w);
          w2 = (if lw_status w1 \<ge> 400 \<and> length (lw_body w1) < maxLoggedErrorBody then
                  let remain = maxLoggedErrorBody - length (lw_body w1) in
                  if length b \<le> remain then w1\<lparr>lw_body := lw_body w1 @ b\<rparr>
                  else w1\<lparr>lw_body := lw_body w1 @ take remain b\<rparr>
                else w1)
      in w2\<lparr>lw_ResponseWriter := Write_n b n (lw_ResponseWriter w2), lw_bytes := lw_bytes w2 + int (length (take n b))\<rparr>)"

definition errorMessage :: "loggingResponseWriter \<Rightarrow> string" where
  "errorMessage w = TrimSpace (string_of_bytes (lw_body w))"

text \<open>\<open>net.SplitHostPort\<close>: the host, or nothing where it returns an error.\<close>

definition SplitHost :: "string \<Rightarrow> string option" where
  "SplitHost hostport =
     (let port = rev (takeWhile (\<lambda>c. c \<noteq> CHR '':'') (rev hostport));
          i = length hostport - length port - 1
      in if CHR '':'' \<notin> set hostport then None
         else if hd hostport = CHR ''['' then
           let e = length (takeWhile (\<lambda>c. c \<noteq> CHR '']'') hostport) in
           if CHR '']'' \<notin> set hostport \<or> Suc e \<noteq> i then None
           else if CHR ''['' \<in> set (drop 1 hostport) \<or> CHR '']'' \<in> set (drop (Suc e) hostport) then None
           else Some (drop 1 (take e hostport))
         else
           let host = take i hostport in
           if CHR '':'' \<in> set host \<or> CHR ''['' \<in> set hostport \<or> CHR '']'' \<in> set hostport then None else Some host)"

record http_info =
  hi_Method :: string
  hi_Path :: string
  hi_RawQuery :: string
  hi_Header :: "string \<Rightarrow> string"
  hi_RemoteAddr :: string

definition clientIP :: "http_info \<Rightarrow> string" where
  "clientIP r =
     (let xff = hi_Header r ''X-Forwarded-For''; xri = hi_Header r ''X-Real-IP'' in
      if xff \<noteq> '''' then
        (if CHR '','' \<in> set xff then TrimSpace (takeWhile (\<lambda>c. c \<noteq> CHR '','') xff) else TrimSpace xff)
      else if xri \<noteq> '''' then TrimSpace xri
      else case SplitHost (hi_RemoteAddr r) of None \<Rightarrow> hi_RemoteAddr r | Some host \<Rightarrow> host)"

text \<open>The calls a handler makes on its response writer, on the plain one and on the logging one.\<close>

datatype writer_call = CallSet string string | CallWriteHeader int | CallWrite bytes nat

fun plain_call :: "writer_call \<Rightarrow> ResponseWriter \<Rightarrow> ResponseWriter" where
  "plain_call (CallSet k v) w = Header_Set k v w"
| "plain_call (CallWriteHeader status) w = WriteHeader status w"
| "plain_call (CallWrite b n) w = Write_n b n w"

fun logged_call :: "writer_call \<Rightarrow> loggingResponseWriter \<Rightarrow> loggingResponseWriter" where
  "logged_call (CallSet k v) w = w\<lparr>lw_ResponseWriter := Header_Set k v (lw_ResponseWriter w)\<rparr>"
| "logged_call (CallWriteHeader status) w = lw_WriteHeader status w"
| "logged_call (CallWrite b n) w = lw_Write b n w"

datatype log_level = LevelInfo | LevelWarn | LevelError
datatype log_value = LogText string | LogInt int

record log_entry =
  le_level :: log_level
  le_attrs :: "(string \<times> log_value) list"

text \<open>\<open>RequestLogging\<close> around a handler that makes the given calls and takes \<open>latency\<close> nanoseconds.\<close>

definition RequestLogging :: "writer_call list \<Rightarrow> http_info \<Rightarrow> int \<Rightarrow> ResponseWriter \<Rightarrow> ResponseWriter \<times> log_entry" where
  "RequestLogging handler r latency w =
     (let lw = fold logged_call handler \<lparr>lw_ResponseWriter = w, lw_status = 0, lw_bytes = 0, lw_body = []\<rparr>;
          attrs = [(''method'', LogText (hi_Method r)), (''path'', LogText (hi_Path r)), (''status'', LogInt (lw_status lw)),
                   (''latency'', LogInt latency), (''remote_ip'', LogText (clientIP r))];
          attrs = (if hi_RawQuery r \<noteq> '''' then attrs @ [(''query'', LogText (hi_RawQuery r))] else attrs);
          attrs = (if lw_bytes lw > 0 then attrs @ [(''bytes'', LogInt (lw_bytes lw))] else attrs);
          attrs = (if errorMessage lw \<noteq> '''' then attrs @ [(''error'', LogText (errorMessage lw))] else attrs)
      in (lw_ResponseWriter lw,
          \<lparr>le_level = (if lw_status lw \<ge> 500 then LevelError else if lw_status lw \<ge> 400 then LevelWarn else LevelInfo),
           le_attrs = attrs\<rparr>))"

section \<open>The request log of the calendar\<close>

text \<open>\<^verbatim>\<open>api/calendarserver/logging.go\<close> has its own writer and functions, declared anew in that package.\<close>

definition cal_maxLoggedErrorBody :: nat where "cal_maxLoggedErrorBody = 512"

record cal_loggingResponseWriter =
  clw_ResponseWriter :: ResponseWriter
  clw_status :: int
  clw_bytes :: int
  clw_body :: bytes

definition cal_lw_WriteHeader :: "int \<Rightarrow> cal_loggingResponseWriter \<Rightarrow> cal_loggingResponseWriter" where
  "cal_lw_WriteHeader status w =
     (if clw_status w \<noteq> 0 then w
      else w\<lparr>clw_status := status, clw_ResponseWriter := WriteHeader status (clw_ResponseWriter w)\<rparr>)"

definition cal_lw_Write :: "bytes \<Rightarrow> nat \<Rightarrow> cal_loggingResponseWriter \<Rightarrow> cal_loggingResponseWriter" where
  "cal_lw_Write b n w =
     (let w1 = (if clw_status w = 0 then w\<lparr>clw_status := 200\<rparr> else w);
          w2 = (if clw_status w1 \<ge> 400 \<and> length (clw_body w1) < cal_maxLoggedErrorBody then
                  let remain = cal_maxLoggedErrorBody - length (clw_body w1) in
                  if length b \<le> remain then w1\<lparr>clw_body := clw_body w1 @ b\<rparr>
                  else w1\<lparr>clw_body := clw_body w1 @ take remain b\<rparr>
                else w1)
      in w2\<lparr>clw_ResponseWriter := Write_n b n (clw_ResponseWriter w2), clw_bytes := clw_bytes w2 + int (length (take n b))\<rparr>)"

definition cal_errorMessage :: "cal_loggingResponseWriter \<Rightarrow> string" where
  "cal_errorMessage w = TrimSpace (string_of_bytes (clw_body w))"

definition cal_clientIP :: "http_info \<Rightarrow> string" where
  "cal_clientIP r =
     (let xff = hi_Header r ''X-Forwarded-For''; xri = hi_Header r ''X-Real-IP'' in
      if xff \<noteq> '''' then
        (if CHR '','' \<in> set xff then TrimSpace (takeWhile (\<lambda>c. c \<noteq> CHR '','') xff) else TrimSpace xff)
      else if xri \<noteq> '''' then TrimSpace xri
      else case SplitHost (hi_RemoteAddr r) of None \<Rightarrow> hi_RemoteAddr r | Some host \<Rightarrow> host)"

fun cal_logged_call :: "writer_call \<Rightarrow> cal_loggingResponseWriter \<Rightarrow> cal_loggingResponseWriter" where
  "cal_logged_call (CallSet k v) w = w\<lparr>clw_ResponseWriter := Header_Set k v (clw_ResponseWriter w)\<rparr>"
| "cal_logged_call (CallWriteHeader status) w = cal_lw_WriteHeader status w"
| "cal_logged_call (CallWrite b n) w = cal_lw_Write b n w"

definition cal_RequestLogging :: "writer_call list \<Rightarrow> http_info \<Rightarrow> int \<Rightarrow> ResponseWriter \<Rightarrow> ResponseWriter \<times> log_entry" where
  "cal_RequestLogging handler r latency w =
     (let lw = fold cal_logged_call handler \<lparr>clw_ResponseWriter = w, clw_status = 0, clw_bytes = 0, clw_body = []\<rparr>;
          attrs = [(''method'', LogText (hi_Method r)), (''path'', LogText (hi_Path r)), (''status'', LogInt (clw_status lw)),
                   (''latency'', LogInt latency), (''remote_ip'', LogText (cal_clientIP r))];
          attrs = (if hi_RawQuery r \<noteq> '''' then attrs @ [(''query'', LogText (hi_RawQuery r))] else attrs);
          attrs = (if clw_bytes lw > 0 then attrs @ [(''bytes'', LogInt (clw_bytes lw))] else attrs);
          attrs = (if cal_errorMessage lw \<noteq> '''' then attrs @ [(''error'', LogText (cal_errorMessage lw))] else attrs)
      in (clw_ResponseWriter lw,
          \<lparr>le_level = (if clw_status lw \<ge> 500 then LevelError else if clw_status lw \<ge> 400 then LevelWarn else LevelInfo),
           le_attrs = attrs\<rparr>))"

section \<open>Facts about responses\<close>

named_theorems response "what a finished response holds"

lemma writer_simps [simp]:
  "rw_sent (Header_Set k v w) = rw_sent w" "rw_body (Header_Set k v w) = rw_body w"
  "rw_sent (Header_Del k w) = rw_sent w" "rw_body (Header_Del k w) = rw_body w"
  "rw_Header (Header_Set k v w) = (rw_Header w)(k \<mapsto> v)" "rw_Header (Header_Del k w) = (rw_Header w)(k := None)"
  "rw_body (WriteHeader code w) = rw_body w" "rw_Header (WriteHeader code w) = rw_Header w"
  "rw_sent new_writer = None" "rw_body new_writer = []" "rw_Header new_writer = Map.empty"
  by (simp_all add: Header_Set_def Header_Del_def WriteHeader_def new_writer_def split: option.splits)

lemma WriteHeader_sent: "rw_sent w = None \<Longrightarrow> 200 \<le> code \<Longrightarrow> rw_sent (WriteHeader code w) = Some (code, rw_Header w)"
  by (simp add: WriteHeader_def)

lemma Write_sent: "rw_sent w = Some s \<Longrightarrow> rw_sent (Write b w) = Some s \<and> rw_body (Write b w) = rw_body w @ b"
  by (simp add: Write_def Write_n_def Let_def)

text \<open>The status and the body of a response; the status is 0 as long as none is written.\<close>

definition status_of :: "ResponseWriter \<Rightarrow> int" where
  "status_of w = (case rw_sent w of None \<Rightarrow> 0 | Some (code, _) \<Rightarrow> code)"

definition header_of :: "ResponseWriter \<Rightarrow> header" where
  "header_of w = (case rw_sent w of None \<Rightarrow> Map.empty | Some (_, h) \<Rightarrow> h)"

lemma respond [response]:
  assumes "rw_sent w = None" and "200 \<le> code"
  shows "status_of (Write b (WriteHeader code w)) = code" "rw_body (Write b (WriteHeader code w)) = rw_body w @ b"
    "header_of (Write b (WriteHeader code w)) = rw_Header w"
  using Write_sent [OF WriteHeader_sent [OF assms], of b] by (simp_all add: status_of_def header_of_def)

lemma http_Error_response [response]:
  assumes "rw_sent w = None" and "200 \<le> code"
  shows "status_of (http_Error msg code w) = code" "rw_body (http_Error msg code w) = rw_body w @ bytes_of_string (msg @ [CHR 0x0A])"
    "k \<notin> {''Content-Type'', ''X-Content-Type-Options'', ''Content-Length''} \<Longrightarrow> header_of (http_Error msg code w) k = rw_Header w k"
  using assms by (simp_all add: http_Error_def respond)

lemma writeJSON_response [response]:
  assumes "rw_sent w = None" and "200 \<le> code"
  shows "status_of (writeJSON code v w) = code" "rw_body (writeJSON code v w) = rw_body w @ Encode v"
  using assms by (simp_all add: writeJSON_def respond)

lemma writeJSONError_response [response]:
  assumes "rw_sent w = None" and "200 \<le> code"
  shows "status_of (writeJSONError code msg w) = code"
  using assms by (simp add: writeJSONError_def response)

lemma check_simps [simp]:
  "check (Ok x) bad good = good x" "check (Err e) bad good = bad e" "check (Panic p) bad good = Panic p"
  by (simp_all add: check_def)

lemma check_eq_Ok:
  "check r bad good = Ok w \<longleftrightarrow> (\<exists>x. r = Ok x \<and> good x = Ok w) \<or> (\<exists>e. r = Err e \<and> bad e = Ok w)"
  by (cases r) auto

lemma verifyResponseFrom_eq:
  "verifyResponseFrom res = \<lparr>vr_Valid = r_Valid res, vr_Status = r_Status res, vr_Reason = r_Reason res,
     vr_VerifiedAt = (case r_VerifiedAt res of None \<Rightarrow> '''' | Some t \<Rightarrow> format_RFC3339 t),
     vr_BlockHeight = r_BlockHeight res, vr_BlockHash = r_BlockHash res,
     vr_Attestations = map (\<lambda>a. \<lparr>aj_Kind = ai_Kind a, aj_Detail = ai_Detail a, aj_Status = ai_Status a\<rparr>) (r_Attestations res)\<rparr>"
proof -
  have "fold (\<lambda>att resp. resp\<lparr>vr_Attestations := vr_Attestations resp @ [f att]\<rparr>) atts r =
      r\<lparr>vr_Attestations := vr_Attestations r @ map f atts\<rparr>" for f :: "AttestationInfo \<Rightarrow> AttestationInfoJSON" and atts and r :: VerifyResponse
    by (induction atts arbitrary: r) simp_all
  then show ?thesis by (simp add: verifyResponseFrom_def Let_def split: option.splits)
qed

section \<open>The log does not change the response\<close>

text \<open>What the handler asked to be written.\<close>

fun written :: "writer_call list \<Rightarrow> bytes" where
  "written [] = []"
| "written (CallWrite b n # calls) = b @ written calls"
| "written (_ # calls) = written calls"

lemma written_append: "written (cs @ ds) = written cs @ written ds"
  by (induction cs rule: written.induct) simp_all

definition final_codes :: "writer_call list \<Rightarrow> bool" where
  "final_codes calls \<longleftrightarrow> list_all (\<lambda>c. case c of CallWriteHeader s \<Rightarrow> 200 \<le> s | _ \<Rightarrow> True) calls"

definition mirrors :: "loggingResponseWriter \<Rightarrow> ResponseWriter \<Rightarrow> bytes \<Rightarrow> bool" where
  "mirrors lw w a \<longleftrightarrow> lw_ResponseWriter lw = w \<and> lw_status lw = status_of w \<and> lw_bytes lw = int (length (rw_body w)) \<and>
     lw_body lw = (if status_of w \<ge> 400 then take maxLoggedErrorBody a else []) \<and>
     (case rw_sent w of None \<Rightarrow> a = [] | Some (s, _) \<Rightarrow> 200 \<le> s)"

lemma mirrors_WriteHeader: "mirrors lw w a \<Longrightarrow> 200 \<le> s \<Longrightarrow> mirrors (lw_WriteHeader s lw) (WriteHeader s w) a"
  by (auto simp: mirrors_def lw_WriteHeader_def WriteHeader_def status_of_def split: option.splits)

lemma mirrors_Write: "mirrors lw w a \<Longrightarrow> mirrors (lw_Write b n lw) (Write_n b n w) (a @ b)"
proof (cases "rw_sent w")
  case None
  then show "mirrors lw w a \<Longrightarrow> ?thesis"
    by (simp add: mirrors_def lw_Write_def Write_n_def Let_def WriteHeader_def status_of_def)
next
  case (Some p)
  obtain s h where p: "p = (s, h)" by (cases p)
  assume m: "mirrors lw w a"
  show ?thesis
  proof (cases "s \<ge> 400")
    case True
    with m Some p show ?thesis
      by (auto simp: mirrors_def lw_Write_def Write_n_def Let_def status_of_def min_def)
  next
    case False
    with m Some p show ?thesis by (simp add: mirrors_def lw_Write_def Write_n_def Let_def status_of_def)
  qed
qed

lemma mirrors_call:
  assumes "mirrors lw w a" and "final_codes [c]"
  shows "mirrors (logged_call c lw) (plain_call c w) (a @ written [c])"
  using assms mirrors_WriteHeader mirrors_Write
  by (cases c) (auto simp: final_codes_def mirrors_def [of "_\<lparr>lw_ResponseWriter := _\<rparr>"] mirrors_def [of lw] status_of_def)

lemma mirrors_calls:
  "final_codes calls \<Longrightarrow> mirrors lw w a \<Longrightarrow> mirrors (fold logged_call calls lw) (fold plain_call calls w) (a @ written calls)"
proof (induction calls arbitrary: lw w a)
  case (Cons c calls)
  have "written (c # calls) = written [c] @ written calls" using written_append [of "[c]" calls] by simp
  with Cons.IH [OF _ mirrors_call [OF Cons.prems(2)]] Cons.prems(1) show ?case by (simp add: final_codes_def)
qed simp

section \<open>The two request logs agree\<close>

text \<open>The writer of the relay with the fields of the calendar's.\<close>

definition relay_writer :: "cal_loggingResponseWriter \<Rightarrow> loggingResponseWriter" where
  "relay_writer w = \<lparr>lw_ResponseWriter = clw_ResponseWriter w, lw_status = clw_status w, lw_bytes = clw_bytes w, lw_body = clw_body w\<rparr>"

lemma relay_writer_call: "relay_writer (cal_logged_call c w) = logged_call c (relay_writer w)"
  by (cases c) (simp_all add: relay_writer_def cal_lw_WriteHeader_def lw_WriteHeader_def cal_lw_Write_def lw_Write_def
      cal_maxLoggedErrorBody_def maxLoggedErrorBody_def Let_def)

lemma relay_writer_calls: "relay_writer (fold cal_logged_call calls w) = fold logged_call calls (relay_writer w)"
  by (induction calls arbitrary: w) (simp_all add: relay_writer_call)

lemma cal_RequestLogging_eq: "cal_RequestLogging calls r latency w = RequestLogging calls r latency w"
proof -
  have "fold logged_call calls \<lparr>lw_ResponseWriter = w, lw_status = 0, lw_bytes = 0, lw_body = []\<rparr> =
      relay_writer (fold cal_logged_call calls \<lparr>clw_ResponseWriter = w, clw_status = 0, clw_bytes = 0, clw_body = []\<rparr>)"
    by (simp only: relay_writer_calls) (simp add: relay_writer_def)
  then show ?thesis
    by (simp add: RequestLogging_def cal_RequestLogging_def Let_def cal_clientIP_def clientIP_def relay_writer_def
        cal_errorMessage_def errorMessage_def)
qed

section \<open>Properties\<close>

text \<open>
  C28. Wrapping a handler with the request log does not change its response, whatever it writes, even when the connection
  takes only a part of it; only informational responses (a status below 200, which the log takes for the final one)
  are excepted. The entry holds the method, the path, the status that
  was sent (0 if the handler wrote nothing), the latency and the client's address; then the query if there is one; the number of bytes of the body that were
  sent, if any were; and, for a status from 400 on, the first 512 bytes at most that the handler wrote, with the white space around them
  removed, if anything is left of them. The status decides its level. The calendar's own copy of the log does the same.
\<close>

theorem RequestLogging_transparent:
  assumes "final_codes calls"
  shows "let w = fold plain_call calls new_writer; e = snd (RequestLogging calls r latency new_writer);
        text = (if status_of w \<ge> 400 then TrimSpace (string_of_bytes (take 512 (written calls))) else '''')
    in
    fst (RequestLogging calls r latency new_writer) = w \<and>
    le_attrs e =
      [(''method'', LogText (hi_Method r)), (''path'', LogText (hi_Path r)), (''status'', LogInt (status_of w)),
       (''latency'', LogInt latency), (''remote_ip'', LogText (clientIP r))] @
      (if hi_RawQuery r = '''' then [] else [(''query'', LogText (hi_RawQuery r))]) @
      (if rw_body w = [] then [] else [(''bytes'', LogInt (int (length (rw_body w))))]) @
      (if text = '''' then [] else [(''error'', LogText text)]) \<and>
    le_level e = (if status_of w \<ge> 500 then LevelError else if status_of w \<ge> 400 then LevelWarn else LevelInfo) \<and>
    cal_RequestLogging calls r latency new_writer = RequestLogging calls r latency new_writer"
proof -
  let ?w = "fold plain_call calls new_writer" and ?e = "snd (RequestLogging calls r latency new_writer)"
  let ?l0 = "\<lparr>lw_ResponseWriter = new_writer, lw_status = 0, lw_bytes = 0, lw_body = []\<rparr>"
  let ?lw = "fold logged_call calls ?l0"
  have "mirrors ?l0 new_writer []" by (simp add: mirrors_def status_of_def)
  from mirrors_calls [OF assms this] have m: "lw_ResponseWriter ?lw = ?w" "lw_status ?lw = status_of ?w"
    "lw_bytes ?lw = int (length (rw_body ?w))" "lw_body ?lw = (if status_of ?w \<ge> 400 then take 512 (written calls) else [])"
    by (simp_all add: mirrors_def maxLoggedErrorBody_def)
  have "TrimSpace [] = []" by code_simp
  then have msg: "errorMessage ?lw = (if status_of ?w \<ge> 400 then TrimSpace (string_of_bytes (take 512 (written calls))) else '''')"
    by (simp add: errorMessage_def m(4) string_of_bytes_def)
  show ?thesis unfolding cal_RequestLogging_eq Let_def msg [symmetric]
    by (simp add: RequestLogging_def Let_def m(1,2,3))
qed

theorem RequestLogging_transparent_witness:
  "le_attrs (snd (RequestLogging [CallSet ''Accept'' ''x'', CallWriteHeader 404, CallWrite [0x20, 0x6e, 0x6f, 0x0a] 3]
     \<lparr>hi_Method = ''GET'', hi_Path = ''/'', hi_RawQuery = '''', hi_Header = \<lambda>_. '''', hi_RemoteAddr = ''1.2.3.4:80''\<rparr> 7 new_writer)) =
     [(''method'', LogText ''GET''), (''path'', LogText ''/''), (''status'', LogInt 404), (''latency'', LogInt 7),
      (''remote_ip'', LogText ''1.2.3.4''), (''bytes'', LogInt 3), (''error'', LogText ''no'')]"
proof -
  let ?calls = "[CallSet ''Accept'' ''x'', CallWriteHeader 404, CallWrite [0x20, 0x6e, 0x6f, 0x0a] 3]"
  let ?r = "\<lparr>hi_Method = ''GET'', hi_Path = ''/'', hi_RawQuery = '''', hi_Header = \<lambda>_. '''', hi_RemoteAddr = ''1.2.3.4:80''\<rparr> :: http_info"
  have "final_codes ?calls" by (simp add: final_codes_def)
  moreover have "status_of (fold plain_call ?calls new_writer) = 404" "rw_body (fold plain_call ?calls new_writer) = [0x20, 0x6e, 0x6f]"
    "TrimSpace (string_of_bytes (take 512 (written ?calls))) = ''no''" "clientIP ?r = ''1.2.3.4''" by code_simp+
  ultimately show ?thesis using RequestLogging_transparent [of ?calls ?r 7] by (simp add: Let_def)
qed

end
