(* ===== verification/Relay_Server.thy ===== *)
theory Relay_Server
  imports Http_Api
begin

text \<open>
  The HTTP handlers of the relay, \<^verbatim>\<open>api/server\<close>. The backend is a record of its methods: the interface
  \<open>Backend\<close> of \<^verbatim>\<open>handler.go\<close>; the relay runs with the pool of \<^verbatim>\<open>pkg/ots\<close>. Each handler gets the request, or
  what decoding its JSON body returned, and the response writer.
\<close>

section \<open>The handler\<close>

definition maxDigestLength :: nat where "maxDigestLength = 64"
definition maxUploadBytes :: nat where "maxUploadBytes = 128 * 1048576"
definition maxProofBytes :: nat where "maxProofBytes = 1048576"
definition otsAccept :: string where "otsAccept = ''application/vnd.opentimestamps.v1''"

record RelayBackend =
  rb_Stamp :: "bytes \<Rightarrow> Timestamp result"
  rb_GetTimestamp :: Upgrader
  rb_GetTimestampAny :: "bytes \<Rightarrow> Timestamp result"
  rb_Upgrade :: "Timestamp \<Rightarrow> Timestamp \<times> bool result"
  rb_URLs :: "string list"
  rb_Ping :: "nat \<Rightarrow> string \<Rightarrow> unit result"

record Handler =
  h_backend :: RelayBackend
  h_version :: string
  h_headers :: "HeaderSource option"

definition NewHandler :: "RelayBackend \<Rightarrow> string \<Rightarrow> Handler" where
  "NewHandler backend version = \<lparr>h_backend = backend, h_version = version, h_headers = None\<rparr>"

definition WithBitcoin :: "Handler \<Rightarrow> HeaderSource \<Rightarrow> Handler" where
  "WithBitcoin h headers = h\<lparr>h_headers := Some headers\<rparr>"

text \<open>What the library reads out of a request.\<close>

record Request =
  q_ContentLength :: int
  q_Body :: reader
  q_PathValue :: "string \<Rightarrow> string"
  q_FormBytes :: nat
  q_FormFile :: "string \<Rightarrow> (string \<times> reader) result"

text \<open>
  \<open>FormFile\<close> under \<open>http.MaxBytesReader\<close>: it fails when parsing the form reads more bytes than the limit. (The
  server then also closes the connection after the answer, which is not represented.)
\<close>

definition FormFile :: "nat \<Rightarrow> Request \<Rightarrow> string \<Rightarrow> (string \<times> reader) result" where
  "FormFile limit r field =
     (if q_FormBytes r > limit then Err (ErrorString ''multipart: NextPart: http: request body too large'') else q_FormFile r field)"

definition setOTSHeaders :: "ResponseWriter \<Rightarrow> ResponseWriter" where
  "setOTSHeaders w = Header_Set ''Accept'' otsAccept w"

section \<open>Submitting digests\<close>

definition postDigest :: "Handler \<Rightarrow> Request \<Rightarrow> ResponseWriter \<Rightarrow> ResponseWriter result" where
  "postDigest h r w =
     (let w = setOTSHeaders w in
      if q_ContentLength r < 0 then Ok (http_Error ''invalid Content-Length'' 400 w)
      else
        check (ReadAll_limited (maxDigestLength + 1) [] (q_Body r)) (\<lambda>_. Ok (http_Error ''failed to read body'' 400 w)) (\<lambda>body.
        if length body = 0 \<or> length body > maxDigestLength then Ok (http_Error ''digest too long'' 400 w)
        else
          check (rb_Stamp (h_backend h) body) (\<lambda>e. Ok (http_Error (error_string e) 502 w)) (\<lambda>ts.
          check (ts_SerializeBytes ts) (\<lambda>e. Ok (http_Error (error_string e) 500 w)) (\<lambda>data.
          Ok (Write data (WriteHeader 200 (Header_Set ''Content-Type'' ''application/octet-stream'' w)))))))"

definition postCreateJSON :: "Handler \<Rightarrow> CreateTimestampRequest result \<Rightarrow> ResponseWriter \<Rightarrow> ResponseWriter result" where
  "postCreateJSON h decoded w =
     check decoded (\<lambda>_. Ok (writeJSONError 400 ''invalid JSON body'' w)) (\<lambda>req.
     check (hex_DecodeString (ctr_Digest req)) (\<lambda>_. Ok (writeJSONError 400 ''digest must be hex-encoded'' w)) (\<lambda>digest.
     if length digest = 0 \<or> length digest > maxDigestLength then Ok (writeJSONError 400 ''invalid digest length'' w)
     else
       check (rb_Stamp (h_backend h) digest) (\<lambda>e. Ok (writeJSONError 502 (error_string e) w)) (\<lambda>ts.
       check (ts_SerializeBytes ts) (\<lambda>e. Ok (writeJSONError 500 (error_string e) w)) (\<lambda>proof.
       Ok (writeJSON 200 (json_CreateTimestampResponse
         \<lparr>cts_Proof = hex_EncodeToString proof, cts_Commitment = hex_EncodeToString (ts_Msg ts)\<rparr>) w)))))"

section \<open>Looking up proofs\<close>

definition getTimestamp :: "Handler \<Rightarrow> Request \<Rightarrow> ResponseWriter \<Rightarrow> ResponseWriter result" where
  "getTimestamp h r w =
     (let w = setOTSHeaders w in
      check (hex_DecodeString (q_PathValue r ''commitment''))
        (\<lambda>_. Ok (http_Error ''commitment must be hex-encoded bytes'' 400 w)) (\<lambda>commitment.
      check (rb_GetTimestampAny (h_backend h) commitment)
        (\<lambda>_. Ok (http_Error ''Commitment not found'' 404 (Header_Set ''Cache-Control'' ''public, max-age=60'' w))) (\<lambda>ts.
      check (ts_SerializeBytes ts) (\<lambda>e. Ok (http_Error (error_string e) 500 w)) (\<lambda>data.
      Ok (Write data (WriteHeader 200 (Header_Set ''Cache-Control'' ''public, max-age=31536000''
        (Header_Set ''Content-Type'' ''application/octet-stream'' w))))))))"

text \<open>\<open>calendarStatuses\<close>: the \<open>k\<close>-th ping is the one of the \<open>k\<close>-th address.\<close>

fun calendarStatuses_loop :: "RelayBackend \<Rightarrow> nat \<Rightarrow> string list \<Rightarrow> CalendarStatus list \<Rightarrow> CalendarStatus list result" where
  "calendarStatuses_loop b k [] out = Ok out"
| "calendarStatuses_loop b k (u # us) out =
     (case rb_Ping b k u of
        Panic p \<Rightarrow> Panic p
      | Err e \<Rightarrow> calendarStatuses_loop b (Suc k) us (out @ [\<lparr>cst_URL = u, cst_Reachable = False, cst_Detail = error_string e\<rparr>])
      | Ok _ \<Rightarrow> calendarStatuses_loop b (Suc k) us (out @ [\<lparr>cst_URL = u, cst_Reachable = True, cst_Detail = ''''\<rparr>]))"

definition calendarStatuses :: "Handler \<Rightarrow> CalendarStatus list result" where
  "calendarStatuses h = calendarStatuses_loop (h_backend h) 0 (rb_URLs (h_backend h)) []"

definition getHealth :: "Handler \<Rightarrow> ResponseWriter \<Rightarrow> ResponseWriter result" where
  "getHealth h w =
     andThen (calendarStatuses h) (\<lambda>cs.
     if list_ex (\<lambda>c. \<not> cst_Reachable c) cs
     then Ok (writeJSON 503 (json_HealthResponse \<lparr>hr_Status = ''degraded'', hr_Calendars = cs\<rparr>) w)
     else Ok (writeJSON 200 (json_HealthResponse \<lparr>hr_Status = ''ok'', hr_Calendars = cs\<rparr>) w))"

definition getStatus :: "Handler \<Rightarrow> ResponseWriter \<Rightarrow> ResponseWriter result" where
  "getStatus h w =
     andThen (calendarStatuses h) (\<lambda>cs.
     Ok (writeJSON 200 (json_StatusResponse \<lparr>sts_Version = h_version h, sts_Calendars = cs,
       sts_BitcoinVerify = (if h_headers h \<noteq> None then ''enabled'' else '''')\<rparr>) w))"

section \<open>Verifying, upgrading, parsing\<close>

definition verifyOptions :: "Handler \<Rightarrow> Options" where
  "verifyOptions h = \<lparr>o_Upgrader = Some (rb_GetTimestamp (h_backend h)), o_Headers = h_headers h\<rparr>"

definition postVerifyJSON :: "hashes \<Rightarrow> Handler \<Rightarrow> VerifyRequest result \<Rightarrow> ResponseWriter \<Rightarrow> ResponseWriter result" where
  "postVerifyJSON H h decoded w =
     check decoded (\<lambda>_. Ok (writeJSONError 400 ''invalid JSON body'' w)) (\<lambda>req.
     check (hex_DecodeString (vq_Digest req)) (\<lambda>_. Ok (writeJSONError 400 ''digest must be hex-encoded'' w)) (\<lambda>digest.
     check (hex_DecodeString (vq_Proof req)) (\<lambda>_. Ok (writeJSONError 400 ''proof must be hex-encoded'' w)) (\<lambda>proofBytes.
     check (ts_DeserializeBytes H proofBytes digest) (\<lambda>_. Ok (writeJSONError 400 ''invalid proof'' w)) (\<lambda>ts.
     check (snd (VerifyProof H (verifyOptions h) ts digest)) (\<lambda>e. Ok (writeJSONError 500 (error_string e) w)) (\<lambda>result.
     Ok (writeJSON 200 (json_VerifyResponse (verifyResponseFrom result)) w))))))"

definition postUpgradeJSON :: "hashes \<Rightarrow> Handler \<Rightarrow> UpgradeRequest result \<Rightarrow> ResponseWriter \<Rightarrow> ResponseWriter result" where
  "postUpgradeJSON H h decoded w =
     check decoded (\<lambda>_. Ok (writeJSONError 400 ''invalid JSON body'' w)) (\<lambda>req.
     check (hex_DecodeString (uq_Digest req)) (\<lambda>_. Ok (writeJSONError 400 ''digest must be hex-encoded'' w)) (\<lambda>digest.
     check (hex_DecodeString (uq_Proof req)) (\<lambda>_. Ok (writeJSONError 400 ''proof must be hex-encoded'' w)) (\<lambda>proofBytes.
     check (ts_DeserializeBytes H proofBytes digest) (\<lambda>_. Ok (writeJSONError 400 ''invalid proof'' w)) (\<lambda>ts.
     case rb_Upgrade (h_backend h) ts of (ts', upgraded) \<Rightarrow>
     check upgraded (\<lambda>e. Ok (writeJSONError 500 (error_string e) w)) (\<lambda>upgraded.
     check (ts_SerializeBytes ts') (\<lambda>e. Ok (writeJSONError 500 (error_string e) w)) (\<lambda>data.
     Ok (writeJSON 200 (json_UpgradeResponse
       \<lparr>ur_Proof = hex_EncodeToString data, ur_Upgraded = upgraded, ur_Complete = IsComplete ts'\<rparr>) w)))))))"

definition postParseProofJSON :: "hashes \<Rightarrow> ParseProofRequest result \<Rightarrow> ResponseWriter \<Rightarrow> ResponseWriter result" where
  "postParseProofJSON H decoded w =
     check decoded (\<lambda>_. Ok (writeJSONError 400 ''invalid JSON body'' w)) (\<lambda>req.
     check (hex_DecodeString (pq_Digest req)) (\<lambda>_. Ok (writeJSONError 400 ''digest must be hex-encoded'' w)) (\<lambda>digest.
     check (hex_DecodeString (pq_Proof req)) (\<lambda>_. Ok (writeJSONError 400 ''proof must be hex-encoded'' w)) (\<lambda>proofBytes.
     check (ts_DeserializeBytes H proofBytes digest) (\<lambda>_. Ok (writeJSONError 400 ''invalid proof'' w)) (\<lambda>ts.
     check (ParseProof ts digest) (\<lambda>e. Ok (writeJSONError 400 (error_string e) w)) (\<lambda>result.
     Ok (writeJSON 200 (json_ParseProofResponse
       \<lparr>pp_Complete = pr_Complete result, pp_BlockHeight = pr_BlockHeight result,
        pp_BlockHeights = pr_BlockHeights result, pp_PendingCalendars = pr_PendingURIs result\<rparr>) w))))))"

section \<open>Files\<close>

text \<open>\<open>filepath.Base\<close>, on Unix.\<close>

definition Base :: "string \<Rightarrow> string" where
  "Base path =
     (if path = '''' then ''.''
      else let p = rev (takeWhile (\<lambda>c. c \<noteq> CHR ''/'') (rev (TrimRight_slash path))) in if p = '''' then ''/'' else p)"

definition postStampFile :: "hashes \<Rightarrow> Handler \<Rightarrow> Request \<Rightarrow> ResponseWriter \<Rightarrow> ResponseWriter result" where
  "postStampFile H h r w =
     check (FormFile maxUploadBytes r ''file'') (\<lambda>_. Ok (writeJSONError 400 (''multipart field '' @ quote_string ''file'' @ '' required'') w)) (\<lambda>(filename, file).
     check (FromReader H file) (\<lambda>e. Ok (writeJSONError 400 (''hash file: '' @ error_string e) w)) (\<lambda>det.
     check (rb_Stamp (h_backend h) (FileDigest det)) (\<lambda>e. Ok (writeJSONError 502 (error_string e) w)) (\<lambda>proof.
     check (merge_into H det proof) (\<lambda>e. Ok (writeJSONError 500 (error_string e) w)) (\<lambda>det.
     check (df_SerializeBytes det) (\<lambda>e. Ok (writeJSONError 500 (error_string e) w)) (\<lambda>data.
     let name = Base filename;
         name = (if name = '''' \<or> name = ''.'' \<or> name = ''/'' then ''file'' else name)
     in Ok (Write data (WriteHeader 200
          (Header_Set ''Content-Disposition'' (''attachment; filename='' @ [CHR 0x22] @ name @ ''.ots'' @ [CHR 0x22])
            (Header_Set ''Content-Type'' ''application/octet-stream'' w)))))))))"

text \<open>The loop that reads the proof: it stops beyond the limit, and at any error.\<close>

fun read_proof :: "bytes \<Rightarrow> reader \<Rightarrow> bytes" where
  "read_proof otsData [] = otsData"
| "read_proof otsData ((buf, rerr) # r) =
     (if length otsData \<le> maxProofBytes then
        (if rerr \<noteq> None then otsData @ buf else read_proof (otsData @ buf) r)
      else otsData)"

definition postVerifyFile :: "hashes \<Rightarrow> Handler \<Rightarrow> Request \<Rightarrow> ResponseWriter \<Rightarrow> ResponseWriter result" where
  "postVerifyFile H h r w =
     check (FormFile maxUploadBytes r ''file'') (\<lambda>_. Ok (writeJSONError 400 (''multipart field '' @ quote_string ''file'' @ '' required'') w)) (\<lambda>(_, file).
     check (FormFile maxUploadBytes r ''ots'') (\<lambda>_. Ok (writeJSONError 400 (''multipart field '' @ quote_string ''ots'' @ '' required'') w)) (\<lambda>(_, otsFile).
     let otsData = read_proof [] otsFile in
     if length otsData > maxProofBytes then Ok (writeJSONError 400 ''proof too large'' w)
     else
       check (DeserializeDetachedBytes H otsData) (\<lambda>e. Ok (writeJSONError 400 (''invalid .ots proof: '' @ error_string e) w)) (\<lambda>det.
       check (snd (VerifyDetached H (verifyOptions h) file (df_Timestamp det))) (\<lambda>e. Ok (writeJSONError 500 (error_string e) w)) (\<lambda>result.
       Ok (writeJSON 200 (json_VerifyResponse (verifyResponseFrom result)) w)))))"

section \<open>Routes\<close>

datatype endpoint =
    EpDigest | EpTimestamp | EpCreate | EpVerify | EpUpgrade | EpParse | EpStampFile | EpVerifyFile | EpStatus | EpHealth

definition Handler_Register :: "(string \<times> endpoint) list" where
  "Handler_Register =
     [(''POST /digest'', EpDigest), (''GET /timestamp/{commitment}'', EpTimestamp),
      (''POST /api/v1/timestamps'', EpCreate), (''POST /api/v1/verify'', EpVerify), (''POST /api/v1/upgrade'', EpUpgrade),
      (''POST /api/v1/parse-proof'', EpParse), (''POST /api/v1/stamp-file'', EpStampFile),
      (''POST /api/v1/verify-file'', EpVerifyFile), (''GET /api/v1/status'', EpStatus), (''GET /api/v1/health'', EpHealth)]"

section \<open>The pool as the backend\<close>

text \<open>\<open>order\<close> is the order in which the answers of the calendars arrive; a ping uses two calls at most.\<close>

definition pool_backend :: "hashes \<Rightarrow> http \<Rightarrow> Pool \<Rightarrow> string list \<Rightarrow> RelayBackend" where
  "pool_backend H http p order =
     \<lparr>rb_Stamp = Pool_Stamp H http p order, rb_GetTimestamp = Pool_GetTimestamp H http p,
      rb_GetTimestampAny = GetTimestampAny H http p order, rb_Upgrade = Pool_Upgrade H http p,
      rb_URLs = URLs p, rb_Ping = \<lambda>k. Ping (\<lambda>j. http (2 * k + j)) p\<rparr>"

section \<open>What a backend promises\<close>

lemma ReadAll_limited_length: "ReadAll_limited n acc r = Ok bs \<Longrightarrow> length bs \<le> length acc + n"
  by (induction n acc r rule: ReadAll_limited.induct) (auto split: if_splits option.splits read_err.splits)

locale relay_backend =
  fixes H :: hashes and b :: RelayBackend
  assumes Stamp_ok: "rb_Stamp b digest = Ok t \<Longrightarrow> stamp_ok H digest t"
    and GetTimestamp_ok: "rb_GetTimestamp b k uri c = Ok t \<Longrightarrow> stamp_ok H c t"
    and GetTimestampAny_ok: "rb_GetTimestampAny b c = Ok t \<Longrightarrow> stamp_ok H c t"
    and Upgrade_eq: "rb_Upgrade b ts = Upgrade H (rb_GetTimestamp b) ts"

sublocale relay_backend \<subseteq> up: upgrader H "rb_GetTimestamp b"
  by unfold_locales (rule GetTimestamp_ok)

lemma Stamp_merge_no_panic:
  "Stamp_merge H root acc errs rs = Ok x \<Longrightarrow> \<forall>r \<in> set rs. \<not> is_panic r"
proof (induction H root acc errs rs rule: Stamp_merge.induct)
  case (2 H root acc errs r rs)
  then show ?case by (cases r) (auto split: prod.splits result.splits)
qed simp

lemma Pool_Stamp_ok: "Pool_Stamp H http p order digest = Ok t \<Longrightarrow> stamp_ok H digest t"
proof -
  let ?rs = "Stamp_results H http p digest 0 order"
  assume "Pool_Stamp H http p order digest = Ok t"
  then obtain errs where len: "length digest \<le> MaxMsgLength"
    and run: "Stamp_merge H (Timestamp digest [] []) None [] ?rs = Ok (Some t, errs)"
    by (auto simp: Pool_Stamp_def New_def andThen_eq_Ok split: if_splits option.splits)
  have "\<forall>t \<in> oks ?rs. stamp_ok H digest t" by (auto simp: oks_def intro: Stamp_results_ok)
  from Stamp_merge_correct [OF Stamp_merge_no_panic [OF run] this len, of None "[]"] run show ?thesis by auto
qed

lemma first_proof_OkD: "first_proof rs errs = Ok t \<Longrightarrow> Ok t \<in> set rs"
  by (induction rs arbitrary: errs) (auto split: result.splits)

lemma Get_results_ok: "Ok t \<in> set (Get_results H http p c k us) \<Longrightarrow> stamp_ok H c t"
  by (induction us arbitrary: k) (auto dest: client_up.GetTimestamp_ok [OF sym] split: option.splits)

interpretation pool_relay: relay_backend H "pool_backend H http p order" for H http p order
  by unfold_locales
    (auto simp: pool_backend_def Pool_Upgrade_def GetTimestampAny_def Let_def intro: Pool_Stamp_ok pool_up.GetTimestamp_ok
      split: option.splits dest: first_proof_OkD Get_results_ok)

section \<open>An upgraded proof can be encoded\<close>

lemma full_set_stamp: "full t \<Longrightarrow> full s \<Longrightarrow> full (set_stamp t i s)"
  by (cases t) (auto simp: set_stamp_def list_all_iff dest!: set_update_subset_insert [THEN subsetD])

lemma full_node_at: "full t \<Longrightarrow> valid_path t p \<Longrightarrow> full (node_at t p)"
proof (induction t p rule: node_at.induct)
  case (2 t i p)
  then have "ts_Ops t ! i \<in> set (ts_Ops t)" by simp
  then have "full (snd (ts_Ops t ! i))" using "2.prems"(1) by (cases t) (auto simp: list_all_iff)
  with 2 show ?case by simp
qed simp

lemma full_replace_at: "full t \<Longrightarrow> valid_path t p \<Longrightarrow> full s \<Longrightarrow> full (replace_at t p s)"
proof (induction t p rule: node_at.induct)
  case (2 t i p)
  have "full (snd (ts_Ops t ! i))" using full_node_at [of t "[i]"] "2.prems" by simp
  with 2 show ?case by (simp add: full_set_stamp)
qed simp

lemma full_Merge: "full t \<Longrightarrow> full u \<Longrightarrow> Merge H t u = (r, Ok ()) \<Longrightarrow> full r"
proof -
  let ?n = "max (ts_depth t) (ts_depth u)"
  assume a: "full t" "full u" "Merge H t u = (r, Ok ())"
  then have "kids ?n t" using full_depth_iff [of t ?n] by (simp add: le_SucI)
  with Merge_full [of u ?n t H r] a show ?thesis by simp
qed

context relay_backend
begin

lemma Upgrade_loop_full:
  "linked H ts \<Longrightarrow> full ts \<Longrightarrow> Upgrade_loop H (rb_GetTimestamp b) k items ts = (ts', r) \<Longrightarrow> full ts'"
proof (induction items arbitrary: k ts)
  case (Cons item items)
  obtain c att where item: "item = (c, att)" by (cases item)
  show ?case
  proof (cases "\<exists>uri u p. att = PendingAttestation uri \<and> rb_GetTimestamp b k uri c = Ok u \<and> findNode ts c = Some p")
    case True
    then obtain uri u p where att: "att = PendingAttestation uri" and u: "rb_GetTimestamp b k uri c = Ok u"
      and p: "findNode ts c = Some p" by blast
    obtain sub where sub: "Merge H (node_at ts p) u = (sub, Ok ())" and l: "linked H (replace_at ts p sub)"
      by (rule up.merge_at [OF Cons.prems(1) p GetTimestamp_ok [OF u]])
    have "full (node_at ts p)" using findNode_sound(1) [OF p] Cons.prems(2) full_node_at by blast
    from full_Merge [OF this _ sub] GetTimestamp_ok [OF u] have "full sub" by (simp add: stamp_ok_def)
    then have "full (replace_at ts p sub)" using findNode_sound(1) [OF p] Cons.prems(2) full_replace_at by blast
    from Cons.IH [OF l this] Cons.prems(3) show ?thesis by (simp add: item att u p sub)
  next
    case False
    then show ?thesis using Cons
      by (cases att) (auto simp: item split: result.splits option.splits)
  qed
qed simp

lemma Upgrade_full: "linked H ts \<Longrightarrow> full ts \<Longrightarrow> rb_Upgrade b ts = (ts', r) \<Longrightarrow> full ts'"
  using Upgrade_loop_full [of ts 0 "AllAttestations ts"] by (auto simp: Upgrade_eq Upgrade_def Let_def split: prod.splits)

text \<open>Submitting a digest: the answer holds what the backend returned.\<close>

lemma postDigest_outcome:
  assumes "h_backend h = b" and "0 \<le> q_ContentLength r" and "ReadAll_limited 65 [] (q_Body r) = Ok digest"
    and "\<not> is_panic (rb_Stamp b digest)"
  shows "\<exists>w. postDigest h r new_writer = Ok w \<and>
    (if digest = [] \<or> 64 < length digest then status_of w = 400
     else case rb_Stamp b digest of
       Ok t \<Rightarrow> status_of w = 200 \<and> ts_DeserializeBytes H (rw_body w) digest = Ok (normal t)
     | _ \<Rightarrow> status_of w = 502)"
proof -
  have w: "rw_sent (Header_Set ''Accept'' otsAccept new_writer) = None" "rw_body (Header_Set ''Accept'' otsAccept new_writer) = []" by simp_all
  have read: "ReadAll_limited (Suc maxDigestLength) [] (q_Body r) = Ok digest" using assms(3) by (simp add: maxDigestLength_def)
  show ?thesis
  proof (cases "digest = [] \<or> 64 < length digest")
    case True
    then show ?thesis using assms(1-3) w
      by (simp add: postDigest_def Let_def response setOTSHeaders_def maxDigestLength_def)
  next
    case False
    then have len: "\<not> (length digest = 0 \<or> length digest > maxDigestLength)" by (simp add: maxDigestLength_def)
    show ?thesis
    proof (cases "rb_Stamp b digest")
      case (Ok t)
      with stamp_ok_codec [OF Stamp_ok [OF Ok]] False len assms(1,2) read w show ?thesis
        by (simp add: postDigest_def Let_def response setOTSHeaders_def)
    next
      case (Err e)
      with False len assms(1,2) read w show ?thesis by (simp add: postDigest_def Let_def response setOTSHeaders_def)
    qed (use assms(4) in simp)
  qed
qed

end

section \<open>What a client reads\<close>

text \<open>The body of an answer starts with \<open>{"valid":true\<close>.\<close>

definition says_valid :: "bytes \<Rightarrow> bool" where
  "says_valid body \<longleftrightarrow>
     take 13 body = bytes_of_string ([CHR 0x7B, CHR 0x22] @ ''valid'' @ [CHR 0x22] @ '':true'')"

lemma take_bytes_of_string: "take n (bytes_of_string s) = bytes_of_string (take n s)"
  by (simp add: bytes_of_string_def take_map)

lemma says_valid_VerifyResponse: "says_valid (Encode (json_VerifyResponse r)) \<longleftrightarrow> vr_Valid r"
proof -
  have key: "json_string ''valid'' = [CHR 0x22] @ ''valid'' @ [CHR 0x22]" by code_simp
  obtain rest where "json_text (json_VerifyResponse r) =
      [CHR 0x7B, CHR 0x22] @ ''valid'' @ [CHR 0x22] @ '':'' @ (if vr_Valid r then ''true'' else ''false'') @ rest"
    by (simp add: json_VerifyResponse_def key)
  then show ?thesis by (simp add: says_valid_def Encode_def take_bytes_of_string) (simp add: bytes_of_string_def)
qed

lemma says_valid_ErrorResponse: "\<not> says_valid (Encode (json_ErrorResponse r))"
proof -
  have key: "json_string ''error'' = [CHR 0x22] @ ''error'' @ [CHR 0x22]" by code_simp
  show ?thesis
    by (simp add: json_ErrorResponse_def key says_valid_def Encode_def take_bytes_of_string) (simp add: bytes_of_string_def)
qed

lemma says_valid_writeJSONError: "rw_sent w = None \<Longrightarrow> rw_body w = [] \<Longrightarrow> 200 \<le> code \<Longrightarrow> \<not> says_valid (rw_body (writeJSONError code msg w))"
  by (simp add: writeJSONError_def response says_valid_ErrorResponse)

text \<open>A confirmation that reaches the client, with the block header behind it.\<close>

definition confirmed_answer :: "hashes \<Rightarrow> HeaderSource option \<Rightarrow> bytes \<Rightarrow> ResponseWriter \<Rightarrow> bool" where
  "confirmed_answer H headers digest w \<longleftrightarrow> status_of w = 200 \<and>
     (\<exists>res src k header xs. rw_body w = Encode (json_VerifyResponse (verifyResponseFrom res)) \<and>
        headers = Some src \<and> src k (r_BlockHeight res) = Ok header \<and>
        list_all op_ok xs \<and> apply_ops H xs digest = Ok (bh_MerkleRoot header) \<and> length (bh_MerkleRoot header) = 32 \<and>
        r_VerifiedAt res = Some (bh_Time header) \<and> r_BlockHash res = bh_Hash header)"

context relay_backend
begin

lemma VerifyProof_answer:
  assumes "h_backend h = b" and "linked H ts" and "snd (VerifyProof H (verifyOptions h) ts digest) = Ok res"
    and "says_valid (rw_body (writeJSON 200 (json_VerifyResponse (verifyResponseFrom res)) new_writer))"
  shows "confirmed_answer H (h_headers h) digest (writeJSON 200 (json_VerifyResponse (verifyResponseFrom res)) new_writer)"
proof -
  have v: "r_Valid res" using assms(4) by (simp add: response says_valid_VerifyResponse verifyResponseFrom_eq)
  have opts: "upgrader H u" if "o_Upgrader (verifyOptions h) = Some u" for u
    using that assms(1) up.upgrader_axioms by (simp add: verifyOptions_def)
  obtain p where "VerifyProof H (verifyOptions h) ts digest = (p, Ok res)" using assms(3) by (metis prod.collapse)
  from VerifyProof_valid [OF assms(2) opts this v] obtain src k header xs where "h_headers h = Some src"
    "src k (r_BlockHeight res) = Ok header" "list_all op_ok xs" "apply_ops H xs digest = Ok (bh_MerkleRoot header)"
    "length (bh_MerkleRoot header) = 32" "r_VerifiedAt res = Some (bh_Time header)" "r_BlockHash res = bh_Hash header"
    by (auto simp: verifyOptions_def)
  then show ?thesis
    unfolding confirmed_answer_def by (intro conjI exI [of _ res] exI [of _ src] exI [of _ k] exI [of _ header] exI [of _ xs])
      (simp_all add: response)
qed

lemma postVerifyJSON_sound:
  assumes "h_backend h = b" and "postVerifyJSON H h decoded new_writer = Ok w" and "says_valid (rw_body w)"
  shows "\<exists>req digest. decoded = Ok req \<and> hex_DecodeString (vq_Digest req) = Ok digest \<and> confirmed_answer H (h_headers h) digest w"
proof -
  from assms(2,3) obtain req digest bs ts res where "decoded = Ok req" "hex_DecodeString (vq_Digest req) = Ok digest"
    and ts: "ts_DeserializeBytes H bs digest = Ok ts" and res: "snd (VerifyProof H (verifyOptions h) ts digest) = Ok res"
    and w: "w = writeJSON 200 (json_VerifyResponse (verifyResponseFrom res)) new_writer"
    by (auto simp: postVerifyJSON_def check_eq_Ok says_valid_writeJSONError)
  moreover have "linked H ts" using ts_DeserializeBytes_ok [OF ts] by (simp add: stamp_ok_def)
  ultimately show ?thesis using VerifyProof_answer [OF assms(1)] assms(3) by blast
qed

lemma postVerifyFile_sound:
  assumes "h_backend h = b" and "postVerifyFile H h r new_writer = Ok w" and "says_valid (rw_body w)"
  shows "\<exists>name file digest. FormFile maxUploadBytes r ''file'' = Ok (name, file) \<and> SHA256_HashReader H file = Ok digest \<and>
    confirmed_answer H (h_headers h) digest w"
proof -
  from assms(2,3) obtain name f bs det res where f: "FormFile maxUploadBytes r ''file'' = Ok (name, f)"
    and det: "DeserializeDetachedBytes H bs = Ok det"
    and res: "snd (VerifyDetached H (verifyOptions h) f (df_Timestamp det)) = Ok res"
    and w: "w = writeJSON 200 (json_VerifyResponse (verifyResponseFrom res)) new_writer"
    by (auto simp: postVerifyFile_def check_eq_Ok says_valid_writeJSONError Let_def split: if_splits)
  have "r_Valid res" using assms(3) by (simp add: w response says_valid_VerifyResponse verifyResponseFrom_eq)
  with res obtain digest where d: "SHA256_HashReader H f = Ok digest"
    "snd (VerifyProof H (verifyOptions h) (df_Timestamp det) digest) = Ok res"
    by (auto simp: VerifyDetached_def refuse_def zero_Result_def split: result.splits if_splits)
  have "linked H (df_Timestamp det)" using DeserializeDetached_OkD [OF det] by (simp add: df_ok_def)
  from VerifyProof_answer [OF assms(1) this d(2)] assms(3) w have "confirmed_answer H (h_headers h) digest w" by blast
  with f d(1) show ?thesis by blast
qed

text \<open>Upgrading answers with a proof that can be read back, unless the backend panics.\<close>

lemma postUpgradeJSON_outcome:
  assumes "h_backend h = b" and "hex_DecodeString (uq_Digest req) = Ok digest" and "hex_DecodeString (uq_Proof req) = Ok bs"
    and ts: "ts_DeserializeBytes H bs digest = Ok ts" and "\<And>k uri c. \<not> is_panic (rb_GetTimestamp b k uri c)"
  shows "\<exists>w ts'. postUpgradeJSON H h (Ok req) new_writer = Ok w \<and> status_of w = 200 \<and>
    rw_body w = Encode (json_UpgradeResponse
      \<lparr>ur_Proof = hex_EncodeToString (ts_enc ts'), ur_Upgraded = (ts' \<noteq> ts), ur_Complete = IsComplete ts'\<rparr>) \<and>
    linked H ts' \<and> full ts' \<and> ts_Msg ts' = digest \<and> ts_SerializeBytes ts' = Ok (ts_enc ts') \<and>
    set (AllAttestations ts) \<subseteq> set (AllAttestations ts') \<and>
    set (AllAttestations ts') \<subseteq> set (AllAttestations ts) \<union> answers (rb_GetTimestamp b) (AllAttestations ts)"
proof -
  have ok: "linked H ts" "full ts" "ts_Msg ts = digest" using ts_DeserializeBytes_ok [OF ts] by (simp_all add: stamp_ok_def)
  obtain ts' r where u: "rb_Upgrade b ts = (ts', r)" by fastforce
  then have "Upgrade H (rb_GetTimestamp b) ts = (ts', r)" by (simp add: Upgrade_eq)
  note k = up.Upgrade_keeps [OF ok(1) this]
  from k(6) assms(5) have "is_ok r" by blast
  then obtain x where "r = Ok x" by (auto simp only: is_ok_iff)
  with k(5) have x: "r = Ok x" "x = (ts' \<noteq> ts)" by blast+
  have fullr: "full ts'" by (rule Upgrade_full [OF ok(1,2) u])
  then have ser: "ts_SerializeBytes ts' = Ok (ts_enc ts')"
    by (simp add: ts_SerializeBytes_def ts_Serialize_enc(1) NewWriteContext_def Bytes_def)
  let ?resp = "\<lparr>ur_Proof = hex_EncodeToString (ts_enc ts'), ur_Upgraded = (ts' \<noteq> ts), ur_Complete = IsComplete ts'\<rparr>"
  let ?w = "writeJSON 200 (json_UpgradeResponse ?resp) new_writer"
  have "postUpgradeJSON H h (Ok req) new_writer = Ok (writeJSON 200 (json_UpgradeResponse
      \<lparr>ur_Proof = hex_EncodeToString (ts_enc ts'), ur_Upgraded = (ts' \<noteq> ts), ur_Complete = IsComplete ts'\<rparr>) new_writer)"
    using assms(1-4) u x ser by (simp add: postUpgradeJSON_def)
  then have "postUpgradeJSON H h (Ok req) new_writer = Ok ?w" by simp
  moreover have "status_of ?w = 200" "rw_body ?w = Encode (json_UpgradeResponse ?resp)" by (simp_all add: response)
  moreover have "linked H ts' \<and> ts_Msg ts' = digest \<and> set (AllAttestations ts) \<subseteq> set (AllAttestations ts') \<and>
    set (AllAttestations ts') \<subseteq> set (AllAttestations ts) \<union> answers (rb_GetTimestamp b) (AllAttestations ts)"
    using k ok(3) by simp
  ultimately show ?thesis using fullr ser by blast
qed

end

section \<open>Stamping a file and verifying it\<close>

lemma SHA256_HashReader_length: "hash_sizes H \<Longrightarrow> SHA256_HashReader H r = Ok digest \<Longrightarrow> length digest = 32"
  by (auto simp: SHA256_HashReader_def andThen_eq_Ok hash_sizesD)

context relay_backend
begin

lemma postStampFile_outcome:
  assumes "h_backend h = b" and "hash_sizes H" and "FormFile maxUploadBytes r ''file'' = Ok (name, f)"
    and digest: "SHA256_HashReader H f = Ok digest" and t: "rb_Stamp b digest = Ok t"
  shows "\<exists>w d. postStampFile H h r new_writer = Ok w \<and> status_of w = 200 \<and> DeserializeDetachedBytes H (rw_body w) = Ok d \<and>
    FileDigest d = digest \<and> set (AllAttestations (df_Timestamp d)) = set (AllAttestations t)"
proof -
  let ?det = "\<lparr>df_Timestamp = Timestamp digest [] []\<rparr>"
  have len: "length digest = 32" by (rule SHA256_HashReader_length [OF assms(2) digest])
  then have det: "FromReader H f = Ok ?det" "FileDigest ?det = digest"
    using digest by (simp_all add: FromReader_def New_Ok MaxMsgLength_def NewDetached_def SHA256_DigestLength_def FileDigest_def)
  obtain d where d: "merge_into H ?det t = Ok d" "df_ok H d" "FileDigest d = digest"
    "set (AllAttestations (df_Timestamp d)) = set (AllAttestations t)"
    using merge_into_ok [OF _ len Stamp_ok [OF t], of ?det] by auto
  obtain bs where bs: "df_SerializeBytes d = Ok bs"
    "DeserializeDetachedBytes H bs = Ok \<lparr>df_Timestamp = normal (df_Timestamp d)\<rparr>"
    using detached_codec [OF d(2)] by blast
  obtain name' where "postStampFile H h r new_writer = Ok (Write bs (WriteHeader 200 (Header_Set ''Content-Disposition'' name'
      (Header_Set ''Content-Type'' ''application/octet-stream'' new_writer))))"
    using assms(1,3) det t d(1) bs(1) by (simp add: postStampFile_def Let_def)
  with bs(2) d(3,4) show ?thesis by (auto simp: response FileDigest_def AllAttestations_normal)
qed

lemma postVerifyFile_outcome:
  assumes "h_backend h = b" and "FormFile maxUploadBytes r ''file'' = Ok (name, f)" and "FormFile maxUploadBytes r ''ots'' = Ok (name', g)"
    and digest: "SHA256_HashReader H f = Ok digest" and len: "length (read_proof [] g) \<le> maxProofBytes"
    and d: "DeserializeDetachedBytes H (read_proof [] g) = Ok d" "FileDigest d = digest"
    and "\<And>k uri c. \<not> is_panic (rb_GetTimestamp b k uri c)"
    and "\<forall>src k height. h_headers h = Some src \<longrightarrow> \<not> is_panic (src k height)"
  shows "\<exists>w res p. postVerifyFile H h r new_writer = Ok w \<and> status_of w = 200 \<and>
    rw_body w = Encode (json_VerifyResponse (verifyResponseFrom res)) \<and>
    set (AllAttestations (df_Timestamp d)) \<subseteq> set (AllAttestations p) \<and>
    length (r_Attestations res) = length (AllAttestations p) \<and>
    (r_Valid res \<longleftrightarrow> confirmations (h_headers h) 0 (AllAttestations p) \<noteq> [])"
proof -
  let ?t = "df_Timestamp d" and ?o = "verifyOptions h"
  have t: "linked H ?t" "ts_Msg ?t = digest"
    using DeserializeDetached_OkD [OF d(1)] d(2) by (simp_all add: df_ok_def FileDigest_def)
  have o: "o_Upgrader ?o = Some (rb_GetTimestamp b)" "o_Headers ?o = h_headers h" using assms(1) by (simp_all add: verifyOptions_def)
  have up: "upgrader H u \<and> (\<forall>k uri c. \<not> is_panic (u k uri c))" if "o_Upgrader ?o = Some u" for u
    using that o(1) assms(8) up.upgrader_axioms by simp
  have hd: "\<forall>src k height. o_Headers ?o = Some src \<longrightarrow> \<not> is_panic (src k height)" using assms(9) by (simp add: o(2))
  from VerifyProof_outcome [of H ?t digest ?o, OF t up hd] obtain p res where vp: "VerifyProof H ?o ?t digest = (p, Ok res)"
    and v: "r_Valid res \<longleftrightarrow> confirmations (h_headers h) 0 (AllAttestations p) \<noteq> []"
      "length (r_Attestations res) = length (AllAttestations p)"
    by (auto simp: Let_def o(2))
  have "p = fst (Upgrade H (rb_GetTimestamp b) ?t)"
    using vp t(2) by (auto simp: VerifyProof_def VerifyDigest_def o(1) upgradePending_def split: result.splits prod.splits)
  then have sub: "set (AllAttestations ?t) \<subseteq> set (AllAttestations p)" using up.Upgrade_keeps(3) [OF t(1)] by (metis prod.collapse)
  have "snd (VerifyDetached H ?o f ?t) = Ok res" using vp digest t(2) by (simp add: VerifyDetached_def)
  then have "postVerifyFile H h r new_writer = Ok (writeJSON 200 (json_VerifyResponse (verifyResponseFrom res)) new_writer)"
    using assms(2,3) len d(1) by (simp add: postVerifyFile_def Let_def)
  moreover have "status_of (writeJSON 200 (json_VerifyResponse (verifyResponseFrom res)) new_writer) = 200"
    "rw_body (writeJSON 200 (json_VerifyResponse (verifyResponseFrom res)) new_writer) = Encode (json_VerifyResponse (verifyResponseFrom res))"
    by (simp_all add: response)
  ultimately show ?thesis using v sub by blast
qed

end

section \<open>Properties\<close>

text \<open>
  C21. Submitting a digest to a relay over a pool of calendars, in whatever order the calendars answer: a
  body that is empty or longer than 64 bytes is refused with 400; if no calendar returns a proof the
  status is 502; otherwise the status is 200 and the client reads from the body, for the digest it sent, a
  proof with exactly the attestations of all the proofs that the calendars returned.
\<close>

theorem relay_postDigest_correct:
  assumes "NewPool urls = Ok p" and "mset order = mset (p_urls p)" and "\<And>c k. \<not> is_panic (Client_Submit H http c k digest)"
    and "h_backend h = pool_backend H http p order" and "0 \<le> q_ContentLength r"
    and "ReadAll_limited 65 [] (q_Body r) = Ok digest"
  shows "\<exists>w. postDigest h r new_writer = Ok w \<and>
    (let proofs = oks (Stamp_results H http p digest 0 order) in
     if digest = [] \<or> 64 < length digest then status_of w = 400
     else if proofs = {} then status_of w = 502
     else status_of w = 200 \<and> (\<exists>t. ts_DeserializeBytes H (rw_body w) digest = Ok t \<and>
       set (AllAttestations t) = (\<Union>u \<in> proofs. set (AllAttestations u))))"
proof -
  let ?b = "pool_backend H http p order" and ?proofs = "oks (Stamp_results H http p digest 0 order)"
  have "length digest \<le> 65" using ReadAll_limited_length [OF assms(6)] by simp
  then have "length digest \<le> MaxMsgLength" by (simp add: MaxMsgLength_def)
  note s = Pool_Stamp_outcome [OF assms(1,2) this assms(3), unfolded Let_def]
  have b: "rb_Stamp ?b digest = Pool_Stamp H http p order digest" by (simp add: pool_backend_def)
  have np: "\<not> is_panic (rb_Stamp ?b digest)" using s by (cases "?proofs = {}") (auto simp: b)
  obtain w where w: "postDigest h r new_writer = Ok w" and
    out: "if digest = [] \<or> 64 < length digest then status_of w = 400
     else case rb_Stamp ?b digest of
       Ok t \<Rightarrow> status_of w = 200 \<and> ts_DeserializeBytes H (rw_body w) digest = Ok (normal t)
     | _ \<Rightarrow> status_of w = 502"
    using pool_relay.postDigest_outcome [OF assms(4-6) np] by blast
  show ?thesis
  proof (cases "digest = [] \<or> 64 < length digest")
    case False
    show ?thesis
    proof (cases "?proofs = {}")
      case True
      with s out w False show ?thesis by (auto simp: b)
    next
      case ne: False
      with s obtain t where t: "Pool_Stamp H http p order digest = Ok t"
        "set (AllAttestations t) = (\<Union>u \<in> ?proofs. set (AllAttestations u))" by blast
      with out w False ne show ?thesis
        by (intro exI [of _ w]) (simp add: b AllAttestations_normal)
    qed
  qed (use out w in auto)
qed

text \<open>A relay over one calendar that answers with a Bitcoin attestation.\<close>

definition sample_pool :: Pool where
  "sample_pool = \<lparr>p_calendars = [''https://a'' \<mapsto> NewClient ''https://a''], p_urls = [''https://a'']\<rparr>"

definition sample_handler :: Handler where
  "sample_handler = WithBitcoin (NewHandler (pool_backend const_hashes sample_http sample_pool [''https://a'']) ''0.3.0'') sample_headers"

definition sample_request :: "bytes \<Rightarrow> Request" where
  "sample_request ots = \<lparr>q_ContentLength = 1, q_Body = [([1], Some EOF)], q_PathValue = \<lambda>_. ''01'',
     q_FormBytes = 200, q_FormFile = \<lambda>field. if field = ''file'' then Ok (''a.txt'', [([9], Some EOF)])
                  else if field = ''ots'' then Ok (''a.ots'', [(ots, Some EOF)]) else Err (ErrorString ''no such file'')\<rparr>"

lemma sample_pool_new: "NewPool [''https://a''] = Ok sample_pool"
proof -
  have u: "TrimRight_slash (TrimSpace ''https://a'') = ''https://a''" by code_simp
  show ?thesis by (simp add: NewPool_def u Let_def sample_pool_def)
qed

lemma sample_backend_sel:
  "h_backend sample_handler = pool_backend const_hashes sample_http sample_pool [''https://a'']"
  "h_headers sample_handler = Some sample_headers"
  by (simp_all add: sample_handler_def NewHandler_def WithBitcoin_def)

theorem relay_postDigest_correct_witness:
  "\<exists>w t. postDigest sample_handler (sample_request []) new_writer = Ok w \<and> status_of w = 200 \<and>
     ts_DeserializeBytes const_hashes (rw_body w) [1] = Ok t \<and> ([1], BitcoinBlockHeaderAttestation 5) \<in> set (AllAttestations t)"
proof -
  have sub: "Client_Submit const_hashes sample_http c k [1] = Ok (Timestamp [1] [BitcoinBlockHeaderAttestation 5] [])" for c k
    by (rule sample_submit) (simp add: MaxMsgLength_def)
  have "oks (Stamp_results const_hashes sample_http sample_pool [1] 0 [''https://a'']) =
      {Timestamp [1] [BitcoinBlockHeaderAttestation 5] []}"
    by (auto simp: oks_def sample_pool_def sub)
  moreover have "ReadAll_limited 65 [] (q_Body (sample_request [])) = Ok [1]" by (simp add: sample_request_def)
  moreover have "0 \<le> q_ContentLength (sample_request [])" by (simp add: sample_request_def)
  moreover have "mset [''https://a''] = mset (p_urls sample_pool)" by (simp add: sample_pool_def)
  ultimately show ?thesis
    using relay_postDigest_correct [OF sample_pool_new, of "[''https://a'']" const_hashes sample_http "[1]" sample_handler "sample_request []"]
    by (auto simp: sub sample_backend_sel Let_def)
qed

text \<open>
  C2. Over HTTP verification stays sound. If the body of an answer of \<open>/api/v1/verify\<close> says that the proof
  is valid, the status is 200, a header source is configured, and a chain of operations leads from the
  digest of the request to the merkle root of a header that the source returned for the reported height
  and that has the reported time and hash; for \<open>/api/v1/verify-file\<close> the same holds for the SHA-256 digest
  of the uploaded file. No error answer says so.
\<close>

theorem relay_verify_sound:
  assumes "h_backend h = pool_backend H http p order" and "says_valid (rw_body w)"
    and "(postVerifyJSON H h decoded new_writer = Ok w \<and> decoded = Ok req \<and> hex_DecodeString (vq_Digest req) = Ok digest) \<or>
      (postVerifyFile H h r new_writer = Ok w \<and> FormFile maxUploadBytes r ''file'' = Ok (name, f) \<and> SHA256_HashReader H f = Ok digest)"
  shows "confirmed_answer H (h_headers h) digest w"
  using assms(3)
proof
  assume "postVerifyJSON H h decoded new_writer = Ok w \<and> decoded = Ok req \<and> hex_DecodeString (vq_Digest req) = Ok digest"
  then show ?thesis using pool_relay.postVerifyJSON_sound [OF assms(1) _ assms(2)] by fastforce
next
  assume "postVerifyFile H h r new_writer = Ok w \<and> FormFile maxUploadBytes r ''file'' = Ok (name, f) \<and> SHA256_HashReader H f = Ok digest"
  then show ?thesis using pool_relay.postVerifyFile_sound [OF assms(1) _ assms(2)] by fastforce
qed

text \<open>
  C3. A stamped file verifies. If the relay stamps a file and a calendar returns a proof, the answer is a
  detached proof file; when the same content is later uploaded with that file (at most 1 MiB of it), the
  relay accepts it, the proof it verifies has all the attestations that were stamped, and the verdict is
  valid exactly if the header source confirms one of the attestations then present.
\<close>

theorem relay_stamp_verify_roundtrip:
  assumes "h_backend h = pool_backend H http p order" and "hash_sizes H"
    and "FormFile maxUploadBytes r ''file'' = Ok (name, f)" and "SHA256_HashReader H f = Ok digest"
    and "Pool_Stamp H http p order digest = Ok t"
    and "h_backend h' = pool_backend H http' p' order'"
    and "FormFile maxUploadBytes r' ''file'' = Ok (name', f')" and "SHA256_HashReader H f' = Ok digest"
    and "\<And>k uri c. \<not> is_panic (Pool_GetTimestamp H http' p' k uri c)"
    and "\<And>src k height. h_headers h' = Some src \<Longrightarrow> \<not> is_panic (src k height)"
  shows "\<exists>w. postStampFile H h r new_writer = Ok w \<and> status_of w = 200 \<and>
    (\<forall>ots_name ots. FormFile maxUploadBytes r' ''ots'' = Ok (ots_name, ots) \<and> read_proof [] ots = rw_body w \<and> length (rw_body w) \<le> maxProofBytes \<longrightarrow>
      (\<exists>w' res proof. postVerifyFile H h' r' new_writer = Ok w' \<and> status_of w' = 200 \<and>
        rw_body w' = Encode (json_VerifyResponse (verifyResponseFrom res)) \<and>
        set (AllAttestations t) \<subseteq> set (AllAttestations proof) \<and>
        length (r_Attestations res) = length (AllAttestations proof) \<and>
        (r_Valid res \<longleftrightarrow> confirmations (h_headers h') 0 (AllAttestations proof) \<noteq> [])))"
proof -
  have "rb_Stamp (pool_backend H http p order) digest = Ok t" using assms(5) by (simp add: pool_backend_def)
  from pool_relay.postStampFile_outcome [OF assms(1-4) this] obtain w d where w: "postStampFile H h r new_writer = Ok w"
    "status_of w = 200" and d: "DeserializeDetachedBytes H (rw_body w) = Ok d" "FileDigest d = digest"
    "set (AllAttestations (df_Timestamp d)) = set (AllAttestations t)" by blast
  have np: "\<And>k uri c. \<not> is_panic (rb_GetTimestamp (pool_backend H http' p' order') k uri c)"
    using assms(9) by (simp add: pool_backend_def)
  have hd: "\<forall>src k height. h_headers h' = Some src \<longrightarrow> \<not> is_panic (src k height)" using assms(10) by blast
  have "\<exists>w' res proof. postVerifyFile H h' r' new_writer = Ok w' \<and> status_of w' = 200 \<and>
        rw_body w' = Encode (json_VerifyResponse (verifyResponseFrom res)) \<and>
        set (AllAttestations t) \<subseteq> set (AllAttestations proof) \<and>
        length (r_Attestations res) = length (AllAttestations proof) \<and>
        (r_Valid res \<longleftrightarrow> confirmations (h_headers h') 0 (AllAttestations proof) \<noteq> [])"
    if ots: "FormFile maxUploadBytes r' ''ots'' = Ok (ots_name, ots)" "read_proof [] ots = rw_body w" "length (rw_body w) \<le> maxProofBytes" for ots_name ots
  proof -
    have "length (read_proof [] ots) \<le> maxProofBytes" "DeserializeDetachedBytes H (read_proof [] ots) = Ok d"
      using ots(2,3) d(1) by simp_all
    from pool_relay.postVerifyFile_outcome [OF assms(6,7) ots(1) assms(8) this d(2) np hd]
    show ?thesis unfolding d(3) .
  qed
  with w show ?thesis by blast
qed

text \<open>
  C23. Upgrading over HTTP. For a proof that decodes for the digest of the request, and calendars that do not
  crash the relay, the answer is 200: it carries the encoding of a proof that is linked and on the digest,
  has every attestation of the proof sent and beyond these only attestations that a calendar returned for one
  of its pending commitments; it reports an upgrade exactly if the proof changed, and completeness exactly if
  the proof has a Bitcoin attestation.
\<close>

theorem relay_upgrade_correct:
  assumes "h_backend h = pool_backend H http p order" and "hex_DecodeString (uq_Digest req) = Ok digest"
    and "hex_DecodeString (uq_Proof req) = Ok bs" and "ts_DeserializeBytes H bs digest = Ok ts"
    and "\<And>k uri c. \<not> is_panic (Pool_GetTimestamp H http p k uri c)"
  shows "\<exists>w ts' data resp. postUpgradeJSON H h (Ok req) new_writer = Ok w \<and> status_of w = 200 \<and>
    rw_body w = Encode (json_UpgradeResponse resp) \<and> ts_SerializeBytes ts' = Ok data \<and>
    hex_DecodeString (ur_Proof resp) = Ok data \<and> linked H ts' \<and> ts_Msg ts' = digest \<and>
    ur_Upgraded resp = (ts' \<noteq> ts) \<and>
    ur_Complete resp = (\<exists>m height. (m, BitcoinBlockHeaderAttestation height) \<in> set (AllAttestations ts')) \<and>
    set (AllAttestations ts) \<subseteq> set (AllAttestations ts') \<and>
    set (AllAttestations ts') \<subseteq> set (AllAttestations ts) \<union> answers (Pool_GetTimestamp H http p) (AllAttestations ts)"
proof -
  have np: "\<And>k uri c. \<not> is_panic (rb_GetTimestamp (pool_backend H http p order) k uri c)"
    using assms(5) by (simp add: pool_backend_def)
  from pool_relay.postUpgradeJSON_outcome [OF assms(1-4) np] obtain w ts' where
    w: "postUpgradeJSON H h (Ok req) new_writer = Ok w" "status_of w = 200"
      "rw_body w = Encode (json_UpgradeResponse
        \<lparr>ur_Proof = hex_EncodeToString (ts_enc ts'), ur_Upgraded = (ts' \<noteq> ts), ur_Complete = IsComplete ts'\<rparr>)"
    and t: "linked H ts'" "ts_Msg ts' = digest" "ts_SerializeBytes ts' = Ok (ts_enc ts')"
      "set (AllAttestations ts) \<subseteq> set (AllAttestations ts')"
      "set (AllAttestations ts') \<subseteq> set (AllAttestations ts) \<union> answers (Pool_GetTimestamp H http p) (AllAttestations ts)"
    by (auto simp: pool_backend_def)
  show ?thesis
    by (rule exI [of _ w], rule exI [of _ ts'], rule exI [of _ "ts_enc ts'"],
        rule exI [of _ "\<lparr>ur_Proof = hex_EncodeToString (ts_enc ts'), ur_Upgraded = (ts' \<noteq> ts), ur_Complete = IsComplete ts'\<rparr>"])
      (simp only: w t hex_DecodeString_Encode IsComplete_iff UpgradeResponse.select_convs simp_thms)
qed

section \<open>Witnesses\<close>

definition sample_confirmed :: Timestamp where
  "sample_confirmed = Timestamp (replicate 32 7) [BitcoinBlockHeaderAttestation 5] []"

lemma sample_confirmed_ok: "stamp_ok const_hashes (replicate 32 7) sample_confirmed" "normal sample_confirmed = sample_confirmed"
  by code_simp+

lemma sample_confirmed_verifies:
  "\<exists>res. snd (VerifyProof const_hashes (verifyOptions sample_handler) sample_confirmed (replicate 32 7)) = Ok res \<and> r_Valid res"
  by (simp add: VerifyProof_def VerifyDigest_def sample_confirmed_def verifyOptions_def sample_backend_sel upgradePending_def
      Upgrade_def verify_item_def verifyBitcoin_def sample_headers_def conclude_def zero_Result_def Let_def add_info_def)

theorem relay_verify_sound_witness:
  "\<exists>w. postVerifyJSON const_hashes sample_handler
      (Ok \<lparr>vq_Digest = hex_EncodeToString (replicate 32 7), vq_Proof = hex_EncodeToString (ts_enc sample_confirmed)\<rparr>) new_writer = Ok w \<and>
    confirmed_answer const_hashes (Some sample_headers) (replicate 32 7) w"
proof -
  let ?req = "\<lparr>vq_Digest = hex_EncodeToString (replicate 32 7), vq_Proof = hex_EncodeToString (ts_enc sample_confirmed)\<rparr>"
  obtain res where res: "snd (VerifyProof const_hashes (verifyOptions sample_handler) sample_confirmed (replicate 32 7)) = Ok res" "r_Valid res"
    using sample_confirmed_verifies by blast
  let ?w = "writeJSON 200 (json_VerifyResponse (verifyResponseFrom res)) new_writer"
  have run: "postVerifyJSON const_hashes sample_handler (Ok ?req) new_writer = Ok ?w"
    using stamp_ok_codec(2) [OF sample_confirmed_ok(1)] sample_confirmed_ok(2) res(1)
    by (simp add: postVerifyJSON_def hex_DecodeString_Encode)
  moreover have "says_valid (rw_body ?w)" using res(2) by (simp add: response says_valid_VerifyResponse verifyResponseFrom_eq)
  ultimately show ?thesis
    using relay_verify_sound [OF sample_backend_sel(1), of ?w "Ok ?req" ?req "replicate 32 7"]
    by (simp add: hex_DecodeString_Encode sample_backend_sel(2))
qed

lemma sample_no_panic: "\<not> is_panic (Pool_GetTimestamp const_hashes sample_http sample_pool k uri c)"
proof -
  have len: "length (att_Serialize [] (BitcoinBlockHeaderAttestation 5)) < maxResponse" by code_simp
  have "\<not> is_panic (ts_DeserializeBytes const_hashes (0 # att_Serialize [] (BitcoinBlockHeaderAttestation 5)) c)"
  proof (cases "length c \<le> MaxMsgLength")
    case True
    then show ?thesis
      using notary_Deserialize_enc [of "BitcoinBlockHeaderAttestation 5" "[]"]
      by (simp add: ts_DeserializeBytes_def recursionLimit_def ts_Deserialize.simps Deserialize_loop.simps
          readItem.simps New_def NewContext_def)
  next
    case False
    then show ?thesis by (simp add: ts_DeserializeBytes_def recursionLimit_def ts_Deserialize.simps New_def)
  qed
  with len show ?thesis
    by (auto simp: Pool_GetTimestamp_def Client_GetTimestamp_def sample_http_def simp del: att_Serialize.simps split: option.splits)
qed

lemma sample_stamp: "Pool_Stamp const_hashes sample_http sample_pool [''https://a''] (replicate 32 7) = Ok sample_confirmed"
proof -
  have "Client_Submit const_hashes sample_http c k (replicate 32 7) = Ok sample_confirmed" for c k
    using sample_submit [of "replicate 32 7"] by (simp add: MaxMsgLength_def sample_confirmed_def)
  moreover have "Merge const_hashes (Timestamp (replicate 32 7) [] []) sample_confirmed = (sample_confirmed, Ok ())" by code_simp
  ultimately show ?thesis by (simp add: Pool_Stamp_def New_Ok MaxMsgLength_def sample_pool_def)
qed

theorem relay_stamp_verify_roundtrip_witness:
  "\<exists>w. postStampFile const_hashes sample_handler (sample_request []) new_writer = Ok w \<and> status_of w = 200"
proof -
  have f: "FormFile maxUploadBytes (sample_request []) ''file'' = Ok (''a.txt'', [([9], Some EOF)])" by (simp add: FormFile_def sample_request_def maxUploadBytes_def)
  have d: "SHA256_HashReader const_hashes [([9], Some EOF)] = Ok (replicate 32 7)"
    by (simp add: SHA256_HashReader_def const_hashes_def)
  have np: "\<not> is_panic (Pool_GetTimestamp const_hashes sample_http sample_pool k uri c)" for k uri c by (rule sample_no_panic)
  have hd: "\<not> is_panic (src k height)" if "h_headers sample_handler = Some src" for src k height
    using that by (auto simp: sample_backend_sel sample_headers_def)
  show ?thesis
    using relay_stamp_verify_roundtrip [of sample_handler const_hashes sample_http sample_pool "[''https://a'']" "sample_request []"
        _ _ _ _ sample_handler sample_http sample_pool "[''https://a'']" "sample_request []",
      OF sample_backend_sel(1) hash_sizes_const f d sample_stamp sample_backend_sel(1) f d] np hd by blast
qed

theorem relay_upgrade_correct_witness:
  "\<exists>w. postUpgradeJSON const_hashes sample_handler
      (Ok \<lparr>uq_Digest = hex_EncodeToString [1], uq_Proof = hex_EncodeToString (ts_enc sample_ts)\<rparr>) new_writer = Ok w \<and> status_of w = 200"
proof -
  let ?req = "\<lparr>uq_Digest = hex_EncodeToString [1], uq_Proof = hex_EncodeToString (ts_enc sample_ts)\<rparr>"
  have "stamp_ok const_hashes [1] sample_ts" using sample_ts_ok by (simp add: stamp_ok_def sample_ts_def recursionLimit_def)
  note ts = stamp_ok_codec(2) [OF this]
  have "hex_DecodeString (uq_Digest ?req) = Ok [1]" "hex_DecodeString (uq_Proof ?req) = Ok (ts_enc sample_ts)"
    by (simp_all add: hex_DecodeString_Encode)
  from relay_upgrade_correct [OF sample_backend_sel(1) this ts] sample_no_panic show ?thesis by blast
qed

end
