(* ===== verification/Api_Docs.thy ===== *)
theory Api_Docs
  imports Relay_Server
begin

text \<open>
  The description of the relay's interface, \<^verbatim>\<open>docs/docs.go\<close>, and how far the relay keeps to it. The text of
  the constant \<open>docTemplate\<close> is the JSON document it holds: one constant per path and per schema, in the order
  of the file, and the holes of the template filled from the \<open>Spec\<close> that the package registers.
\<close>

section \<open>The document\<close>

record Spec =
  spec_Version :: string
  spec_Host :: string
  spec_BasePath :: string
  spec_Schemes :: "string list"
  spec_Title :: string
  spec_Description :: string
  spec_InfoInstanceName :: string
  spec_LeftDelim :: string
  spec_RightDelim :: string

definition SwaggerInfo :: Spec where
  "SwaggerInfo =
     \<lparr>spec_Version = ''0.3.0'', spec_Host = ''localhost:14788'', spec_BasePath = ''/'', spec_Schemes = [],
      spec_Title = ''OTS Relay API'',
      spec_Description = ''OpenTimestamps relay API: stamps and upgrades proofs via public upstream calendars.'',
      spec_InfoInstanceName = ''swagger'',
      spec_LeftDelim = [CHR 0x7B, CHR 0x7B], spec_RightDelim = [CHR 0x7D, CHR 0x7D]\<rparr>"

definition docPath_health :: "string \<times> jvalue" where
  "docPath_health =
    (''/api/v1/health'', JvObject [
      (''get'', JvObject [
        (''description'', JvText ''Reports relay health and upstream calendar reachability.''),
        (''produces'', JvArray [JvText ''application/json'']),
        (''tags'', JvArray [JvText ''system'']),
        (''summary'', JvText ''Health check''),
        (''responses'', JvObject [
          (''200'', JvObject [
            (''description'', JvText ''OK''),
            (''schema'', JvObject [(''$ref'', JvText ''#/definitions/api_server.HealthResponse'')])]),
          (''503'', JvObject [
            (''description'', JvText ''Service Unavailable''),
            (''schema'', JvObject [(''$ref'', JvText ''#/definitions/api_server.HealthResponse'')])])])])])"

definition docPath_parse_proof :: "string \<times> jvalue" where
  "docPath_parse_proof =
    (''/api/v1/parse-proof'', JvObject [
      (''post'', JvObject [
        (''description'', JvText ''Extracts embedded attestation metadata (Bitcoin block heights, pending calendars) from a proof without contacting upstream calendars or a Bitcoin node. Does not cryptographically verify the anchor.''),
        (''consumes'', JvArray [JvText ''application/json'']),
        (''produces'', JvArray [JvText ''application/json'']),
        (''tags'', JvArray [JvText ''timestamps'']),
        (''summary'', JvText ''Parse timestamp proof metadata''),
        (''parameters'', JvArray [
          JvObject [
            (''description'', JvText ''Digest and proof''),
            (''name'', JvText ''request''),
            (''in'', JvText ''body''),
            (''required'', JvBool True),
            (''schema'', JvObject [(''$ref'', JvText ''#/definitions/api_server.ParseProofRequest'')])]]),
        (''responses'', JvObject [
          (''200'', JvObject [
            (''description'', JvText ''OK''),
            (''schema'', JvObject [(''$ref'', JvText ''#/definitions/api_server.ParseProofResponse'')])]),
          (''400'', JvObject [
            (''description'', JvText ''Bad Request''),
            (''schema'', JvObject [(''$ref'', JvText ''#/definitions/api_server.ErrorResponse'')])])])])])"

definition docPath_stamp_file :: "string \<times> jvalue" where
  "docPath_stamp_file =
    (''/api/v1/stamp-file'', JvObject [
      (''post'', JvObject [
        (''description'', JvText (''Multipart upload (field '' @ [CHR 0x22] @ ''file'' @ [CHR 0x22] @ ''). The file is hashed server-side with SHA-256 and submitted to upstream calendars. Returns a standard detached .ots proof as bytes.'')),
        (''consumes'', JvArray [JvText ''multipart/form-data'']),
        (''produces'', JvArray [JvText ''application/octet-stream'']),
        (''tags'', JvArray [JvText ''files'']),
        (''summary'', JvText ''Stamp a file''),
        (''parameters'', JvArray [
          JvObject [
            (''type'', JvText ''file''),
            (''description'', JvText ''File to timestamp''),
            (''name'', JvText ''file''),
            (''in'', JvText ''formData''),
            (''required'', JvBool True)]]),
        (''responses'', JvObject [
          (''200'', JvObject [
            (''description'', JvText ''Detached .ots proof bytes''),
            (''schema'', JvObject [(''type'', JvText ''string'')])]),
          (''400'', JvObject [
            (''description'', JvText ''Bad Request''),
            (''schema'', JvObject [(''$ref'', JvText ''#/definitions/api_server.ErrorResponse'')])]),
          (''502'', JvObject [
            (''description'', JvText ''Bad Gateway''),
            (''schema'', JvObject [(''$ref'', JvText ''#/definitions/api_server.ErrorResponse'')])])])])])"

definition docPath_status :: "string \<times> jvalue" where
  "docPath_status =
    (''/api/v1/status'', JvObject [
      (''get'', JvObject [
        (''description'', JvText ''Operational snapshot: configured upstream calendars and optional Bitcoin verify backend.''),
        (''produces'', JvArray [JvText ''application/json'']),
        (''tags'', JvArray [JvText ''system'']),
        (''summary'', JvText ''Relay status''),
        (''responses'', JvObject [
          (''200'', JvObject [
            (''description'', JvText ''OK''),
            (''schema'', JvObject [(''$ref'', JvText ''#/definitions/api_server.StatusResponse'')])])])])])"

definition docPath_timestamps :: "string \<times> jvalue" where
  "docPath_timestamps =
    (''/api/v1/timestamps'', JvObject [
      (''post'', JvObject [
        (''description'', JvText ''Convenience JSON wrapper around digest submission. Digest must be hex-encoded SHA-256 (32 bytes).''),
        (''consumes'', JvArray [JvText ''application/json'']),
        (''produces'', JvArray [JvText ''application/json'']),
        (''tags'', JvArray [JvText ''timestamps'']),
        (''summary'', JvText ''Create timestamp (JSON)''),
        (''parameters'', JvArray [
          JvObject [
            (''description'', JvText ''Digest to timestamp''),
            (''name'', JvText ''request''),
            (''in'', JvText ''body''),
            (''required'', JvBool True),
            (''schema'', JvObject [(''$ref'', JvText ''#/definitions/api_server.CreateTimestampRequest'')])]]),
        (''responses'', JvObject [
          (''200'', JvObject [
            (''description'', JvText ''OK''),
            (''schema'', JvObject [(''$ref'', JvText ''#/definitions/api_server.CreateTimestampResponse'')])]),
          (''400'', JvObject [
            (''description'', JvText ''Bad Request''),
            (''schema'', JvObject [(''$ref'', JvText ''#/definitions/api_server.ErrorResponse'')])]),
          (''502'', JvObject [
            (''description'', JvText ''Bad Gateway''),
            (''schema'', JvObject [(''$ref'', JvText ''#/definitions/api_server.ErrorResponse'')])])])])])"

definition docPath_upgrade :: "string \<times> jvalue" where
  "docPath_upgrade =
    (''/api/v1/upgrade'', JvObject [
      (''post'', JvObject [
        (''description'', JvText ''Resolves pending attestations against upstream calendars and returns the (possibly) upgraded proof. complete=true once a Bitcoin attestation is present.''),
        (''consumes'', JvArray [JvText ''application/json'']),
        (''produces'', JvArray [JvText ''application/json'']),
        (''tags'', JvArray [JvText ''timestamps'']),
        (''summary'', JvText ''Upgrade timestamp proof''),
        (''parameters'', JvArray [
          JvObject [
            (''description'', JvText ''Digest and proof''),
            (''name'', JvText ''request''),
            (''in'', JvText ''body''),
            (''required'', JvBool True),
            (''schema'', JvObject [(''$ref'', JvText ''#/definitions/api_server.UpgradeRequest'')])]]),
        (''responses'', JvObject [
          (''200'', JvObject [
            (''description'', JvText ''OK''),
            (''schema'', JvObject [(''$ref'', JvText ''#/definitions/api_server.UpgradeResponse'')])]),
          (''400'', JvObject [
            (''description'', JvText ''Bad Request''),
            (''schema'', JvObject [(''$ref'', JvText ''#/definitions/api_server.ErrorResponse'')])])])])])"

definition docPath_verify :: "string \<times> jvalue" where
  "docPath_verify =
    (''/api/v1/verify'', JvObject [
      (''post'', JvObject [
        (''description'', JvText ''Verifies digest binding, resolves pending attestations against upstream calendars, and checks Bitcoin attestations when a Bitcoin header source is configured. valid=true only for cryptographically confirmed proofs.''),
        (''consumes'', JvArray [JvText ''application/json'']),
        (''produces'', JvArray [JvText ''application/json'']),
        (''tags'', JvArray [JvText ''timestamps'']),
        (''summary'', JvText ''Verify timestamp proof''),
        (''parameters'', JvArray [
          JvObject [
            (''description'', JvText ''Digest and proof''),
            (''name'', JvText ''request''),
            (''in'', JvText ''body''),
            (''required'', JvBool True),
            (''schema'', JvObject [(''$ref'', JvText ''#/definitions/api_server.VerifyRequest'')])]]),
        (''responses'', JvObject [
          (''200'', JvObject [
            (''description'', JvText ''OK''),
            (''schema'', JvObject [(''$ref'', JvText ''#/definitions/api_server.VerifyResponse'')])]),
          (''400'', JvObject [
            (''description'', JvText ''Bad Request''),
            (''schema'', JvObject [(''$ref'', JvText ''#/definitions/api_server.ErrorResponse'')])])])])])"

definition docPath_verify_file :: "string \<times> jvalue" where
  "docPath_verify_file =
    (''/api/v1/verify-file'', JvObject [
      (''post'', JvObject [
        (''description'', JvText (''Multipart upload: field '' @ [CHR 0x22] @ ''file'' @ [CHR 0x22] @ '' (original content) and field '' @ [CHR 0x22] @ ''ots'' @ [CHR 0x22] @ '' (detached proof). Returns the full verification result.'')),
        (''consumes'', JvArray [JvText ''multipart/form-data'']),
        (''produces'', JvArray [JvText ''application/json'']),
        (''tags'', JvArray [JvText ''files'']),
        (''summary'', JvText ''Verify a file against its .ots proof''),
        (''parameters'', JvArray [
          JvObject [
            (''type'', JvText ''file''),
            (''description'', JvText ''Original file''),
            (''name'', JvText ''file''),
            (''in'', JvText ''formData''),
            (''required'', JvBool True)],
          JvObject [
            (''type'', JvText ''file''),
            (''description'', JvText ''Detached .ots proof''),
            (''name'', JvText ''ots''),
            (''in'', JvText ''formData''),
            (''required'', JvBool True)]]),
        (''responses'', JvObject [
          (''200'', JvObject [
            (''description'', JvText ''OK''),
            (''schema'', JvObject [(''$ref'', JvText ''#/definitions/api_server.VerifyResponse'')])]),
          (''400'', JvObject [
            (''description'', JvText ''Bad Request''),
            (''schema'', JvObject [(''$ref'', JvText ''#/definitions/api_server.ErrorResponse'')])])])])])"

definition docPath_digest :: "string \<times> jvalue" where
  "docPath_digest =
    (''/digest'', JvObject [
      (''post'', JvObject [
        (''description'', JvText ''OpenTimestamps-native endpoint. Body is raw digest bytes (max 64). Returns serialized timestamp proof from upstream calendars.''),
        (''consumes'', JvArray [JvText ''application/octet-stream'']),
        (''produces'', JvArray [JvText ''application/octet-stream'']),
        (''tags'', JvArray [JvText ''timestamps'']),
        (''summary'', JvText ''Submit digest for timestamping''),
        (''parameters'', JvArray [
          JvObject [
            (''description'', JvText ''Raw digest bytes''),
            (''name'', JvText ''digest''),
            (''in'', JvText ''body''),
            (''required'', JvBool True),
            (''schema'', JvObject [(''type'', JvText ''string'')])]]),
        (''responses'', JvObject [
          (''200'', JvObject [
            (''description'', JvText ''Serialized OTS timestamp''),
            (''schema'', JvObject [(''type'', JvText ''string'')])]),
          (''400'', JvObject [
            (''description'', JvText ''Invalid request''),
            (''schema'', JvObject [(''type'', JvText ''string'')])])])])])"

definition docPath_timestamp :: "string \<times> jvalue" where
  "docPath_timestamp =
    (''/timestamp/{commitment}'', JvObject [
      (''get'', JvObject [
        (''description'', JvText ''OpenTimestamps-native upgrade endpoint. Commitment is hex-encoded bytes. Queries all upstream calendars in parallel.''),
        (''produces'', JvArray [JvText ''application/octet-stream'']),
        (''tags'', JvArray [JvText ''timestamps'']),
        (''summary'', JvText ''Get upgraded timestamp proof''),
        (''parameters'', JvArray [
          JvObject [
            (''type'', JvText ''string''),
            (''description'', JvText ''Hex-encoded commitment''),
            (''name'', JvText ''commitment''),
            (''in'', JvText ''path''),
            (''required'', JvBool True)]]),
        (''responses'', JvObject [
          (''200'', JvObject [
            (''description'', JvText ''Serialized OTS timestamp''),
            (''schema'', JvObject [(''type'', JvText ''string'')])]),
          (''400'', JvObject [
            (''description'', JvText ''Invalid commitment''),
            (''schema'', JvObject [(''type'', JvText ''string'')])]),
          (''404'', JvObject [
            (''description'', JvText ''Not found on any calendar''),
            (''schema'', JvObject [(''type'', JvText ''string'')])])])])])"

definition docSchema_AttestationInfoJSON :: "string \<times> jvalue" where
  "docSchema_AttestationInfoJSON =
    (''api_server.AttestationInfoJSON'', JvObject [
      (''type'', JvText ''object''),
      (''properties'', JvObject [
        (''detail'', JvObject [(''type'', JvText ''string'')]),
        (''kind'', JvObject [(''type'', JvText ''string'')]),
        (''status'', JvObject [(''type'', JvText ''string'')])])])"

definition docSchema_CalendarStatus :: "string \<times> jvalue" where
  "docSchema_CalendarStatus =
    (''api_server.CalendarStatus'', JvObject [
      (''type'', JvText ''object''),
      (''properties'', JvObject [
        (''detail'', JvObject [(''type'', JvText ''string'')]),
        (''reachable'', JvObject [(''type'', JvText ''boolean'')]),
        (''url'', JvObject [(''type'', JvText ''string'')])])])"

definition docSchema_CreateTimestampRequest :: "string \<times> jvalue" where
  "docSchema_CreateTimestampRequest =
    (''api_server.CreateTimestampRequest'', JvObject [
      (''type'', JvText ''object''),
      (''properties'', JvObject [
        (''digest'', JvObject [
          (''type'', JvText ''string''),
          (''example'', JvText ''e3b0c44298fc1c149afbf4c8996fb92427ae41e4649b934ca495991b7852b855'')])])])"

definition docSchema_CreateTimestampResponse :: "string \<times> jvalue" where
  "docSchema_CreateTimestampResponse =
    (''api_server.CreateTimestampResponse'', JvObject [
      (''type'', JvText ''object''),
      (''properties'', JvObject [
        (''commitment'', JvObject [(''type'', JvText ''string'')]),
        (''proof'', JvObject [(''type'', JvText ''string'')])])])"

definition docSchema_ErrorResponse :: "string \<times> jvalue" where
  "docSchema_ErrorResponse =
    (''api_server.ErrorResponse'', JvObject [
      (''type'', JvText ''object''),
      (''properties'', JvObject [(''error'', JvObject [(''type'', JvText ''string'')])])])"

definition docSchema_HealthResponse :: "string \<times> jvalue" where
  "docSchema_HealthResponse =
    (''api_server.HealthResponse'', JvObject [
      (''type'', JvText ''object''),
      (''properties'', JvObject [
        (''calendars'', JvObject [
          (''type'', JvText ''array''),
          (''items'', JvObject [(''$ref'', JvText ''#/definitions/api_server.CalendarStatus'')])]),
        (''status'', JvObject [(''type'', JvText ''string''), (''example'', JvText ''ok'')])])])"

definition docSchema_ParseProofRequest :: "string \<times> jvalue" where
  "docSchema_ParseProofRequest =
    (''api_server.ParseProofRequest'', JvObject [
      (''type'', JvText ''object''),
      (''properties'', JvObject [
        (''digest'', JvObject [
          (''type'', JvText ''string''),
          (''example'', JvText ''e3b0c44298fc1c149afbf4c8996fb92427ae41e4649b934ca495991b7852b855'')]),
        (''proof'', JvObject [(''type'', JvText ''string'')])])])"

definition docSchema_ParseProofResponse :: "string \<times> jvalue" where
  "docSchema_ParseProofResponse =
    (''api_server.ParseProofResponse'', JvObject [
      (''type'', JvText ''object''),
      (''properties'', JvObject [
        (''block_height'', JvObject [(''type'', JvText ''integer''), (''example'', JvNumber ''850000'')]),
        (''block_heights'', JvObject [(''type'', JvText ''array''), (''items'', JvObject [(''type'', JvText ''integer'')])]),
        (''complete'', JvObject [(''type'', JvText ''boolean'')]),
        (''pending_calendars'', JvObject [(''type'', JvText ''array''), (''items'', JvObject [(''type'', JvText ''string'')])])])])"

definition docSchema_StatusResponse :: "string \<times> jvalue" where
  "docSchema_StatusResponse =
    (''api_server.StatusResponse'', JvObject [
      (''type'', JvText ''object''),
      (''properties'', JvObject [
        (''bitcoin_verify'', JvObject [(''type'', JvText ''string''), (''example'', JvText ''enabled'')]),
        (''calendars'', JvObject [
          (''type'', JvText ''array''),
          (''items'', JvObject [(''$ref'', JvText ''#/definitions/api_server.CalendarStatus'')])]),
        (''version'', JvObject [(''type'', JvText ''string'')])])])"

definition docSchema_UpgradeRequest :: "string \<times> jvalue" where
  "docSchema_UpgradeRequest =
    (''api_server.UpgradeRequest'', JvObject [
      (''type'', JvText ''object''),
      (''properties'', JvObject [
        (''digest'', JvObject [
          (''type'', JvText ''string''),
          (''example'', JvText ''e3b0c44298fc1c149afbf4c8996fb92427ae41e4649b934ca495991b7852b855'')]),
        (''proof'', JvObject [(''type'', JvText ''string'')])])])"

definition docSchema_UpgradeResponse :: "string \<times> jvalue" where
  "docSchema_UpgradeResponse =
    (''api_server.UpgradeResponse'', JvObject [
      (''type'', JvText ''object''),
      (''properties'', JvObject [
        (''complete'', JvObject [(''type'', JvText ''boolean'')]),
        (''proof'', JvObject [(''type'', JvText ''string'')]),
        (''upgraded'', JvObject [(''type'', JvText ''boolean'')])])])"

definition docSchema_VerifyRequest :: "string \<times> jvalue" where
  "docSchema_VerifyRequest =
    (''api_server.VerifyRequest'', JvObject [
      (''type'', JvText ''object''),
      (''properties'', JvObject [
        (''digest'', JvObject [
          (''type'', JvText ''string''),
          (''example'', JvText ''e3b0c44298fc1c149afbf4c8996fb92427ae41e4649b934ca495991b7852b855'')]),
        (''proof'', JvObject [(''type'', JvText ''string'')])])])"

definition docSchema_VerifyResponse :: "string \<times> jvalue" where
  "docSchema_VerifyResponse =
    (''api_server.VerifyResponse'', JvObject [
      (''type'', JvText ''object''),
      (''properties'', JvObject [
        (''attestations'', JvObject [
          (''type'', JvText ''array''),
          (''items'', JvObject [(''$ref'', JvText ''#/definitions/api_server.AttestationInfoJSON'')])]),
        (''block_hash'', JvObject [(''type'', JvText ''string'')]),
        (''block_height'', JvObject [(''type'', JvText ''integer''), (''example'', JvNumber ''850000'')]),
        (''reason'', JvObject [(''type'', JvText ''string'')]),
        (''status'', JvObject [(''type'', JvText ''string''), (''example'', JvText ''confirmed'')]),
        (''valid'', JvObject [(''type'', JvText ''boolean'')]),
        (''verified_at'', JvObject [(''type'', JvText ''string''), (''example'', JvText ''2026-06-12T14:00:00Z'')])])])"

definition docPaths :: "(string \<times> jvalue) list" where
  "docPaths =
    [docPath_health,
     docPath_parse_proof,
     docPath_stamp_file,
     docPath_status,
     docPath_timestamps,
     docPath_upgrade,
     docPath_verify,
     docPath_verify_file,
     docPath_digest,
     docPath_timestamp]"

definition docDefinitions :: "(string \<times> jvalue) list" where
  "docDefinitions =
    [docSchema_AttestationInfoJSON,
     docSchema_CalendarStatus,
     docSchema_CreateTimestampRequest,
     docSchema_CreateTimestampResponse,
     docSchema_ErrorResponse,
     docSchema_HealthResponse,
     docSchema_ParseProofRequest,
     docSchema_ParseProofResponse,
     docSchema_StatusResponse,
     docSchema_UpgradeRequest,
     docSchema_UpgradeResponse,
     docSchema_VerifyRequest,
     docSchema_VerifyResponse]"

definition docTemplate :: "Spec \<Rightarrow> jvalue" where
  "docTemplate spec =
     JvObject [
       (''schemes'', JvArray (map JvText (spec_Schemes spec))),
       (''consumes'', JvArray [JvText ''application/json'', JvText ''application/octet-stream'']),
       (''produces'', JvArray [JvText ''application/json'', JvText ''application/octet-stream'']),
       (''swagger'', JvText ''2.0''),
       (''info'', JvObject [
          (''description'', JvText (spec_Description spec)),
          (''title'', JvText (spec_Title spec)),
          (''termsOfService'', JvText ''https://github.com/thalestmm/ots''),
          (''contact'', JvObject [(''name'', JvText ''OTS''), (''url'', JvText ''https://github.com/thalestmm/ots'')]),
          (''license'', JvObject [(''name'', JvText ''LGPL-3.0''), (''url'', JvText ''https://www.gnu.org/licenses/lgpl-3.0.html'')]),
          (''version'', JvText (spec_Version spec))]),
       (''host'', JvText (spec_Host spec)),
       (''basePath'', JvText (spec_BasePath spec)),
       (''paths'', JvObject docPaths),
       (''definitions'', JvObject docDefinitions)]"

section \<open>Reading the document\<close>

fun jv_field :: "string \<Rightarrow> jvalue \<Rightarrow> jvalue option" where
  "jv_field k (JvObject fs) = map_of fs k"
| "jv_field k _ = None"

fun jv_path :: "jvalue \<Rightarrow> string list \<Rightarrow> jvalue option" where
  "jv_path v [] = Some v"
| "jv_path v (k # ks) = (case jv_field k v of None \<Rightarrow> None | Some u \<Rightarrow> jv_path u ks)"

definition definitions_prefix :: string where "definitions_prefix = ''#/definitions/''"

text \<open>A schema, or the definition that it refers to.\<close>

definition resolve :: "jvalue \<Rightarrow> jvalue \<Rightarrow> jvalue option" where
  "resolve doc schema =
     (case jv_field ''$ref'' schema of
        None \<Rightarrow> Some schema
      | Some (JvText r) \<Rightarrow>
          if take (length definitions_prefix) r = definitions_prefix
          then jv_path doc [''definitions'', drop (length definitions_prefix) r] else None
      | Some _ \<Rightarrow> None)"

definition typed :: "string \<Rightarrow> jvalue option \<Rightarrow> bool" where
  "typed t schema \<longleftrightarrow> (case schema of None \<Rightarrow> False | Some s \<Rightarrow> jv_field ''type'' s = Some (JvText t))"

definition property_schema :: "string \<Rightarrow> jvalue option \<Rightarrow> jvalue option" where
  "property_schema k schema = (case schema of None \<Rightarrow> None | Some s \<Rightarrow> jv_path s [''properties'', k])"

definition items_schema :: "jvalue option \<Rightarrow> jvalue option" where
  "items_schema schema = (case schema of None \<Rightarrow> None | Some s \<Rightarrow> jv_field ''items'' s)"

text \<open>
  A value conforms to a schema if it has its type, an object has only fields that the schema lists, and
  the fields and the elements of arrays conform to theirs. A null has no type.
\<close>

fun conforms :: "jvalue \<Rightarrow> jvalue option \<Rightarrow> jvalue \<Rightarrow> bool"
  and conforms_items :: "jvalue \<Rightarrow> jvalue option \<Rightarrow> jvalue list \<Rightarrow> bool"
  and conforms_fields :: "jvalue \<Rightarrow> jvalue option \<Rightarrow> (string \<times> jvalue) list \<Rightarrow> bool"
where
  "conforms doc schema JvNull = False"
| "conforms doc schema (JvBool b) = typed ''boolean'' (Option.bind schema (resolve doc))"
| "conforms doc schema (JvNumber n) =
     (typed ''integer'' (Option.bind schema (resolve doc)) \<and> n \<noteq> [] \<and> list_all (in_range 48 57) n)"
| "conforms doc schema (JvText s) = typed ''string'' (Option.bind schema (resolve doc))"
| "conforms doc schema (JvArray vs) =
     (let s = Option.bind schema (resolve doc) in typed ''array'' s \<and> conforms_items doc (items_schema s) vs)"
| "conforms doc schema (JvObject fs) =
     (let s = Option.bind schema (resolve doc) in typed ''object'' s \<and> conforms_fields doc s fs)"
| "conforms_items doc schema [] = True"
| "conforms_items doc schema (v # vs) = (conforms doc schema v \<and> conforms_items doc schema vs)"
| "conforms_fields doc schema [] = True"
| "conforms_fields doc schema ((k, v) # fs) = (conforms doc (property_schema k schema) v \<and> conforms_fields doc schema fs)"

text \<open>The routes of the document, written as the patterns of \<open>Handler_Register\<close> are.\<close>

definition ToUpper :: "string \<Rightarrow> string" where
  "ToUpper s = map (\<lambda>c. if in_range 97 122 c then char_of ((of_char c :: nat) - 32) else c) s"

fun object_fields :: "jvalue option \<Rightarrow> (string \<times> jvalue) list" where
  "object_fields (Some (JvObject fs)) = fs"
| "object_fields _ = []"

definition docRoutes :: "jvalue \<Rightarrow> (string \<times> jvalue) list" where
  "docRoutes doc =
     concat (map (\<lambda>(path, methods). map (\<lambda>(m, operation). (ToUpper m @ '' '' @ path, operation)) (object_fields (Some methods)))
       (object_fields (jv_field ''paths'' doc)))"

text \<open>The schema of an answer with the given status, if the document has that answer.\<close>

definition docAnswer :: "jvalue \<Rightarrow> string \<Rightarrow> int \<Rightarrow> jvalue option" where
  "docAnswer doc route status =
     (case map_of (docRoutes doc) route of
        None \<Rightarrow> None
      | Some operation \<Rightarrow> jv_path operation [''responses'', dec_int status, ''schema''])"

text \<open>
  An answer is documented if the document has its status for the route, and it is either a plain string or
  a JSON text of the documented schema.
\<close>

definition plain_string :: jvalue where
  "plain_string = JvObject [(''type'', JvText ''string'')]"

definition answer_documented :: "jvalue \<Rightarrow> string \<Rightarrow> ResponseWriter \<Rightarrow> bool" where
  "answer_documented doc route w \<longleftrightarrow>
     (case docAnswer doc route (status_of w) of
        None \<Rightarrow> False
      | Some schema \<Rightarrow> schema = plain_string \<or>
          (header_of w ''Content-Type'' = Some ''application/json'' \<and>
           (\<exists>v. rw_body w = Encode v \<and> conforms doc (Some schema) v)))"

section \<open>What the document says\<close>

lemmas doc_paths = docPath_health_def docPath_parse_proof_def docPath_stamp_file_def docPath_status_def docPath_timestamps_def
  docPath_upgrade_def docPath_verify_def docPath_verify_file_def docPath_digest_def docPath_timestamp_def

lemmas doc_schemas = docSchema_AttestationInfoJSON_def docSchema_CalendarStatus_def docSchema_CreateTimestampRequest_def
  docSchema_CreateTimestampResponse_def docSchema_ErrorResponse_def docSchema_HealthResponse_def
  docSchema_ParseProofRequest_def docSchema_ParseProofResponse_def docSchema_StatusResponse_def
  docSchema_UpgradeRequest_def docSchema_UpgradeResponse_def docSchema_VerifyRequest_def docSchema_VerifyResponse_def

lemma ToUpper_methods: "ToUpper ''get'' = ''GET''" "ToUpper ''post'' = ''POST''"
  by code_simp+

lemma dec_int_status:
  "dec_int 200 = ''200''" "dec_int 400 = ''400''" "dec_int 404 = ''404''" "dec_int 500 = ''500''" "dec_int 502 = ''502''" "dec_int 503 = ''503''"
  by code_simp+

definition doc_op :: "string \<Rightarrow> string \<times> jvalue \<Rightarrow> jvalue" where
  "doc_op m p = the (jv_field m (snd p))"

lemma docRoutes_eq:
  "docRoutes (docTemplate spec) =
     [(''GET /api/v1/health'', doc_op ''get'' docPath_health), (''POST /api/v1/parse-proof'', doc_op ''post'' docPath_parse_proof),
      (''POST /api/v1/stamp-file'', doc_op ''post'' docPath_stamp_file), (''GET /api/v1/status'', doc_op ''get'' docPath_status),
      (''POST /api/v1/timestamps'', doc_op ''post'' docPath_timestamps), (''POST /api/v1/upgrade'', doc_op ''post'' docPath_upgrade),
      (''POST /api/v1/verify'', doc_op ''post'' docPath_verify), (''POST /api/v1/verify-file'', doc_op ''post'' docPath_verify_file),
      (''POST /digest'', doc_op ''post'' docPath_digest), (''GET /timestamp/{commitment}'', doc_op ''get'' docPath_timestamp)]"
  by (simp add: docRoutes_def docTemplate_def docPaths_def doc_op_def doc_paths ToUpper_methods)

definition ref :: "string \<Rightarrow> jvalue" where
  "ref name = JvObject [(''$ref'', JvText (definitions_prefix @ ''api_server.'' @ name))]"

lemma docAnswers:
  "docAnswer (docTemplate spec) ''POST /digest'' 200 = Some plain_string"
  "docAnswer (docTemplate spec) ''POST /digest'' 400 = Some plain_string"
  "docAnswer (docTemplate spec) ''POST /digest'' 502 = None"
  "docAnswer (docTemplate spec) ''GET /timestamp/{commitment}'' 200 = Some plain_string"
  "docAnswer (docTemplate spec) ''GET /timestamp/{commitment}'' 400 = Some plain_string"
  "docAnswer (docTemplate spec) ''GET /timestamp/{commitment}'' 404 = Some plain_string"
  "docAnswer (docTemplate spec) ''POST /api/v1/timestamps'' 200 = Some (ref ''CreateTimestampResponse'')"
  "docAnswer (docTemplate spec) ''POST /api/v1/timestamps'' 400 = Some (ref ''ErrorResponse'')"
  "docAnswer (docTemplate spec) ''POST /api/v1/timestamps'' 502 = Some (ref ''ErrorResponse'')"
  "docAnswer (docTemplate spec) ''POST /api/v1/verify'' 200 = Some (ref ''VerifyResponse'')"
  "docAnswer (docTemplate spec) ''POST /api/v1/verify'' 400 = Some (ref ''ErrorResponse'')"
  "docAnswer (docTemplate spec) ''POST /api/v1/upgrade'' 200 = Some (ref ''UpgradeResponse'')"
  "docAnswer (docTemplate spec) ''POST /api/v1/upgrade'' 400 = Some (ref ''ErrorResponse'')"
  "docAnswer (docTemplate spec) ''POST /api/v1/parse-proof'' 200 = Some (ref ''ParseProofResponse'')"
  "docAnswer (docTemplate spec) ''POST /api/v1/parse-proof'' 400 = Some (ref ''ErrorResponse'')"
  "docAnswer (docTemplate spec) ''POST /api/v1/stamp-file'' 200 = Some plain_string"
  "docAnswer (docTemplate spec) ''POST /api/v1/stamp-file'' 400 = Some (ref ''ErrorResponse'')"
  "docAnswer (docTemplate spec) ''POST /api/v1/stamp-file'' 502 = Some (ref ''ErrorResponse'')"
  "docAnswer (docTemplate spec) ''POST /api/v1/verify-file'' 200 = Some (ref ''VerifyResponse'')"
  "docAnswer (docTemplate spec) ''POST /api/v1/verify-file'' 400 = Some (ref ''ErrorResponse'')"
  "docAnswer (docTemplate spec) ''POST /api/v1/verify-file'' 500 = None"
  "docAnswer (docTemplate spec) ''GET /api/v1/status'' 200 = Some (ref ''StatusResponse'')"
  "docAnswer (docTemplate spec) ''GET /api/v1/health'' 200 = Some (ref ''HealthResponse'')"
  "docAnswer (docTemplate spec) ''GET /api/v1/health'' 503 = Some (ref ''HealthResponse'')"
  by (simp_all only: docAnswer_def docRoutes_eq dec_int_status)
    (simp_all add: doc_op_def doc_paths plain_string_def ref_def definitions_prefix_def)

lemma docDefinitions_eq:
  "docDefinitions =
     [(''api_server.AttestationInfoJSON'', snd docSchema_AttestationInfoJSON),
      (''api_server.CalendarStatus'', snd docSchema_CalendarStatus),
      (''api_server.CreateTimestampRequest'', snd docSchema_CreateTimestampRequest),
      (''api_server.CreateTimestampResponse'', snd docSchema_CreateTimestampResponse),
      (''api_server.ErrorResponse'', snd docSchema_ErrorResponse),
      (''api_server.HealthResponse'', snd docSchema_HealthResponse),
      (''api_server.ParseProofRequest'', snd docSchema_ParseProofRequest),
      (''api_server.ParseProofResponse'', snd docSchema_ParseProofResponse),
      (''api_server.StatusResponse'', snd docSchema_StatusResponse),
      (''api_server.UpgradeRequest'', snd docSchema_UpgradeRequest),
      (''api_server.UpgradeResponse'', snd docSchema_UpgradeResponse),
      (''api_server.VerifyRequest'', snd docSchema_VerifyRequest),
      (''api_server.VerifyResponse'', snd docSchema_VerifyResponse)]"
  by (simp add: docDefinitions_def doc_schemas)

lemma docTemplate_definitions: "jv_field ''definitions'' (docTemplate spec) = Some (JvObject docDefinitions)"
  by (simp add: docTemplate_def)

lemma resolve_doc:
  "resolve (docTemplate spec) (ref ''ErrorResponse'') = Some (snd docSchema_ErrorResponse)"
  "resolve (docTemplate spec) (ref ''AttestationInfoJSON'') = Some (snd docSchema_AttestationInfoJSON)"
  "resolve (docTemplate spec) (ref ''CalendarStatus'') = Some (snd docSchema_CalendarStatus)"
  "resolve (docTemplate spec) (ref ''CreateTimestampResponse'') = Some (snd docSchema_CreateTimestampResponse)"
  "resolve (docTemplate spec) (ref ''HealthResponse'') = Some (snd docSchema_HealthResponse)"
  "resolve (docTemplate spec) (ref ''ParseProofResponse'') = Some (snd docSchema_ParseProofResponse)"
  "resolve (docTemplate spec) (ref ''StatusResponse'') = Some (snd docSchema_StatusResponse)"
  "resolve (docTemplate spec) (ref ''UpgradeResponse'') = Some (snd docSchema_UpgradeResponse)"
  "resolve (docTemplate spec) (ref ''VerifyResponse'') = Some (snd docSchema_VerifyResponse)"
  by (simp_all add: resolve_def ref_def definitions_prefix_def docTemplate_definitions docDefinitions_eq)

end
