(* ===== verification/Storage.thy ===== *)
theory Storage
  imports Timestamp_Merge
begin

text \<open>
  The commitment stores of \<^verbatim>\<open>internal/calendar/storage.go\<close> and \<^verbatim>\<open>internal/calendar/store_bolt.go\<close>, and
  the contract of the interface \<open>Storage\<close> that the calendar service relies on. The locks serialise the
  calls. The embedded database of \<open>BoltStore\<close> is a parameter: the record \<open>bolt\<close> of the functions the
  store calls, with the documented behaviour of managed transactions as the laws of a locale.
\<close>

section \<open>The memory store\<close>

definition cloneTimestamp :: "hashes \<Rightarrow> Timestamp \<Rightarrow> Timestamp result" where
  "cloneTimestamp H ts =
     (case ts_SerializeBytes ts of
        Panic p \<Rightarrow> Panic p
      | Err e \<Rightarrow> Panic (error_string e)
      | Ok data \<Rightarrow>
          (case ts_DeserializeBytes H data (ts_Msg ts) of
             Panic p \<Rightarrow> Panic p
           | Err e \<Rightarrow> Panic (error_string e)
           | Ok clone \<Rightarrow> Ok clone))"

record MemoryStore =
  ms_data :: "bytes \<rightharpoonup> Timestamp"

definition NewMemoryStore :: MemoryStore where
  "NewMemoryStore = \<lparr>ms_data = Map.empty\<rparr>"

definition ms_Put :: "hashes \<Rightarrow> MemoryStore \<Rightarrow> bytes \<Rightarrow> Timestamp \<Rightarrow> MemoryStore \<times> unit result" where
  "ms_Put H s commitment ts =
     (case cloneTimestamp H ts of
        Panic p \<Rightarrow> (s, Panic p)
      | Err e \<Rightarrow> (s, Err e)
      | Ok clone \<Rightarrow> (s\<lparr>ms_data := (ms_data s)(commitment \<mapsto> clone)\<rparr>, Ok ()))"

definition ms_Get :: "hashes \<Rightarrow> MemoryStore \<Rightarrow> bytes \<Rightarrow> Timestamp result" where
  "ms_Get H s commitment =
     (case ms_data s commitment of
        None \<Rightarrow> Err (ErrorString ''commitment not found'')
      | Some ts \<Rightarrow> cloneTimestamp H ts)"

definition ms_Has :: "MemoryStore \<Rightarrow> bytes \<Rightarrow> bool" where
  "ms_Has s commitment \<longleftrightarrow> ms_data s commitment \<noteq> None"

section \<open>The database store\<close>

text \<open>
  What the store uses of the database: \<open>View\<close> hands its function a read-only transaction, or fails to
  start one; \<open>Update\<close> runs its function on a read-write transaction and commits it if the function
  returns nil; a transaction has the bucket or not (\<open>tx.Bucket\<close> is nil then, and using it panics).
\<close>

record ('db, 'tx) bolt =
  b_Open :: "string \<Rightarrow> 'db result"
  b_View :: "'db \<Rightarrow> 'tx result"
  b_Update :: "'db \<Rightarrow> ('tx \<Rightarrow> 'tx result) \<Rightarrow> 'db \<times> unit result"
  b_CreateBucket :: "'tx \<Rightarrow> 'tx result"
  b_Bucket :: "'tx \<Rightarrow> bool"
  b_Get :: "'tx \<Rightarrow> bytes \<Rightarrow> bytes option"
  b_Put :: "'tx \<Rightarrow> bytes \<Rightarrow> bytes \<Rightarrow> 'tx result"

definition nil_deref :: string where
  "nil_deref = ''invalid memory address or nil pointer dereference''"

definition bucket_Get :: "('db, 'tx) bolt \<Rightarrow> 'tx \<Rightarrow> bytes \<Rightarrow> bytes option result" where
  "bucket_Get B tx k = (if b_Bucket B tx then Ok (b_Get B tx k) else Panic nil_deref)"

definition OpenBoltStore :: "('db, 'tx) bolt \<Rightarrow> string \<Rightarrow> 'db result" where
  "OpenBoltStore B path =
     andThen (b_Open B path) (\<lambda>db.
       case b_Update B db (\<lambda>tx. b_CreateBucket B tx) of
         (db', Ok _) \<Rightarrow> Ok db' | (db', Err e) \<Rightarrow> Err e | (db', Panic p) \<Rightarrow> Panic p)"

text \<open>The function that \<open>Put\<close> passes to \<open>Update\<close>.\<close>

definition put_tx :: "hashes \<Rightarrow> ('db, 'tx) bolt \<Rightarrow> bytes \<Rightarrow> Timestamp \<Rightarrow> 'tx \<Rightarrow> 'tx result" where
  "put_tx H B commitment ts tx =
     andThen (bucket_Get B tx commitment) (\<lambda>v.
     andThen
       (case v of
          None \<Rightarrow> Ok ts
        | Some existing \<Rightarrow>
            (case ts_DeserializeBytes H existing commitment of
               Panic p \<Rightarrow> Panic p
             | Err e \<Rightarrow> Err (ErrorString (''corrupt stored timestamp for '' @ hex_EncodeToString commitment @ '': '' @
                 error_string e))
             | Ok prev \<Rightarrow>
                 (case Merge H prev ts of
                    (prev', Ok _) \<Rightarrow> Ok prev' | (prev', Err e) \<Rightarrow> Err e | (prev', Panic p) \<Rightarrow> Panic p)))
     (\<lambda>merged_ts.
     andThen (ts_SerializeBytes merged_ts) (\<lambda>data. b_Put B tx commitment data)))"

definition bs_Put :: "hashes \<Rightarrow> ('db, 'tx) bolt \<Rightarrow> 'db \<Rightarrow> bytes \<Rightarrow> Timestamp \<Rightarrow> 'db \<times> unit result" where
  "bs_Put H B db commitment ts = b_Update B db (put_tx H B commitment ts)"

definition bs_Get :: "hashes \<Rightarrow> ('db, 'tx) bolt \<Rightarrow> 'db \<Rightarrow> bytes \<Rightarrow> Timestamp result" where
  "bs_Get H B db commitment =
     andThen (b_View B db) (\<lambda>tx.
     andThen (bucket_Get B tx commitment) (\<lambda>v.
     case v of
       None \<Rightarrow> Err (ErrorString ''commitment not found'')
     | Some data \<Rightarrow> ts_DeserializeBytes H data commitment))"

text \<open>\<open>Has\<close> ignores the error of \<open>View\<close>; a panic of its function is passed on.\<close>

definition bs_Has :: "('db, 'tx) bolt \<Rightarrow> 'db \<Rightarrow> bytes \<Rightarrow> bool result" where
  "bs_Has B db commitment =
     (case b_View B db of
        Panic p \<Rightarrow> Panic p
      | Err e \<Rightarrow> Ok False
      | Ok tx \<Rightarrow> andThen (bucket_Get B tx commitment) (\<lambda>v. Ok (v \<noteq> None)))"

section \<open>The contract of a store\<close>

text \<open>
  A store holds, for a commitment, a set of attestations (with the messages they attest). A successful
  put makes it hold at least those of the given timestamp and touches no other commitment, a failed one
  changes nothing; what get returns is a well-formed timestamp on the commitment with the attestations
  held.
\<close>

fun run_puts :: "('s \<Rightarrow> bytes \<Rightarrow> Timestamp \<Rightarrow> 's \<times> unit result) \<Rightarrow> 's \<Rightarrow> (bytes \<times> Timestamp) list \<Rightarrow> 's \<times> unit result list" where
  "run_puts put s [] = (s, [])"
| "run_puts put s ((c, t) # ps) =
     (let (s1, r) = put s c t; (s2, rs) = run_puts put s1 ps in (s2, r # rs))"

locale storage =
  fixes H :: hashes
    and inv :: "'s \<Rightarrow> bool"
    and held :: "'s \<Rightarrow> bytes \<rightharpoonup> (bytes \<times> attestation) set"
    and put :: "'s \<Rightarrow> bytes \<Rightarrow> Timestamp \<Rightarrow> 's \<times> unit result"
    and get :: "'s \<Rightarrow> bytes \<Rightarrow> Timestamp result"
    and has :: "'s \<Rightarrow> bytes \<Rightarrow> bool result"
  assumes put_Ok: "inv s \<Longrightarrow> stamp_ok H c t \<Longrightarrow> put s c t = (s', Ok ()) \<Longrightarrow>
      inv s' \<and> (\<exists>A. held s' = (held s)(c \<mapsto> A) \<and> set (AllAttestations t) \<subseteq> A)"
    and put_fails: "inv s \<Longrightarrow> stamp_ok H c t \<Longrightarrow> put s c t = (s', r) \<Longrightarrow> r \<noteq> Ok () \<Longrightarrow>
      \<not> is_panic r \<and> inv s' \<and> held s' = held s"
    and get_Ok: "inv s \<Longrightarrow> get s c = Ok t \<Longrightarrow> stamp_ok H c t \<and> held s c = Some (set (AllAttestations t))"
    and get_missing: "inv s \<Longrightarrow> held s c = None \<Longrightarrow> \<exists>e. get s c = Err e"
    and has_held: "inv s \<Longrightarrow> has s c = Ok True \<Longrightarrow> held s c \<noteq> None"
begin

lemma put_inv: "inv s \<Longrightarrow> stamp_ok H c t \<Longrightarrow> put s c t = (s', r) \<Longrightarrow> inv s'"
  using put_Ok put_fails by (cases "r = Ok ()") blast+

lemma put_get:
  "inv s \<Longrightarrow> stamp_ok H c t \<Longrightarrow> put s c t = (s', Ok ()) \<Longrightarrow> get s' c = Ok u \<Longrightarrow>
   stamp_ok H c u \<and> set (AllAttestations t) \<subseteq> set (AllAttestations u)"
  using put_Ok [of s c t s'] get_Ok [of s' c u] by auto

lemma put_other:
  "inv s \<Longrightarrow> stamp_ok H c t \<Longrightarrow> put s c t = (s', r) \<Longrightarrow> c' \<noteq> c \<Longrightarrow> held s' c' = held s c'"
  using put_Ok [of s c t s'] put_fails [of s c t s' r] by (cases "r = Ok ()") auto

end

locale accumulating_storage = storage +
  assumes put_keeps: "inv s \<Longrightarrow> stamp_ok H c t \<Longrightarrow> put s c t = (s', Ok ()) \<Longrightarrow> held s c = Some A \<Longrightarrow>
    \<exists>B. held s' c = Some B \<and> A \<subseteq> B"
begin

lemma put_grows:
  assumes "inv s" and "stamp_ok H c t" and "put s c t = (s', r)" and "held s c' = Some A"
  shows "\<exists>B. held s' c' = Some B \<and> A \<subseteq> B"
proof (cases "r = Ok ()")
  case True
  with assms show ?thesis using put_keeps put_other by (cases "c' = c") (blast, metis order_refl)
next
  case False
  with assms put_fails show ?thesis by (metis order_refl)
qed

lemma run_puts_grows:
  "inv s \<Longrightarrow> \<forall>(c, t) \<in> set ps. stamp_ok H c t \<Longrightarrow> run_puts put s ps = (s', rs) \<Longrightarrow>
   inv s' \<and> (\<forall>c A. held s c = Some A \<longrightarrow> (\<exists>B. held s' c = Some B \<and> A \<subseteq> B))"
proof (induction ps arbitrary: s rs)
  case (Cons p ps)
  obtain c t where p: "p = (c, t)" by (cases p)
  obtain s1 r rs1 where s1: "put s c t = (s1, r)" and rest: "run_puts put s1 ps = (s', rs1)"
    using Cons.prems(3) by (auto simp: p split: prod.splits)
  have ok: "stamp_ok H c t" using Cons.prems(2) p by simp
  have IH: "inv s' \<and> (\<forall>c A. held s1 c = Some A \<longrightarrow> (\<exists>B. held s' c = Some B \<and> A \<subseteq> B))"
    using Cons.IH [OF put_inv [OF Cons.prems(1) ok s1] _ rest] Cons.prems(2) by simp
  show ?case
  proof (intro conjI allI impI)
    fix c' A assume "held s c' = Some A"
    then obtain B where "held s1 c' = Some B" "A \<subseteq> B" using put_grows [OF Cons.prems(1) ok s1] by blast
    with IH show "\<exists>B. held s' c' = Some B \<and> A \<subseteq> B" by (meson order_trans)
  qed (use IH in blast)
qed auto

text \<open>No attestation that was put is ever lost.\<close>

lemma run_puts_holds:
  assumes "inv s" and "\<forall>(c, t) \<in> set ps. stamp_ok H c t" and "run_puts put s ps = (s', rs)"
    and "i < length ps" and "rs ! i = Ok ()" and "ps ! i = (c, t)" and "get s' c = Ok u"
  shows "set (AllAttestations t) \<subseteq> set (AllAttestations u)"
proof -
  have "\<exists>B. held s' c = Some B \<and> set (AllAttestations t) \<subseteq> B"
    using assms(1-6)
  proof (induction ps arbitrary: s rs i)
    case (Cons p ps)
    obtain d v where p: "p = (d, v)" by (cases p)
    obtain s1 r rs1 where s1: "put s d v = (s1, r)" and rest: "run_puts put s1 ps = (s', rs1)" and rs: "rs = r # rs1"
      using Cons.prems(3) by (auto simp: p split: prod.splits)
    have ok: "stamp_ok H d v" and oks: "\<forall>(c, t) \<in> set ps. stamp_ok H c t" using Cons.prems(2) p by simp_all
    note i1 = put_inv [OF Cons.prems(1) ok s1]
    show ?case
    proof (cases i)
      case 0
      with Cons.prems p rs have r: "r = Ok ()" "d = c" "v = t" by simp_all
      then obtain A where "held s1 c = Some A" "set (AllAttestations t) \<subseteq> A"
        using put_Ok [OF Cons.prems(1) ok] s1 by fastforce
      with run_puts_grows [OF i1 oks rest] show ?thesis by (meson order_trans)
    next
      case (Suc j)
      with Cons.IH [OF i1 oks rest, of j] Cons.prems rs show ?thesis by simp
    qed
  qed simp
  then show ?thesis using get_Ok assms(7) run_puts_grows [OF assms(1-3)] by fastforce
qed

end

section \<open>The memory store meets the contract\<close>

definition ms_inv :: "hashes \<Rightarrow> MemoryStore \<Rightarrow> bool" where
  "ms_inv H s \<longleftrightarrow> (\<forall>c t. ms_data s c = Some t \<longrightarrow> stamp_ok H c t)"

definition ms_held :: "MemoryStore \<Rightarrow> bytes \<rightharpoonup> (bytes \<times> attestation) set" where
  "ms_held s c = map_option (\<lambda>t. set (AllAttestations t)) (ms_data s c)"

lemma clone_stamp_ok: "stamp_ok H m t \<Longrightarrow> cloneTimestamp H t = Ok (normal t)"
proof -
  assume t: "stamp_ok H m t"
  then have "ts_Msg t = m" by (simp add: stamp_ok_def)
  with stamp_ok_codec [OF t] show ?thesis by (simp add: cloneTimestamp_def)
qed

lemma ms_Put_ok:
  "stamp_ok H c t \<Longrightarrow> ms_Put H s c t = (s\<lparr>ms_data := (ms_data s)(c \<mapsto> normal t)\<rparr>, Ok ())"
  by (simp add: ms_Put_def clone_stamp_ok)

lemma ms_Get_ok: "ms_inv H s \<Longrightarrow> ms_Get H s c = Ok u \<longleftrightarrow> (\<exists>t. ms_data s c = Some t \<and> u = normal t)"
proof -
  assume i: "ms_inv H s"
  show ?thesis
  proof (cases "ms_data s c")
    case (Some t)
    then have "stamp_ok H c t" using i by (simp add: ms_inv_def)
    from clone_stamp_ok [OF this] Some show ?thesis by (auto simp: ms_Get_def)
  qed (simp add: ms_Get_def)
qed

interpretation ms: storage H "ms_inv H" ms_held "ms_Put H" "ms_Get H" "\<lambda>s c. Ok (ms_Has s c)" for H
proof
  show "ms_inv H s' \<and> (\<exists>A. ms_held s' = (ms_held s)(c \<mapsto> A) \<and> set (AllAttestations t) \<subseteq> A)"
    if "ms_inv H s" "stamp_ok H c t" "ms_Put H s c t = (s', Ok ())" for s c t s'
    using that by (auto simp: ms_Put_ok ms_inv_def ms_held_def fun_eq_iff AllAttestations_normal
        split: if_splits intro: stamp_ok_codec(3) intro!: exI [of _ "set (AllAttestations t)"])
  show "stamp_ok H c t \<and> ms_held s c = Some (set (AllAttestations t))" if "ms_inv H s" "ms_Get H s c = Ok t" for s c t
    using that by (auto simp: ms_Get_ok ms_held_def AllAttestations_normal ms_inv_def intro: stamp_ok_codec(3))
qed (auto simp: ms_Put_ok ms_held_def ms_Get_def ms_Has_def split: option.splits)

section \<open>The database store meets the contract\<close>

text \<open>
  The documented behaviour of the database: a view sees the committed content; an update that succeeds
  has run its function on the committed content and committed the result; one that fails, or whose
  function panics, is rolled back. \<open>None\<close> is the content of a database without the bucket.
\<close>

locale bolt_db =
  fixes B :: "('db, 'tx) bolt" and content :: "'tx \<Rightarrow> (bytes \<rightharpoonup> bytes) option"
    and committed :: "'db \<Rightarrow> (bytes \<rightharpoonup> bytes) option"
  assumes View_Ok: "b_View B db = Ok tx \<Longrightarrow> content tx = committed db"
    and View_no_panic: "\<not> is_panic (b_View B db)"
    and Update_Ok: "b_Update B db f = (db', Ok ()) \<Longrightarrow>
      \<exists>tx tx'. content tx = committed db \<and> f tx = Ok tx' \<and> committed db' = content tx'"
    and Update_fails: "b_Update B db f = (db', r) \<Longrightarrow> r \<noteq> Ok () \<Longrightarrow> committed db' = committed db"
    and Update_panic: "b_Update B db f = (db', Panic p) \<Longrightarrow> \<exists>tx. content tx = committed db \<and> f tx = Panic p"
    and Bucket_iff: "b_Bucket B tx \<longleftrightarrow> content tx \<noteq> None"
    and CreateBucket_Ok: "b_CreateBucket B tx = Ok tx' \<Longrightarrow>
      content tx' = Some (case content tx of None \<Rightarrow> Map.empty | Some m \<Rightarrow> m)"
    and Get_eq: "content tx = Some m \<Longrightarrow> b_Get B tx k = m k"
    and Put_Ok: "content tx = Some m \<Longrightarrow> b_Put B tx k v = Ok tx' \<Longrightarrow> content tx' = Some (m(k \<mapsto> v))"
    and Put_no_panic: "\<not> is_panic (b_Put B tx k v)"

text \<open>Every value decodes to a timestamp on its key.\<close>

definition content_ok :: "hashes \<Rightarrow> (bytes \<rightharpoonup> bytes) option \<Rightarrow> bool" where
  "content_ok H d \<longleftrightarrow> (\<exists>m. d = Some m \<and> (\<forall>k v. m k = Some v \<longrightarrow> (\<exists>t. ts_DeserializeBytes H v k = Ok t)))"

definition content_held :: "hashes \<Rightarrow> (bytes \<rightharpoonup> bytes) option \<Rightarrow> bytes \<rightharpoonup> (bytes \<times> attestation) set" where
  "content_held H d k =
     (case d of None \<Rightarrow> None
      | Some m \<Rightarrow> (case m k of None \<Rightarrow> None
         | Some v \<Rightarrow> (case ts_DeserializeBytes H v k of Ok t \<Rightarrow> Some (set (AllAttestations t)) | _ \<Rightarrow> None)))"

context bolt_db
begin

lemma put_tx_run:
  assumes "content_ok H (content tx)" and t: "stamp_ok H c t"
  shows "\<exists>u. put_tx H B c t tx = b_Put B tx c (ts_enc u) \<and> stamp_ok H c u \<and>
    set (AllAttestations u) = set (AllAttestations t) \<union>
      (case content_held H (content tx) c of None \<Rightarrow> {} | Some A \<Rightarrow> A)"
proof -
  obtain m where m: "content tx = Some m" and dec: "\<And>k v. m k = Some v \<Longrightarrow> \<exists>t. ts_DeserializeBytes H v k = Ok t"
    using assms(1) by (auto simp: content_ok_def)
  have get: "bucket_Get B tx c = Ok (m c)" using m Get_eq by (simp add: bucket_Get_def Bucket_iff)
  show ?thesis
  proof (cases "m c")
    case None
    then show ?thesis using t get m stamp_ok_codec(1) [OF t] by (auto simp: put_tx_def content_held_def)
  next
    case (Some v)
    with dec obtain prev where v: "ts_DeserializeBytes H v c = Ok prev" by blast
    obtain u where u: "Merge H prev t = (u, Ok ())" "stamp_ok H c u"
      "set (AllAttestations u) = set (AllAttestations prev) \<union> set (AllAttestations t)"
      using stamp_merge.merge_good [OF ts_DeserializeBytes_ok [OF v] t] by blast
    with Some v get m stamp_ok_codec(1) [OF u(2)] show ?thesis by (auto simp: put_tx_def content_held_def)
  qed
qed

lemma put_stored:
  assumes "content_ok H d" and "stamp_ok H c u" and "d = Some m"
  shows "content_ok H (Some (m(c \<mapsto> ts_enc u)))"
    and "content_held H (Some (m(c \<mapsto> ts_enc u))) = (content_held H d)(c \<mapsto> set (AllAttestations u))"
proof -
  show "content_ok H (Some (m(c \<mapsto> ts_enc u)))"
    using assms stamp_ok_codec(2) [OF assms(2)] by (simp add: content_ok_def)
  show "content_held H (Some (m(c \<mapsto> ts_enc u))) = (content_held H d)(c \<mapsto> set (AllAttestations u))"
    using assms stamp_ok_codec(2) [OF assms(2)] by (simp add: content_held_def fun_eq_iff AllAttestations_normal)
qed

lemma bs_Put_Ok:
  assumes "content_ok H (committed db)" and "stamp_ok H c t" and "bs_Put H B db c t = (db', Ok ())"
  shows "content_ok H (committed db') \<and>
    content_held H (committed db') = (content_held H (committed db))(c \<mapsto> set (AllAttestations t) \<union>
      (case content_held H (committed db) c of None \<Rightarrow> {} | Some A \<Rightarrow> A))"
proof -
  obtain tx tx' where tx: "content tx = committed db" "put_tx H B c t tx = Ok tx'" "committed db' = content tx'"
    using Update_Ok assms(3) unfolding bs_Put_def by blast
  then obtain u where u: "b_Put B tx c (ts_enc u) = Ok tx'" "stamp_ok H c u" "set (AllAttestations u) = set (AllAttestations t) \<union>
      (case content_held H (committed db) c of None \<Rightarrow> {} | Some A \<Rightarrow> A)"
    using put_tx_run [of H tx c t] assms(1,2) by auto
  obtain m where m: "content tx = Some m" using assms(1) tx(1) by (auto simp: content_ok_def)
  show ?thesis using put_stored [OF assms(1) u(2), of m] Put_Ok [OF m u(1)] tx m u(3) by simp
qed

lemma bs_Put_fails:
  assumes "content_ok H (committed db)" and "stamp_ok H c t" and "bs_Put H B db c t = (db', r)" and "r \<noteq> Ok ()"
  shows "\<not> is_panic r \<and> committed db' = committed db"
proof -
  have "\<not> is_panic r"
  proof (cases r)
    case (Panic p)
    then obtain tx where "content tx = committed db" "put_tx H B c t tx = Panic p"
      using Update_panic assms(3) unfolding bs_Put_def by blast
    then show ?thesis using put_tx_run [of H tx c t] assms(1,2) Put_no_panic by (metis is_panic.simps(3))
  qed simp_all
  then show ?thesis using Update_fails assms(3,4) unfolding bs_Put_def by blast
qed

lemma bs_Get_view:
  assumes "content_ok H (committed db)" and "b_View B db = Ok tx"
  shows "bucket_Get B tx c = Ok (the (committed db) c)"
  using assms View_Ok [OF assms(2)] Get_eq [of tx] by (auto simp: content_ok_def bucket_Get_def Bucket_iff)

lemma bs_Get_Ok:
  assumes "content_ok H (committed db)" and "bs_Get H B db c = Ok t"
  shows "stamp_ok H c t \<and> content_held H (committed db) c = Some (set (AllAttestations t))"
proof -
  obtain tx where tx: "b_View B db = Ok tx" using assms(2) by (auto simp: bs_Get_def andThen_eq_Ok)
  then obtain v where "the (committed db) c = Some v" and v: "ts_DeserializeBytes H v c = Ok t"
    using assms(2) bs_Get_view [OF assms(1) tx] by (auto simp: bs_Get_def split: option.splits)
  then show ?thesis using assms(1) ts_DeserializeBytes_ok [OF v] by (auto simp: content_ok_def content_held_def)
qed

lemma bs_not_held:
  assumes "content_ok H (committed db)"
  shows "content_held H (committed db) c = None \<longleftrightarrow> the (committed db) c = None"
  using assms by (fastforce simp: content_ok_def content_held_def split: option.splits)

lemma bs_Get_missing:
  assumes "content_ok H (committed db)" and "content_held H (committed db) c = None"
  shows "\<exists>e. bs_Get H B db c = Err e"
proof (cases "b_View B db")
  case (Ok tx)
  then show ?thesis using bs_Get_view [OF assms(1) Ok] bs_not_held assms by (simp add: bs_Get_def)
qed (use View_no_panic [of db] in \<open>simp_all add: bs_Get_def\<close>)

lemma bs_Has_held:
  assumes "content_ok H (committed db)" and "bs_Has B db c = Ok True"
  shows "content_held H (committed db) c \<noteq> None"
proof (cases "b_View B db")
  case (Ok tx)
  then show ?thesis using bs_Get_view [OF assms(1) Ok, of c] bs_not_held assms by (simp add: bs_Has_def)
qed (use assms(2) in \<open>simp_all add: bs_Has_def\<close>)

end

sublocale bolt_db \<subseteq> bs: accumulating_storage H "\<lambda>db. content_ok H (committed db)"
    "\<lambda>db. content_held H (committed db)" "bs_Put H B" "bs_Get H B" "bs_Has B" for H
proof
  show "content_ok H (committed s') \<and> (\<exists>A. content_held H (committed s') = (content_held H (committed s))(c \<mapsto> A) \<and>
      set (AllAttestations t) \<subseteq> A)"
    if "content_ok H (committed s)" "stamp_ok H c t" "bs_Put H B s c t = (s', Ok ())" for s c t s'
    using bs_Put_Ok [OF that] by blast
  show "\<exists>D. content_held H (committed s') c = Some D \<and> A \<subseteq> D"
    if "content_ok H (committed s)" "stamp_ok H c t" "bs_Put H B s c t = (s', Ok ())"
      "content_held H (committed s) c = Some A" for s c t s' A
    using bs_Put_Ok [OF that(1-3)] that(4) by auto
  show "\<not> is_panic r \<and> content_ok H (committed s') \<and> content_held H (committed s') = content_held H (committed s)"
    if "content_ok H (committed s)" "stamp_ok H c t" "bs_Put H B s c t = (s', r)" "r \<noteq> Ok ()" for s c t s' r
    using bs_Put_fails [OF that] that(1) by simp
qed (fact bs_Get_Ok bs_Get_missing bs_Has_held)+

context bolt_db
begin

lemmas bs_run_puts_holds = bs.run_puts_holds

end

text \<open>
  A reference database: the committed content itself, with the documented limits on keys and values.
\<close>

type_synonym ref_db = "(bytes \<rightharpoonup> bytes) option"

definition ref_bolt :: "(ref_db, ref_db) bolt" where
  "ref_bolt = \<lparr>
     b_Open = (\<lambda>path. Ok None),
     b_View = Ok,
     b_Update = (\<lambda>db f. case f db of Ok tx \<Rightarrow> (tx, Ok ()) | Err e \<Rightarrow> (db, Err e) | Panic p \<Rightarrow> (db, Panic p)),
     b_CreateBucket = (\<lambda>tx. Ok (Some (case tx of None \<Rightarrow> Map.empty | Some m \<Rightarrow> m))),
     b_Bucket = (\<lambda>tx. tx \<noteq> None),
     b_Get = (\<lambda>tx k. case tx of None \<Rightarrow> None | Some m \<Rightarrow> m k),
     b_Put = (\<lambda>tx k v. if length k = 0 then Err (ErrorString ''key required'')
        else if length k > 32768 then Err (ErrorString ''key too large'')
        else if length v > 2147483646 then Err (ErrorString ''value too large'')
        else Ok (map_option (\<lambda>m. m(k \<mapsto> v)) tx))\<rparr>"

interpretation ref: bolt_db ref_bolt "\<lambda>tx. tx" "\<lambda>db. db"
  by unfold_locales (auto simp: ref_bolt_def split: result.splits if_splits option.splits)

section \<open>Properties\<close>

text \<open>
  C30. The database store, over any database with the documented transactional behaviour: a successful
  put makes the store hold, for the commitment, what it held and the attestations of the timestamp, and
  leaves the other commitments alone; a failed put changes nothing and is an error, not a panic; get
  returns a well-formed timestamp on the commitment with exactly the attestations held, and an error for
  a commitment that was never put. After any sequence of puts a get returns every attestation that was
  successfully put for its commitment.
\<close>

theorem BoltStore_correct:
  assumes "bolt_db B content committed" and "content_ok H (committed db)"
  shows "(\<forall>c t db' r. stamp_ok H c t \<and> bs_Put H B db c t = (db', r) \<longrightarrow>
        \<not> is_panic r \<and> content_ok H (committed db') \<and>
        content_held H (committed db') = (if r = Ok ()
          then (content_held H (committed db))(c \<mapsto> set (AllAttestations t) \<union>
                 (case content_held H (committed db) c of None \<Rightarrow> {} | Some A \<Rightarrow> A))
          else content_held H (committed db))) \<and>
    (\<forall>c t. bs_Get H B db c = Ok t \<longrightarrow> stamp_ok H c t \<and> content_held H (committed db) c = Some (set (AllAttestations t))) \<and>
    (\<forall>c. content_held H (committed db) c = None \<longrightarrow> (\<exists>e. bs_Get H B db c = Err e) \<and> bs_Has B db c \<noteq> Ok True) \<and>
    (\<forall>ps db' rs i c t u. (\<forall>(c, t) \<in> set ps. stamp_ok H c t) \<and> run_puts (bs_Put H B) db ps = (db', rs) \<and>
        i < length ps \<and> rs ! i = Ok () \<and> ps ! i = (c, t) \<and> bs_Get H B db' c = Ok u \<longrightarrow>
        set (AllAttestations t) \<subseteq> set (AllAttestations u))"
proof (intro conjI allI impI)
  fix c t db' r assume a: "stamp_ok H c t \<and> bs_Put H B db c t = (db', r)"
  then show "\<not> is_panic r" "content_ok H (committed db')"
    using bolt_db.bs_Put_fails [OF assms, of c t db' r] bolt_db.bs_Put_Ok [OF assms, of c t db'] assms(2)
    by (cases "r = Ok ()"; simp)+
  from a show "content_held H (committed db') = (if r = Ok ()
          then (content_held H (committed db))(c \<mapsto> set (AllAttestations t) \<union>
                 (case content_held H (committed db) c of None \<Rightarrow> {} | Some A \<Rightarrow> A))
          else content_held H (committed db))"
    using bolt_db.bs_Put_fails [OF assms, of c t db' r] bolt_db.bs_Put_Ok [OF assms, of c t db'] by simp
next
  show "stamp_ok H c t" "content_held H (committed db) c = Some (set (AllAttestations t))"
    if "bs_Get H B db c = Ok t" for c t
    using bolt_db.bs_Get_Ok [OF assms that] by simp_all
  show "\<exists>e. bs_Get H B db c = Err e" "bs_Has B db c \<noteq> Ok True" if "content_held H (committed db) c = None" for c
    using bolt_db.bs_Get_missing [OF assms that] bolt_db.bs_Has_held [OF assms] that by blast+
  show "set (AllAttestations t) \<subseteq> set (AllAttestations u)"
    if "(\<forall>(c, t) \<in> set ps. stamp_ok H c t) \<and> run_puts (bs_Put H B) db ps = (db', rs) \<and>
        i < length ps \<and> rs ! i = Ok () \<and> ps ! i = (c, t) \<and> bs_Get H B db' c = Ok u" for ps db' rs i c t u
    using bolt_db.bs_run_puts_holds [OF assms, of ps db' rs i c t u]
      that by simp
qed

lemma sample_stamp_ok: "stamp_ok const_hashes [1] sample_ts"
proof -
  have "ts_Msg sample_ts = [1]" by (simp add: sample_ts_def)
  then show ?thesis by (simp add: stamp_ok_def sample_ts_ok recursionLimit_def)
qed

theorem BoltStore_correct_witness:
  "\<exists>db'. bs_Put const_hashes ref_bolt (Some Map.empty) [1] sample_ts = (db', Ok ()) \<and>
     content_held const_hashes db' [1] = Some (set (AllAttestations sample_ts))"
proof -
  have d: "content_ok const_hashes (Some Map.empty)" by (simp add: content_ok_def)
  have "length (ts_enc sample_ts) < 200" by code_simp
  then obtain db' where p: "bs_Put const_hashes ref_bolt (Some Map.empty) [1] sample_ts = (db', Ok ())"
    using stamp_ok_codec(1) [OF sample_stamp_ok] by (simp add: bs_Put_def put_tx_def bucket_Get_def ref_bolt_def)
  have "content_held const_hashes db' = (content_held const_hashes (Some Map.empty))([1] \<mapsto> set (AllAttestations sample_ts) \<union>
      (case content_held const_hashes (Some Map.empty) [1] of None \<Rightarrow> {} | Some A \<Rightarrow> A))"
    using BoltStore_correct [OF ref.bolt_db_axioms d, THEN conjunct1, rule_format, OF conjI [OF sample_stamp_ok p]] by simp
  moreover have "content_held const_hashes (Some Map.empty) [1] = None" by (simp add: content_held_def)
  ultimately show ?thesis using p by simp
qed

text \<open>
  The memory store: a put of an encodable timestamp succeeds and a get returns it with its nodes
  sorted, in place of whatever the store held for the commitment; other commitments are untouched; an
  unknown commitment is an error. A timestamp with an empty node makes put panic.
\<close>

theorem MemoryStore_correct:
  "(\<forall>c t. stamp_ok H c t \<longrightarrow>
      (\<exists>s'. ms_Put H s c t = (s', Ok ()) \<and> ms_Get H s' c = Ok (normal t) \<and> ms_Has s' c \<and>
        (\<forall>c'. c' \<noteq> c \<longrightarrow> ms_Get H s' c' = ms_Get H s c' \<and> ms_Has s' c' = ms_Has s c'))) \<and>
   (\<forall>c. \<not> ms_Has s c \<longrightarrow> ms_Get H s c = Err (ErrorString ''commitment not found'')) \<and>
   (\<forall>c t. \<not> full t \<longrightarrow> ms_Put H s c t = (s, Panic ''an empty timestamp can't be serialized''))"
proof (intro conjI allI impI)
  show "\<exists>s'. ms_Put H s c t = (s', Ok ()) \<and> ms_Get H s' c = Ok (normal t) \<and> ms_Has s' c \<and>
        (\<forall>c'. c' \<noteq> c \<longrightarrow> ms_Get H s' c' = ms_Get H s c' \<and> ms_Has s' c' = ms_Has s c')" if "stamp_ok H c t" for c t
    using ms_Put_ok [OF that, of s] clone_stamp_ok [OF stamp_ok_codec(3) [OF that]]
    by (simp add: ms_Get_def ms_Has_def)
  show "ms_Put H s c t = (s, Panic ''an empty timestamp can't be serialized'')" if "\<not> full t" for c t
    using that by (simp add: ms_Put_def cloneTimestamp_def ts_SerializeBytes_def ts_Serialize_outcome(1))
qed (simp add: ms_Has_def ms_Get_def)

end
