(* ===== verification/Journal.thy ===== *)
theory Journal
  imports Serialize
begin

text \<open>
  The commitment journal of \<^verbatim>\<open>internal/calendar/journal.go\<close>. The file is the list of its bytes with the
  offset of the descriptor; \<open>count\<close> is the \<open>uint64\<close> of the struct. What the operating system answers to a
  write or a sync is an argument: a failing write may have written a part of its data, which advances
  the offset as a successful one does. The mutex serialises the calls, so each is one step.
\<close>

definition JournalRecordSize :: nat where
  "JournalRecordSize = 44"

record Journal =
  j_file :: bytes
  j_offset :: nat
  j_count :: u64

text \<open>Opening: the answers of \<open>OpenFile\<close>, \<open>Stat\<close>, \<open>Truncate\<close> and \<open>Seek\<close> are given by their errors.\<close>

record open_env =
  e_open :: "bytes result"
  e_stat :: "unit result"
  e_truncate :: "unit result"
  e_seek :: "unit result"

definition wrap_recover :: "unit result \<Rightarrow> unit result" where
  "wrap_recover r =
     (case r of Ok u \<Rightarrow> Ok u | Panic p \<Rightarrow> Panic p
      | Err e \<Rightarrow> Err (ErrorString (''recover partial journal write: '' @ error_string e)))"

definition OpenJournal :: "open_env \<Rightarrow> Journal result" where
  "OpenJournal env =
     andThen (e_open env) (\<lambda>f.
     andThen (e_stat env) (\<lambda>_.
     let size = length f; rem = size mod JournalRecordSize in
     andThen (if rem \<noteq> 0 then wrap_recover (e_truncate env) else Ok ()) (\<lambda>_.
     let size' = (if rem \<noteq> 0 then size - rem else size);
         f' = (if rem \<noteq> 0 then take size' f else f) in
     andThen (e_seek env) (\<lambda>_.
     Ok \<lparr>j_file = f', j_offset = size', j_count = word_of_nat size' div word_of_nat JournalRecordSize\<rparr>))))"

text \<open>Writing \<open>data\<close> at the offset: the bytes there are overwritten.\<close>

definition write_at :: "bytes \<Rightarrow> nat \<Rightarrow> bytes \<Rightarrow> bytes" where
  "write_at f off data = take off f @ data @ drop (off + length data) f"

datatype write_outcome = Written | WriteFailed nat go_error

definition Append :: "Journal \<Rightarrow> bytes \<Rightarrow> write_outcome \<Rightarrow> unit result \<Rightarrow> Journal \<times> u64 result" where
  "Append j commitment wr sync =
     (if length commitment \<noteq> JournalRecordSize then
        (j, Err (ErrorString (''journal record must be '' @ dec_nat JournalRecordSize @ '' bytes, got '' @
               dec_nat (length commitment))))
      else
        (case wr of
           WriteFailed n e \<Rightarrow>
             (j\<lparr>j_file := write_at (j_file j) (j_offset j) (take n commitment),
                j_offset := j_offset j + min n (length commitment)\<rparr>, Err e)
         | Written \<Rightarrow>
             (let j' = j\<lparr>j_file := write_at (j_file j) (j_offset j) commitment,
                         j_offset := j_offset j + length commitment\<rparr>
              in case sync of
                   Panic p \<Rightarrow> (j', Panic p)
                 | Err e \<Rightarrow> (j', Err e)
                 | Ok _ \<Rightarrow> (j'\<lparr>j_count := j_count j + 1\<rparr>, Ok (j_count j)))))"

text \<open>\<open>ReadAt\<close> at the \<open>int64\<close> offset: a negative offset and a short read are errors.\<close>

definition Read :: "Journal \<Rightarrow> u64 \<Rightarrow> bytes result" where
  "Read j idx =
     (if idx \<ge> j_count j then
        Err (ErrorString (''journal index '' @ dec_nat (unat idx) @ '' out of range (len '' @
               dec_nat (unat (j_count j)) @ '')''))
      else
        (let off = sint (idx * word_of_nat JournalRecordSize) in
         if off < 0 then Err (ErrorString ''negative offset'')
         else if nat off + JournalRecordSize \<le> length (j_file j)
         then Ok (take JournalRecordSize (drop (nat off) (j_file j)))
         else Err (ErrorString ''EOF'')))"

definition Len :: "Journal \<Rightarrow> u64" where
  "Len j = j_count j"

section \<open>The journal as a list of records\<close>

definition journal_of :: "Journal \<Rightarrow> bytes list \<Rightarrow> bool" where
  "journal_of j rs \<longleftrightarrow> j_file j = concat rs \<and> (\<forall>r \<in> set rs. length r = JournalRecordSize) \<and>
     j_offset j = length (j_file j) \<and> j_count j = word_of_nat (length rs) \<and>
     JournalRecordSize * length rs < 2 ^ 63"

lemma length_concat_records:
  "\<forall>r \<in> set rs. length r = n \<Longrightarrow> length (concat rs) = n * length rs"
  by (induction rs) auto

lemma record_at:
  "\<forall>r \<in> set rs. length r = n \<Longrightarrow> i < length rs \<Longrightarrow> take n (drop (n * i) (concat rs)) = rs ! i"
proof (induction rs arbitrary: i)
  case (Cons r rs)
  then show ?case by (cases i) (simp_all add: algebra_simps)
qed simp

lemma unat_count: "n < 2 ^ 63 \<Longrightarrow> unat (word_of_nat n :: u64) = n"
  by (simp add: unat_of_nat take_bit_eq_mod)

lemma index_less: "m < 2 ^ 63 \<Longrightarrow> n < 2 ^ 63 \<Longrightarrow> (word_of_nat m :: u64) < word_of_nat n \<longleftrightarrow> m < n"
  by (simp add: word_less_nat_alt unat_count)

lemma write_at_end: "write_at f (length f) data = f @ data"
  by (simp add: write_at_def)

lemma Append_journal_of:
  assumes "journal_of j rs" and "length c = JournalRecordSize" and "JournalRecordSize * Suc (length rs) < 2 ^ 63"
  shows "\<exists>j'. Append j c Written (Ok ()) = (j', Ok (word_of_nat (length rs))) \<and> journal_of j' (rs @ [c])"
  using assms by (auto simp: Append_def journal_of_def Let_def write_at_end)

lemma Read_journal_of:
  assumes j: "journal_of j rs"
  shows "i < length rs \<Longrightarrow> Read j (word_of_nat i) = Ok (rs ! i)"
    and "length rs \<le> i \<Longrightarrow> i < 2 ^ 63 \<Longrightarrow> \<exists>e. Read j (word_of_nat i) = Err e"
proof -
  from j have n: "length rs < 2 ^ 63" "JournalRecordSize * length rs < 2 ^ 63"
    by (auto simp: journal_of_def JournalRecordSize_def)
  have less: "word_of_nat i < j_count j \<longleftrightarrow> i < length rs" if "i < 2 ^ 63"
    using j n that index_less by (simp add: journal_of_def)
  show "\<exists>e. Read j (word_of_nat i) = Err e" if "length rs \<le> i" "i < 2 ^ 63"
    using less that by (simp add: Read_def not_less [symmetric])
  assume i: "i < length rs"
  have small: "44 * i < 2 ^ 63" using i n(2) by (simp add: JournalRecordSize_def)
  have "word_of_nat i * word_of_nat JournalRecordSize = (word_of_nat (44 * i) :: u64)"
    by (simp add: JournalRecordSize_def mult.commute)
  then have off: "sint (word_of_nat i * word_of_nat JournalRecordSize :: u64) = int (44 * i)"
    using sint_small [OF small] by (simp only:)
  have "44 * Suc i \<le> 44 * length rs" using i by simp
  then have "44 * i + 44 \<le> length (j_file j)"
    using j length_concat_records [of rs 44] by (simp add: journal_of_def JournalRecordSize_def)
  moreover have "take 44 (drop (44 * i) (j_file j)) = rs ! i"
    using j i record_at [of rs 44 i] by (simp add: journal_of_def JournalRecordSize_def)
  moreover have "\<not> j_count j \<le> word_of_nat i" using less [of] i n by (simp add: not_le)
  ultimately show "Read j (word_of_nat i) = Ok (rs ! i)"
    using off by (simp add: Read_def Let_def JournalRecordSize_def del: of_nat_mult)
qed

lemma OpenJournal_recovers:
  assumes "\<forall>r \<in> set rs. length r = JournalRecordSize" and "length part < JournalRecordSize"
    and "JournalRecordSize * length rs < 2 ^ 63"
  shows "\<exists>j. OpenJournal \<lparr>e_open = Ok (concat rs @ part), e_stat = Ok (), e_truncate = Ok (), e_seek = Ok ()\<rparr> = Ok j \<and>
    journal_of j rs"
proof -
  have len: "length (concat rs) = 44 * length rs" using length_concat_records [OF assms(1)] by (simp add: JournalRecordSize_def)
  have part: "(44 * length rs + length part) mod 44 = length part" using assms(2) by (simp add: JournalRecordSize_def)
  have "unat (word_of_nat (44 * length rs) :: u64) = 44 * length rs" using assms(3) by (intro unat_count) (simp add: JournalRecordSize_def)
  then have "unat ((word_of_nat (44 * length rs) :: u64) div 44) = length rs" by (simp add: unat_div_distrib)
  then have "(word_of_nat (44 * length rs) :: u64) div 44 = word_of_nat (length rs)"
    using unat_count [of "length rs"] assms(3) by (simp add: word_unat_eq_iff JournalRecordSize_def)
  then show ?thesis using assms len part
    by (auto simp: OpenJournal_def wrap_recover_def Let_def journal_of_def JournalRecordSize_def)
qed

text \<open>A write that fails within the record leaves a part of it, which the next opening cuts off.\<close>

lemma Append_refused_recovers:
  assumes "journal_of j rs" and "length c = JournalRecordSize" and "n < JournalRecordSize"
  shows "\<exists>j'. OpenJournal \<lparr>e_open = Ok (j_file (fst (Append j c (WriteFailed n e) sync))), e_stat = Ok (), e_truncate = Ok (),
      e_seek = Ok ()\<rparr> = Ok j' \<and> journal_of j' rs"
proof -
  have "j_file (fst (Append j c (WriteFailed n e) sync)) = concat rs @ take n c"
    using assms by (simp add: Append_def journal_of_def Let_def write_at_end)
  then show ?thesis using OpenJournal_recovers [of rs "take n c"] assms by (simp add: journal_of_def)
qed

section \<open>Properties\<close>

text \<open>
  C31. The journal refines a list of records: opening a file of whole records followed by a partial one,
  as a crash in the middle of a write leaves it, yields the whole records; a successful append adds a
  record and returns its index; reading an index returns the record there, and an error beyond the end.
\<close>

theorem journal_refines_list:
  "(\<forall>part. (\<forall>r \<in> set rs. length r = JournalRecordSize) \<and> length part < JournalRecordSize \<and>
      JournalRecordSize * length rs < 2 ^ 63 \<longrightarrow>
      (\<exists>j. OpenJournal \<lparr>e_open = Ok (concat rs @ part), e_stat = Ok (), e_truncate = Ok (), e_seek = Ok ()\<rparr> = Ok j \<and>
        journal_of j rs)) \<and>
   (\<forall>j c. journal_of j rs \<and> length c = JournalRecordSize \<and> JournalRecordSize * Suc (length rs) < 2 ^ 63 \<longrightarrow>
      (\<exists>j'. Append j c Written (Ok ()) = (j', Ok (word_of_nat (length rs))) \<and> journal_of j' (rs @ [c]))) \<and>
   (\<forall>j i. journal_of j rs \<and> i < 2 ^ 63 \<longrightarrow>
      (if i < length rs then Read j (word_of_nat i) = Ok (rs ! i) else (\<exists>e. Read j (word_of_nat i) = Err e)))"
proof (intro conjI allI impI)
  show "if i < length rs then Read j (word_of_nat i) = Ok (rs ! i) else \<exists>e. Read j (word_of_nat i) = Err e"
    if "journal_of j rs \<and> i < 2 ^ 63" for j i
    using that Read_journal_of [of j rs i] by simp
qed (use OpenJournal_recovers Append_journal_of in blast)+

theorem journal_refines_list_witness:
  "\<exists>j. OpenJournal \<lparr>e_open = Ok (replicate 44 1 @ replicate 44 2 @ [9, 9]), e_stat = Ok (), e_truncate = Ok (),
       e_seek = Ok ()\<rparr> = Ok j \<and> Read j 1 = Ok (replicate 44 2)"
proof -
  let ?rs = "[replicate 44 1, replicate 44 (2 :: byte)]"
  have "(\<forall>r \<in> set ?rs. length r = JournalRecordSize) \<and> length [9, 9 :: byte] < JournalRecordSize \<and>
      JournalRecordSize * length ?rs < 2 ^ 63"
    by (simp add: JournalRecordSize_def)
  then obtain j where j: "OpenJournal \<lparr>e_open = Ok (concat ?rs @ [9, 9]), e_stat = Ok (), e_truncate = Ok (), e_seek = Ok ()\<rparr> = Ok j"
    "journal_of j ?rs"
    using journal_refines_list [of ?rs] by blast
  then have "Read j (word_of_nat 1) = Ok (?rs ! 1)"
    using journal_refines_list [THEN conjunct2, THEN conjunct2, of ?rs, rule_format, of j 1] by simp
  with j(1) show ?thesis by (simp del: replicate.simps)
qed

text \<open>
  C37. A record is not what its index reads after a failed append that left bytes behind. If the sync of a
  record \<open>c\<close> fails, the next append reports success with an index at which \<open>c\<close> is read, so every other record
  \<open>d\<close> is not the one its index reads. If the write of \<open>c\<close> fails after its first \<open>n\<close> bytes (one at least), that index
  reads these bytes followed by the beginning of \<open>d\<close>, which is not \<open>d\<close> as soon as \<open>d\<close> does not begin with them.
\<close>

theorem journal_failed_append_shifts:
  assumes "journal_of j rs" and "length c = JournalRecordSize" and "length d = JournalRecordSize"
    and "JournalRecordSize * (length rs + 2) < 2 ^ 63" and "0 < n" and "n \<le> JournalRecordSize"
  shows "(let (j1, r1) = Append j c Written (Err e); (j2, r2) = Append j1 d Written (Ok ());
        r3 = Read j2 (word_of_nat (length rs))
      in r1 = Err e \<and> r2 = Ok (word_of_nat (length rs)) \<and> r3 = Ok c \<and> (c \<noteq> d \<longrightarrow> r3 \<noteq> Ok d)) \<and>
    (let (j1, r1) = Append j c (WriteFailed n e) s; (j2, r2) = Append j1 d Written (Ok ());
        r3 = Read j2 (word_of_nat (length rs))
      in r1 = Err e \<and> r2 = Ok (word_of_nat (length rs)) \<and>
         r3 = Ok (take n c @ take (JournalRecordSize - n) d) \<and> (take n c \<noteq> take n d \<longrightarrow> r3 \<noteq> Ok d))"
proof -
  have len: "length (concat rs) = 44 * length rs"
    using assms(1) length_concat_records [of rs 44] by (simp add: journal_of_def JournalRecordSize_def)
  have rd: "Read (j\<lparr>j_file := concat rs @ x, j_offset := o2, j_count := word_of_nat (length rs) + 1\<rparr>) (word_of_nat (length rs)) = Ok (take 44 x)"
    if "44 \<le> length x" for x o2
  proof -
    have "unat (word_of_nat (length rs) + 1 :: u64) = Suc (length rs)"
      using unat_count [of "Suc (length rs)"] assms(4) by (simp add: JournalRecordSize_def add.commute)
    then have "\<not> (word_of_nat (length rs) + 1 :: u64) \<le> word_of_nat (length rs)"
      using unat_count [of "length rs"] assms(4) by (simp add: word_le_nat_alt JournalRecordSize_def)
    moreover have "sint (word_of_nat (length rs) * word_of_nat JournalRecordSize :: u64) = int (44 * length rs)"
    proof -
      have "word_of_nat (length rs) * word_of_nat JournalRecordSize = (word_of_nat (44 * length rs) :: u64)"
        by (simp add: JournalRecordSize_def mult.commute)
      moreover have "44 * length rs < 2 ^ 63" using assms(4) by (simp add: JournalRecordSize_def)
      ultimately show ?thesis using sint_small [of "44 * length rs"] by (simp only:)
    qed
    ultimately show ?thesis using that len by (simp add: Read_def Let_def JournalRecordSize_def del: of_nat_mult)
  qed
  have neq: "take n c @ take (44 - n) d \<noteq> d" if "take n c \<noteq> take n d"
  proof
    assume "take n c @ take (44 - n) d = d"
    then have "take n (take n c @ take (44 - n) d) = take n d" by simp
    with that assms(2,6) show False by (simp add: JournalRecordSize_def)
  qed
  show ?thesis using assms rd [of "c @ d"] rd [of "take n c @ d"] len neq
    by (simp add: Append_def journal_of_def Let_def write_at_def JournalRecordSize_def)
qed

theorem journal_failed_append_shifts_witness:
  "let j = \<lparr>j_file = [], j_offset = 0, j_count = 0\<rparr>; e = ErrorString ''no space left on device'';
       (j1, r1) = Append j (replicate 44 1) (WriteFailed 8 e) (Ok ()); (j2, r2) = Append j1 (replicate 44 2) Written (Ok ())
   in r1 = Err e \<and> r2 = Ok 0 \<and> Read j2 0 = Ok (replicate 8 1 @ replicate 36 2)"
proof -
  let ?j = "\<lparr>j_file = [], j_offset = 0, j_count = 0\<rparr> :: Journal"
  have "journal_of ?j []" by (simp add: journal_of_def JournalRecordSize_def)
  from journal_failed_append_shifts [OF this, of "replicate 44 1" "replicate 44 2" 8 "ErrorString ''no space left on device''" "Ok ()"]
  show ?thesis by (simp add: JournalRecordSize_def Let_def split_def del: replicate.simps)
qed

end
