(* ===== verification/Calendar.thy ===== *)
theory Calendar
  imports Builder Storage Journal
begin

text \<open>
  The calendar service of \<^verbatim>\<open>internal/calendar/calendar.go\<close>: a submitted digest is extended by the time and
  a message authentication code to a 44-byte commitment, which gets a pending attestation and is written
  to the journal and then to the store. The clock, and what the disk answers, are arguments; the value
  of type \<open>Storage\<close> is a record of its methods with the state they work on.
\<close>

section \<open>Reading shared structure as a tree\<close>

text \<open>
  The store serializes the structure it is given. On an acyclic structure this reads the unfolding, a
  tree; on a cyclic one the recursion does not end and the call stack overflows. A descent through more
  nodes than the heap has repeats a node, so \<open>length h\<close> levels are enough.
\<close>

fun unfold :: "nat \<Rightarrow> store \<Rightarrow> nat \<Rightarrow> Timestamp result"
  and unfold_ops :: "nat \<Rightarrow> store \<Rightarrow> (op \<times> nat) list \<Rightarrow> (op \<times> Timestamp) list result"
where
  "unfold 0 h a = Panic ''stack overflow''"
| "unfold (Suc n) h a =
     andThen (unfold_ops n h (n_Ops (h ! a))) (\<lambda>ops. Ok (Timestamp (n_Msg (h ! a)) (n_Attestations (h ! a)) ops))"
| "unfold_ops n h [] = Ok []"
| "unfold_ops n h ((x, b) # ops) =
     andThen (unfold n h b) (\<lambda>s. andThen (unfold_ops n h ops) (\<lambda>rest. Ok ((x, s) # rest)))"

section \<open>The service\<close>

definition hmacSize :: nat where
  "hmacSize = 8"

record 's Storage =
  so_state :: 's
  so_Put :: "'s \<Rightarrow> bytes \<Rightarrow> Timestamp \<Rightarrow> 's \<times> unit result"
  so_Get :: "'s \<Rightarrow> bytes \<Rightarrow> Timestamp result"
  so_Has :: "'s \<Rightarrow> bytes \<Rightarrow> bool result"

record 's Service =
  s_uri :: string
  s_hmacKey :: bytes
  s_store :: "'s Storage"
  s_journal :: "Journal option"
  s_idx :: u64

definition NewService :: "string \<Rightarrow> bytes \<Rightarrow> 's Storage \<Rightarrow> 's Service result" where
  "NewService uri hmacKey st =
     (if length hmacKey = 0 then Panic ''hmac key required''
      else Ok \<lparr>s_uri = uri, s_hmacKey = hmacKey, s_store = st, s_journal = None, s_idx = 0\<rparr>)"

definition WithJournal :: "'s Service \<Rightarrow> Journal \<Rightarrow> 's Service" where
  "WithJournal s j = s\<lparr>s_journal := Some j\<rparr>"

fun deriveKeyForIdx :: "hashes \<Rightarrow> bytes \<Rightarrow> u32 \<Rightarrow> nat \<Rightarrow> bytes" where
  "deriveKeyForIdx H key idx bits =
     (if bits = 0 then key
      else
        let suffix = (if drop_bit (bits - 1) idx AND 1 \<noteq> 0 then 0xff else 0x00 :: byte)
        in deriveKeyForIdx H (sha256_Sum256 H (key @ [suffix])) idx (bits - 1))"

declare deriveKeyForIdx.simps [simp del]

definition PutUint32 :: "u32 \<Rightarrow> bytes" where
  "PutUint32 v = [ucast (drop_bit 24 v), ucast (drop_bit 16 v), ucast (drop_bit 8 v), ucast v]"

text \<open>What the disk answers to the append: the write and the sync.\<close>

type_synonym disk = "write_outcome \<times> unit result"

definition journal_Append :: "'s Service \<Rightarrow> bytes \<Rightarrow> disk \<Rightarrow> 's Service \<times> unit result" where
  "journal_Append s msg d =
     (case s_journal s of
        None \<Rightarrow> (s, Ok ())
      | Some j \<Rightarrow>
          (case Append j msg (fst d) (snd d) of
             (j', r) \<Rightarrow> (s\<lparr>s_journal := Some j'\<rparr>, andThen r (\<lambda>_. Ok ()))))"

definition store_Put :: "'s Service \<Rightarrow> bytes \<Rightarrow> Timestamp \<Rightarrow> 's Service \<times> unit result" where
  "store_Put s commitment ts =
     (case so_Put (s_store s) (so_state (s_store s)) commitment ts of
        (st', r) \<Rightarrow> (s\<lparr>s_store := (s_store s)\<lparr>so_state := st'\<rparr>\<rparr>, r))"

text \<open>
  \<open>Submit\<close> in two parts: the operations on the submitted timestamp, and the writing of the commitment.
  \<open>now\<close> is \<open>time.Now().Unix()\<close>.
\<close>

definition commit_ops :: "hashes \<Rightarrow> bytes \<Rightarrow> u32 \<Rightarrow> store \<Rightarrow> nat \<Rightarrow> store \<times> nat result" where
  "commit_ops H hmacKey idx h submitted =
     thenS (h, NewPrepend (PutUint32 idx)) (\<lambda>h prependOp.
     thenS (heap_AddOp H h submitted prependOp) (\<lambda>h commitment.
     let perIdxKey = deriveKeyForIdx H hmacKey idx 32;
         macFull = sha256_Sum256 H (n_Msg (h ! commitment) @ perIdxKey);
         mac = take hmacSize macFull
     in thenS (h, NewAppend mac) (\<lambda>h appendOp. heap_AddOp H h commitment appendOp)))"

definition add_pending :: "store \<Rightarrow> nat \<Rightarrow> attestation \<Rightarrow> store" where
  "add_pending h a att = h[a := (h ! a)\<lparr>n_Attestations := n_Attestations (h ! a) @ [att]\<rparr>]"

definition write_commitment :: "'s Service \<Rightarrow> store \<Rightarrow> nat \<Rightarrow> disk \<Rightarrow> 's Service \<times> nat result" where
  "write_commitment s h macced d =
     (case journal_Append s (n_Msg (h ! macced)) d of
        (s1, Ok _) \<Rightarrow>
          (case unfold (length h) h macced of
             Ok ts \<Rightarrow> (case store_Put s1 (n_Msg (h ! macced)) ts of (s2, r) \<Rightarrow> (s2, andThen r (\<lambda>_. Ok macced)))
           | Err e \<Rightarrow> (s1, Err e)
           | Panic p \<Rightarrow> (s1, Panic p))
      | (s1, Err e) \<Rightarrow> (s1, Err e)
      | (s1, Panic p) \<Rightarrow> (s1, Panic p))"

definition Service_Submit :: "hashes \<Rightarrow> int \<Rightarrow> disk \<Rightarrow> 's Service \<Rightarrow> store \<Rightarrow> nat \<Rightarrow> 's Service \<times> store \<times> nat result" where
  "Service_Submit H now d s h submitted =
     (let idx = word_of_int now :: u32;
          s = s\<lparr>s_idx := ucast idx\<rparr>
      in case commit_ops H (s_hmacKey s) idx h submitted of
           (h1, Err e) \<Rightarrow> (s, h1, Err e)
         | (h1, Panic p) \<Rightarrow> (s, h1, Panic p)
         | (h1, Ok macced) \<Rightarrow>
             (case NewPendingAttestation (s_uri s) of
                Err e \<Rightarrow> (s, h1, Err e)
              | Panic p \<Rightarrow> (s, h1, Panic p)
              | Ok pending \<Rightarrow>
                  let h2 = add_pending h1 macced pending
                  in case write_commitment s h2 macced d of (s', r) \<Rightarrow> (s', h2, r)))"

definition Service_Get :: "'s Service \<Rightarrow> bytes \<Rightarrow> Timestamp result" where
  "Service_Get s commitment = so_Get (s_store s) (so_state (s_store s)) commitment"

definition Service_Has :: "'s Service \<Rightarrow> bytes \<Rightarrow> bool result" where
  "Service_Has s commitment = so_Has (s_store s) (so_state (s_store s)) commitment"

definition URI :: "'s Service \<Rightarrow> string" where
  "URI s = s_uri s"

section \<open>The commitment\<close>

definition commitment_mac :: "hashes \<Rightarrow> bytes \<Rightarrow> u32 \<Rightarrow> bytes \<Rightarrow> bytes" where
  "commitment_mac H key idx msg =
     take hmacSize (sha256_Sum256 H (PutUint32 idx @ msg @ deriveKeyForIdx H key idx 32))"

definition commitment_of :: "hashes \<Rightarrow> bytes \<Rightarrow> u32 \<Rightarrow> bytes \<Rightarrow> bytes" where
  "commitment_of H key idx msg = PutUint32 idx @ msg @ commitment_mac H key idx msg"

lemma length_PutUint32 [simp]: "length (PutUint32 v) = 4"
  by (simp add: PutUint32_def)

lemma length_commitment_mac: "hash_sizes H \<Longrightarrow> length (commitment_mac H key idx msg) = 8"
  by (simp add: commitment_mac_def hmacSize_def hash_sizesD)

lemma length_commitment_of: "hash_sizes H \<Longrightarrow> length (commitment_of H key idx msg) = length msg + 12"
  by (simp add: commitment_of_def length_commitment_mac)

text \<open>The time is read back from the first four bytes.\<close>

definition Uint32 :: "bytes \<Rightarrow> u32" where
  "Uint32 b = push_bit 24 (ucast (b ! 0)) OR push_bit 16 (ucast (b ! 1)) OR push_bit 8 (ucast (b ! 2)) OR ucast (b ! 3)"

lemma Uint32_PutUint32: "Uint32 (PutUint32 v @ rest) = v"
proof (rule bit_word_eqI)
  fix n assume n: "n < LENGTH(32)"
  consider "n < 8" | "8 \<le> n" "n < 16" | "16 \<le> n" "n < 24" | "24 \<le> n" "n < 32" using n by fastforce
  then show "bit (Uint32 (PutUint32 v @ rest)) n = bit v n"
    by cases (auto simp: Uint32_def PutUint32_def bit_or_iff bit_push_bit_iff bit_ucast_iff bit_drop_bit_eq)
qed

lemma PutUint32_inj: "PutUint32 v = PutUint32 w \<Longrightarrow> v = w"
  using Uint32_PutUint32 [of v "[]"] Uint32_PutUint32 [of w "[]"] by simp

definition commit_store :: "hashes \<Rightarrow> bytes \<Rightarrow> u32 \<Rightarrow> store \<Rightarrow> nat \<Rightarrow> store" where
  "commit_store H key idx h a =
     (let m = n_Msg (h ! a); n = length h
      in h[a := (h ! a)\<lparr>n_Ops := [(PrependOp (PutUint32 idx), n)]\<rparr>] @
         [(fresh_node (PutUint32 idx @ m))\<lparr>n_Ops := [(AppendOp (commitment_mac H key idx m), n + 1)]\<rparr>,
          fresh_node (commitment_of H key idx m)])"

definition commit_fits :: "store \<Rightarrow> nat \<Rightarrow> bool" where
  "commit_fits h a \<longleftrightarrow> a < length h \<and> n_Ops (h ! a) = [] \<and> n_Msg (h ! a) \<noteq> [] \<and> length (n_Msg (h ! a)) \<le> 2048"

lemma commit_ops_eq:
  assumes f: "commit_fits h a" and H: "hash_sizes H"
  shows "commit_ops H key idx h a = (commit_store H key idx h a, Ok (length h + 1))"
proof -
  let ?n = "length h" and ?m = "n_Msg (h ! a)" and ?P = "PrependOp (PutUint32 idx)"
  let ?mac = "commitment_mac H key idx ?m"
  from f have a: "a < ?n" "n_Ops (h ! a) = []" "0 < length ?m" "length ?m \<le> 2048" by (auto simp: commit_fits_def)
  have pre: "NewPrepend (PutUint32 idx) = Ok ?P" by (simp add: NewPrepend_eq MaxResultLength_def)
  have app: "NewAppend ?mac = Ok (AppendOp ?mac)" using length_commitment_mac [OF H]
    by (simp add: NewAppend_eq MaxResultLength_def)
  have apP: "op_Apply H ?P ?m = Ok (PutUint32 idx @ ?m)" by (rule op_Apply_append) (use a in \<open>simp_all add: MaxMsgLength_def\<close>)
  define h1 where "h1 = h[a := (h ! a)\<lparr>n_Ops := [(?P, ?n)]\<rparr>] @ [fresh_node (PutUint32 idx @ ?m)]"
  have s1: "heap_AddOp H h a ?P = (h1, Ok ?n)"
    using heap_AddOp_fresh [OF a(1) _ apP] a(2) by (simp add: h1_def del: op_Apply.simps)
  have n1: "h1 ! ?n = fresh_node (PutUint32 idx @ ?m)" "length h1 = Suc ?n" by (simp_all add: h1_def nth_append)
  have apA: "op_Apply H (AppendOp ?mac) (PutUint32 idx @ ?m) = Ok (commitment_of H key idx ?m)"
    using op_Apply_append [of "PutUint32 idx @ ?m" ?mac H] a length_commitment_mac [OF H]
    by (simp add: commitment_of_def MaxMsgLength_def del: op_Apply.simps)
  have s2: "heap_AddOp H h1 ?n (AppendOp ?mac) =
      (h1[?n := (h1 ! ?n)\<lparr>n_Ops := [(AppendOp ?mac, Suc ?n)]\<rparr>] @ [fresh_node (commitment_of H key idx ?m)], Ok (Suc ?n))"
    using heap_AddOp_fresh [of ?n h1 "AppendOp ?mac" H "commitment_of H key idx ?m"] n1 apA by (simp del: op_Apply.simps)
  have "commit_store H key idx h a =
      h1[?n := (h1 ! ?n)\<lparr>n_Ops := [(AppendOp ?mac, Suc ?n)]\<rparr>] @ [fresh_node (commitment_of H key idx ?m)]"
    using n1 by (simp add: commit_store_def Let_def h1_def list_update_append)
  with s2 show ?thesis
    using n1 by (simp add: commit_ops_def pre s1 Let_def app commitment_mac_def [symmetric])
qed

lemma commit_store_sel:
  assumes "commit_fits h a"
  shows "length (commit_store H key idx h a) = length h + 2"
    and "commit_store H key idx h a ! Suc (length h) = fresh_node (commitment_of H key idx (n_Msg (h ! a)))"
    and "extends h (commit_store H key idx h a)"
    and "reach (commit_store H key idx h a) a
      [PrependOp (PutUint32 idx), AppendOp (commitment_mac H key idx (n_Msg (h ! a)))] (Suc (length h))"
proof -
  let ?h = "commit_store H key idx h a" and ?n = "length h"
  from assms have a: "a < ?n" "n_Ops (h ! a) = []" by (auto simp: commit_fits_def)
  show len: "length ?h = ?n + 2" by (simp add: commit_store_def Let_def)
  show last: "?h ! Suc ?n = fresh_node (commitment_of H key idx (n_Msg (h ! a)))"
    by (simp add: commit_store_def Let_def nth_append)
  show "extends h ?h" using a by (auto simp: extends_def commit_store_def Let_def nth_append nth_list_update)
  have "(PrependOp (PutUint32 idx), ?n) \<in> set (n_Ops (?h ! a))"
    "(AppendOp (commitment_mac H key idx (n_Msg (h ! a))), Suc ?n) \<in> set (n_Ops (?h ! ?n))"
    using a by (simp_all add: commit_store_def Let_def nth_append)
  then show "reach ?h a [PrependOp (PutUint32 idx), AppendOp (commitment_mac H key idx (n_Msg (h ! a)))] (Suc ?n)"
    using a len by (intro reach_step [of a _ _ ?n] reach_step [of ?n _ _ "Suc ?n"] reach_refl) simp_all
qed

section \<open>Submitting\<close>

definition submit_store :: "hashes \<Rightarrow> bytes \<Rightarrow> u32 \<Rightarrow> store \<Rightarrow> nat \<Rightarrow> attestation \<Rightarrow> store" where
  "submit_store H key idx h a att = add_pending (commit_store H key idx h a) (Suc (length h)) att"

lemma submit_store_sel:
  assumes "commit_fits h a"
  shows "length (submit_store H key idx h a att) = length h + 2"
    and "submit_store H key idx h a att ! Suc (length h) =
      \<lparr>n_Msg = commitment_of H key idx (n_Msg (h ! a)), n_Attestations = [att], n_Ops = []\<rparr>"
    and "extends h (submit_store H key idx h a att)"
    and "reach (submit_store H key idx h a att) a
      [PrependOp (PutUint32 idx), AppendOp (commitment_mac H key idx (n_Msg (h ! a)))] (Suc (length h))"
proof -
  let ?h = "commit_store H key idx h a" and ?n = "length h"
  note c = commit_store_sel [OF assms, of H key idx]
  show "length (submit_store H key idx h a att) = ?n + 2" by (simp add: submit_store_def add_pending_def c)
  show "submit_store H key idx h a att ! Suc ?n =
      \<lparr>n_Msg = commitment_of H key idx (n_Msg (h ! a)), n_Attestations = [att], n_Ops = []\<rparr>"
    by (simp add: submit_store_def add_pending_def c fresh_node_def)
  show "extends h (submit_store H key idx h a att)"
    using c(1,3) by (simp add: submit_store_def add_pending_def extends_def nth_list_update)
  have ops: "n_Ops (?h[k := (?h ! k)\<lparr>n_Attestations := b\<rparr>] ! i) = n_Ops (?h ! i)" for k b i
    by (cases "i = k"; cases "k < length ?h") (simp_all add: nth_list_update list_update_beyond)
  have "reach ?h b xs d \<Longrightarrow> reach (?h[k := (?h ! k)\<lparr>n_Attestations := e\<rparr>]) b xs d" for b xs d k e
    by (induction rule: reach.induct) (auto intro: reach.intros simp: ops)
  then show "reach (submit_store H key idx h a att) a
      [PrependOp (PutUint32 idx), AppendOp (commitment_mac H key idx (n_Msg (h ! a)))] (Suc ?n)"
    using c(4) by (simp add: submit_store_def add_pending_def)
qed

lemma unfold_leaf: "n_Ops (h ! a) = [] \<Longrightarrow> 0 < n \<Longrightarrow> unfold n h a = Ok (Timestamp (n_Msg (h ! a)) (n_Attestations (h ! a)) [])"
  by (cases n) simp_all

lemma Service_Submit_run:
  assumes "commit_fits h a" and "hash_sizes H" and "NewPendingAttestation (s_uri s) = Ok pending"
  shows "Service_Submit H now d s h a =
    (let h' = submit_store H (s_hmacKey s) (word_of_int now) h a pending;
         (s', r) = write_commitment (s\<lparr>s_idx := ucast (word_of_int now :: u32)\<rparr>) h' (Suc (length h)) d
     in (s', h', r))"
  using commit_ops_eq [OF assms(1,2), of "s_hmacKey s" "word_of_int now"] assms(3)
  by (simp add: Service_Submit_def Let_def submit_store_def split: prod.splits)

text \<open>The timestamp the service puts for a commitment: the commitment with the pending attestation of the calendar.\<close>

definition pending_stamp :: "attestation \<Rightarrow> bytes \<Rightarrow> Timestamp" where
  "pending_stamp pending c = Timestamp c [pending] []"

lemma pending_stamp_ok:
  assumes "NewPendingAttestation uri = Ok p" and "length c \<le> MaxMsgLength"
  shows "stamp_ok H c (pending_stamp p c)"
  using assms by (auto simp: pending_stamp_def stamp_ok_def recursionLimit_def NewPendingAttestation_def andThen_eq_Ok CheckURI_iff [symmetric])

lemma Append_Ok_iff:
  "Append j c wr sync = (j', Ok i) \<Longrightarrow> wr = Written \<and> sync = Ok () \<and> length c = JournalRecordSize"
  by (auto simp: Append_def Let_def split: if_splits write_outcome.splits result.splits)

lemma store_ok_add_pending: "store_ok H h \<Longrightarrow> store_ok H (add_pending h a att)"
proof (cases "a < length h")
  case True
  assume h: "store_ok H h"
  let ?n = "(h ! a)\<lparr>n_Attestations := n_Attestations (h ! a) @ [att]\<rparr>"
  have upd: "edge_ok H (h[a := ?n]) n e = edge_ok H h n e" for n e by (rule edge_ok_update) simp
  have msg: "edge_ok H h ?n e = edge_ok H h (h ! a) e" for e by (rule edge_ok_msg) simp
  have a: "length (n_Msg (h ! a)) \<le> MaxMsgLength" "\<forall>e \<in> set (n_Ops (h ! a)). edge_ok H h (h ! a) e"
    using h True by (simp_all add: store_ok_def)
  have "length (n_Msg n) \<le> MaxMsgLength \<and> (\<forall>e \<in> set (n_Ops n). edge_ok H h n e)" if "n \<in> set (h[a := ?n])" for n
  proof (cases "n = ?n")
    case False
    with that have "n \<in> set h" using set_update_subset_insert by fastforce
    with h show ?thesis by (simp add: store_ok_def)
  qed (use a msg in simp)
  then show ?thesis by (simp add: store_ok_def add_pending_def upd)
qed (simp add: add_pending_def list_update_beyond)

lemma store_ok_commit_store:
  assumes "store_ok H h" and "commit_fits h a" and "hash_sizes H"
  shows "store_ok H (commit_store H key idx h a)"
proof -
  have "keeps H h (commit_ops H key idx h a) (\<lambda>h' b. b < length h')"
    unfolding commit_ops_def Let_def
    by (intro keeps_steps) (use assms in \<open>auto simp: commit_fits_def\<close>)
  then show ?thesis by (simp add: commit_ops_eq [OF assms(2,3)] keeps_def)
qed

text \<open>What a submission does to the heap, whatever else succeeds or fails.\<close>

lemma Service_Submit_heap:
  assumes "store_ok H h" and f: "commit_fits h a" and H: "hash_sizes H"
    and run: "Service_Submit H now d s h a = (s', h', r)"
  shows "store_ok H h' \<and> extends h h' \<and> (\<forall>b < length h. b \<noteq> a \<longrightarrow> h' ! b = h ! b)"
proof -
  let ?c = "commit_store H (s_hmacKey s) (word_of_int now) h a"
  have "h' = ?c \<or> (\<exists>p. h' = submit_store H (s_hmacKey s) (word_of_int now) h a p)"
    using run commit_ops_eq [OF f H, of "s_hmacKey s" "word_of_int now"]
    by (auto simp: Service_Submit_def Let_def submit_store_def split: result.splits prod.splits)
  moreover have "?c ! b = h ! b" if "b < length h" "b \<noteq> a" for b
    using that by (simp add: commit_store_def Let_def nth_append)
  moreover have "submit_store H (s_hmacKey s) (word_of_int now) h a p ! b = ?c ! b" if "b < length h" for b p
    using that by (simp add: submit_store_def add_pending_def)
  moreover have "store_ok H ?c" by (rule store_ok_commit_store [OF assms(1) f H])
  moreover have "store_ok H (submit_store H (s_hmacKey s) (word_of_int now) h a p)" for p
    using \<open>store_ok H ?c\<close> unfolding submit_store_def by (rule store_ok_add_pending)
  ultimately show ?thesis using commit_store_sel(3) [OF f] submit_store_sel(3) [OF f] by metis
qed

definition storage_of ::
  "('s \<Rightarrow> bytes \<Rightarrow> Timestamp \<Rightarrow> 's \<times> unit result) \<Rightarrow> ('s \<Rightarrow> bytes \<Rightarrow> Timestamp result) \<Rightarrow> ('s \<Rightarrow> bytes \<Rightarrow> bool result) \<Rightarrow>
   's \<Rightarrow> 's Storage"
where
  "storage_of put get has st = \<lparr>so_state = st, so_Put = put, so_Get = get, so_Has = has\<rparr>"

context storage
begin

lemma write_commitment_contract:
  assumes "s_store s = storage_of put get has st" and "inv st" and "s_journal s = Some j" and "journal_of j rs"
    and "JournalRecordSize * Suc (length rs) < 2 ^ 63" and "length (n_Msg (h ! a)) = JournalRecordSize"
    and "unfold (length h) h a = Ok t" and "stamp_ok H (n_Msg (h ! a)) t"
    and "write_commitment s h a d = (s', r)"
  shows "\<exists>st' j'. s_store s' = storage_of put get has st' \<and> inv st' \<and> s_journal s' = Some j' \<and>
    j' = fst (Append j (n_Msg (h ! a)) (fst d) (snd d)) \<and>
    (\<forall>x. r = Ok x \<longrightarrow> x = a \<and> journal_of j' (rs @ [n_Msg (h ! a)]) \<and> put st (n_Msg (h ! a)) t = (st', Ok ()) \<and>
       (\<exists>A. held st' = (held st)(n_Msg (h ! a) \<mapsto> A) \<and> set (AllAttestations t) \<subseteq> A)) \<and>
    (d = (Written, Ok ()) \<longrightarrow> journal_of j' (rs @ [n_Msg (h ! a)]) \<and> \<not> is_panic r) \<and>
    (\<not> is_ok r \<longrightarrow> held st' = held st) \<and>
    (d = (Written, Ok ()) \<and> snd (put st (n_Msg (h ! a)) t) = Ok () \<longrightarrow> r = Ok a) \<and>
    (is_panic r \<longrightarrow> is_panic (snd d)) \<and> (is_ok r \<longrightarrow> d = (Written, Ok ()))"
proof -
  let ?c = "n_Msg (h ! a)"
  obtain j1 q where app: "Append j ?c (fst d) (snd d) = (j1, q)" by fastforce
  show ?thesis
  proof (cases "is_ok q")
    case False
    then have "d \<noteq> (Written, Ok ())"
      using app Append_journal_of [OF assms(4,6,5)] by (cases q) auto
    moreover from False have "s' = s\<lparr>s_journal := Some j1\<rparr>" "\<not> is_ok r"
      using assms(3,9) app by (cases q; auto simp: write_commitment_def journal_Append_def)+
    moreover have "is_panic (snd d)" if "is_panic r"
      using that False assms(3,9) app by (auto simp: write_commitment_def journal_Append_def is_panic_iff Append_def Let_def
          split: result.splits if_splits write_outcome.splits)
    ultimately show ?thesis using assms(1,2) app by (auto simp: is_ok_iff)
  next
    case True
    then have d: "d = (Written, Ok ())" using app Append_Ok_iff by (cases d) (auto simp: is_ok_iff)
    then have j1: "journal_of j1 (rs @ [?c])" using app Append_journal_of [OF assms(4,6,5)] by auto
    obtain st' p where put: "put st ?c t = (st', p)" by fastforce
    have s': "s' = s\<lparr>s_journal := Some j1, s_store := storage_of put get has st'\<rparr>" and r: "r = andThen p (\<lambda>_. Ok a)"
      using assms(1,3,7,9) app True put
      by (auto simp: write_commitment_def journal_Append_def store_Put_def storage_of_def is_ok_iff)
    show ?thesis
    proof (cases "p = Ok ()")
      case True
      with put_Ok [OF assms(2,8)] put s' r j1 d app show ?thesis by auto
    next
      case False
      with put_fails [OF assms(2,8) put] s' r j1 put app show ?thesis by (cases p) (auto intro!: exI [of _ st'])
    qed
  qed
qed

lemma Service_Submit_contract:
  fixes now :: int
  defines "idx \<equiv> word_of_int now :: u32"
  assumes f: "commit_fits h a" and H: "hash_sizes H" and p: "NewPendingAttestation (s_uri s) = Ok pending"
    and s: "s_store s = storage_of put get has st" "inv st" "s_journal s = Some j" "journal_of j rs"
    and room: "JournalRecordSize * Suc (length rs) < 2 ^ 63" and len: "length (n_Msg (h ! a)) = 32"
    and run: "Service_Submit H now d s h a = (s', h', r)"
  shows "h' = submit_store H (s_hmacKey s) idx h a pending \<and>
   (\<exists>st' j'. s_store s' = storage_of put get has st' \<and> inv st' \<and> s_journal s' = Some j' \<and>
    j' = fst (Append j (commitment_of H (s_hmacKey s) idx (n_Msg (h ! a))) (fst d) (snd d)) \<and>
    (\<forall>x. r = Ok x \<longrightarrow> x = Suc (length h) \<and> journal_of j' (rs @ [commitment_of H (s_hmacKey s) idx (n_Msg (h ! a))]) \<and>
       put st (commitment_of H (s_hmacKey s) idx (n_Msg (h ! a))) (pending_stamp pending (commitment_of H (s_hmacKey s) idx (n_Msg (h ! a)))) = (st', Ok ()) \<and>
       (\<exists>A. held st' = (held st)(commitment_of H (s_hmacKey s) idx (n_Msg (h ! a)) \<mapsto> A) \<and>
          (commitment_of H (s_hmacKey s) idx (n_Msg (h ! a)), pending) \<in> A)) \<and>
    (d = (Written, Ok ()) \<longrightarrow> journal_of j' (rs @ [commitment_of H (s_hmacKey s) idx (n_Msg (h ! a))]) \<and> \<not> is_panic r) \<and>
    (\<not> is_ok r \<longrightarrow> held st' = held st) \<and>
    (d = (Written, Ok ()) \<and> snd (put st (commitment_of H (s_hmacKey s) idx (n_Msg (h ! a)))
         (pending_stamp pending (commitment_of H (s_hmacKey s) idx (n_Msg (h ! a))))) = Ok () \<longrightarrow> r = Ok (Suc (length h))) \<and>
    (is_panic r \<longrightarrow> is_panic (snd d)) \<and> (is_ok r \<longrightarrow> d = (Written, Ok ())))"
proof -
  let ?c = "commitment_of H (s_hmacKey s) idx (n_Msg (h ! a))"
  let ?h = "submit_store H (s_hmacKey s) idx h a pending" and ?n = "Suc (length h)"
  note sel = submit_store_sel [OF f, of H "s_hmacKey s" idx pending]
  have lc: "length ?c = JournalRecordSize" using length_commitment_of [OF H] len by (simp add: JournalRecordSize_def)
  have unf: "unfold (length ?h) ?h ?n = Ok (pending_stamp pending ?c)"
    using unfold_leaf [of ?h ?n "length ?h"] by (simp add: sel pending_stamp_def)
  have ok: "stamp_ok H ?c (pending_stamp pending ?c)"
    by (rule pending_stamp_ok [OF p]) (simp add: lc JournalRecordSize_def MaxMsgLength_def)
  have all: "set (AllAttestations (pending_stamp pending ?c)) = {(?c, pending)}" by (simp add: pending_stamp_def)
  have h': "h' = ?h" and w: "write_commitment (s\<lparr>s_idx := ucast idx\<rparr>) ?h ?n d = (s', r)"
    using run by (simp_all add: Service_Submit_run [OF f H p] Let_def idx_def [symmetric] split: prod.splits)
  have msg: "n_Msg (?h ! ?n) = ?c" by (simp add: sel(2))
  have s1: "s_store (s\<lparr>s_idx := ucast idx\<rparr>) = storage_of put get has st" "s_journal (s\<lparr>s_idx := ucast idx\<rparr>) = Some j"
    using s by simp_all
  have pre: "length (n_Msg (?h ! ?n)) = JournalRecordSize" "stamp_ok H (n_Msg (?h ! ?n)) (pending_stamp pending ?c)"
    unfolding msg using lc ok by blast+
  from write_commitment_contract [OF s1(1) s(2) s1(2) s(4) room pre(1) unf pre(2) w]
  show ?thesis unfolding msg all insert_subset h' by simp
qed

end

section \<open>Properties\<close>

text \<open>
  Submitting to a calendar with a journal, over any store that meets the storage contract: the
  commitment is the time, the digest and the message authentication code, 44 bytes, reached from the
  digest by a prepend and an append; if the call succeeds, the commitment carries the pending attestation
  of the calendar, is the next record of the journal, and the store holds the attestation for it. If the
  disk accepts the record it is in the journal also when the store then fails (the journal is written
  first), and no failure changes what the store holds. A calendar address that is not a valid URI makes
  the call fail before anything is written.
\<close>

theorem Service_Submit_correct:
  assumes "storage H I held put get has" and "hash_sizes H" and "commit_fits h a" and "length (n_Msg (h ! a)) = 32"
    and "s_store s = storage_of put get has st" and "I st" and "s_journal s = Some j" and "journal_of j rs"
    and "JournalRecordSize * Suc (length rs) < 2 ^ 63"
    and "Service_Submit H now d s h a = (s', h', r)"
    and "c = commitment_of H (s_hmacKey s) (word_of_int now) (n_Msg (h ! a))"
  shows "(\<forall>e. NewPendingAttestation (s_uri s) = Err e \<longrightarrow>
       r = Err e \<and> s_store s' = s_store s \<and> s_journal s' = s_journal s) \<and>
    (\<forall>pending. NewPendingAttestation (s_uri s) = Ok pending \<longrightarrow>
      (\<exists>st' j'. s_store s' = storage_of put get has st' \<and> I st' \<and> s_journal s' = Some j' \<and>
        (\<forall>x. r = Ok x \<longrightarrow> n_Msg (h' ! x) = c \<and> length c = 44 \<and> n_Attestations (h' ! x) = [pending] \<and>
           reach h' a [PrependOp (PutUint32 (word_of_int now)),
                       AppendOp (commitment_mac H (s_hmacKey s) (word_of_int now) (n_Msg (h ! a)))] x \<and>
           journal_of j' (rs @ [c]) \<and> (\<exists>A. held st' = (held st)(c \<mapsto> A) \<and> (c, pending) \<in> A)) \<and>
        (d = (Written, Ok ()) \<longrightarrow> journal_of j' (rs @ [c]) \<and> \<not> is_panic r) \<and>
        (\<not> is_ok r \<longrightarrow> held st' = held st)))"
proof (intro conjI allI impI)
  fix e assume "NewPendingAttestation (s_uri s) = Err e"
  then show "r = Err e" "s_store s' = s_store s" "s_journal s' = s_journal s"
    using assms(10) commit_ops_eq [OF assms(3,2), of "s_hmacKey s" "word_of_int now"]
    by (auto simp: Service_Submit_def Let_def)
next
  fix pending assume p: "NewPendingAttestation (s_uri s) = Ok pending"
  note sel = submit_store_sel [OF assms(3), of H "s_hmacKey s" "word_of_int now" pending]
  note run = storage.Service_Submit_contract [OF assms(1,3,2) p assms(5-9) assms(4) assms(10), folded assms(11)]
  have "length c = 44" using length_commitment_of [OF assms(2)] assms(4,11) by simp
  from run have h': "h' = submit_store H (s_hmacKey s) (word_of_int now) h a pending" by blast
  from run obtain st' j' where st': "s_store s' = storage_of put get has st'" "I st'" "s_journal s' = Some j'"
    "d = (Written, Ok ()) \<longrightarrow> journal_of j' (rs @ [c]) \<and> \<not> is_panic r" "\<not> is_ok r \<longrightarrow> held st' = held st"
    and x: "\<And>x. r = Ok x \<Longrightarrow> x = Suc (length h) \<and> journal_of j' (rs @ [c]) \<and> (\<exists>A. held st' = (held st)(c \<mapsto> A) \<and> (c, pending) \<in> A)"
    by blast
  have "n_Msg (h' ! x) = c \<and> n_Attestations (h' ! x) = [pending] \<and>
      reach h' a [PrependOp (PutUint32 (word_of_int now)),
        AppendOp (commitment_mac H (s_hmacKey s) (word_of_int now) (n_Msg (h ! a)))] x" if "r = Ok x" for x
    using x [OF that] by (simp add: h' sel assms(11))
  with \<open>length c = 44\<close> st' x show "\<exists>st' j'. s_store s' = storage_of put get has st' \<and> I st' \<and> s_journal s' = Some j' \<and>
        (\<forall>x. r = Ok x \<longrightarrow> n_Msg (h' ! x) = c \<and> length c = 44 \<and> n_Attestations (h' ! x) = [pending] \<and>
           reach h' a [PrependOp (PutUint32 (word_of_int now)),
                       AppendOp (commitment_mac H (s_hmacKey s) (word_of_int now) (n_Msg (h ! a)))] x \<and>
           journal_of j' (rs @ [c]) \<and> (\<exists>A. held st' = (held st)(c \<mapsto> A) \<and> (c, pending) \<in> A)) \<and>
        (d = (Written, Ok ()) \<longrightarrow> journal_of j' (rs @ [c]) \<and> \<not> is_panic r) \<and>
        (\<not> is_ok r \<longrightarrow> held st' = held st)"
    by (intro exI [of _ st'] exI [of _ j']) blast
qed

text \<open>A service on the reference database, with its bucket created and nothing stored.\<close>

abbreviation ref_storage :: "ref_db \<Rightarrow> ref_db Storage" where
  "ref_storage \<equiv> storage_of (bs_Put const_hashes ref_bolt) (bs_Get const_hashes ref_bolt) (bs_Has ref_bolt)"

definition sample_db :: ref_db where
  "sample_db = Some Map.empty"

lemma sample_db_ok [simp]: "content_ok H sample_db"
  by (simp add: sample_db_def content_ok_def)

lemma ref_put_stores:
  assumes "stamp_ok H c t" and "c \<noteq> []" and "length c \<le> 32768" and "length (ts_enc t) \<le> 2147483646"
  shows "bs_Put H ref_bolt sample_db c t = (Some [c \<mapsto> ts_enc t], Ok ())"
  using stamp_ok_codec(1) [OF assms(1)] assms(2-4)
  by (simp add: bs_Put_def put_tx_def bucket_Get_def ref_bolt_def sample_db_def not_less)

lemma sample_db_put:
  assumes "length c = 44"
  shows "bs_Put const_hashes ref_bolt sample_db c (pending_stamp (PendingAttestation ''a'') c) =
    (Some [c \<mapsto> ts_enc (pending_stamp (PendingAttestation ''a'') c)], Ok ())"
proof (rule ref_put_stores)
  let ?t = "pending_stamp (PendingAttestation ''a'')"
  have p: "NewPendingAttestation ''a'' = Ok (PendingAttestation ''a'')" by code_simp
  show "stamp_ok const_hashes c (?t c)" by (rule pending_stamp_ok [OF p]) (simp add: assms MaxMsgLength_def)
  have "ts_enc (?t c) = ts_enc (?t [])" by (simp add: pending_stamp_def ts_enc.simps)
  moreover have "length (ts_enc (?t [])) = 12" by code_simp
  ultimately show "length (ts_enc (?t c)) \<le> 2147483646" by simp
qed (use assms in auto)

definition sample_service :: "ref_db Service" where
  "sample_service = \<lparr>s_uri = ''a'', s_hmacKey = [1, 2], s_store = ref_storage sample_db,
     s_journal = Some \<lparr>j_file = [], j_offset = 0, j_count = 0\<rparr>, s_idx = 0\<rparr>"

theorem Service_Submit_correct_witness:
  "\<exists>s' h' r st' j'. Service_Submit const_hashes 1700000000 (Written, Ok ()) sample_service [fresh_node (replicate 32 5)] 0 = (s', h', r) \<and>
     s_store s' = ref_storage st' \<and>
     s_journal s' = Some j' \<and> j_file j' = commitment_of const_hashes [1, 2] 1700000000 (replicate 32 5)"
proof -
  let ?h = "[fresh_node (replicate 32 5)]" and ?s = sample_service
  obtain s' h' r where run: "Service_Submit const_hashes 1700000000 (Written, Ok ()) ?s ?h 0 = (s', h', r)"
    by (metis prod.exhaust)
  have fits: "commit_fits ?h 0" and len: "length (n_Msg (?h ! 0)) = 32" by (simp_all add: commit_fits_def)
  have j: "journal_of \<lparr>j_file = [], j_offset = 0, j_count = 0\<rparr> []" by (simp add: journal_of_def JournalRecordSize_def)
  have room: "JournalRecordSize * Suc (length ([] :: bytes list)) < 2 ^ 63" by (simp add: JournalRecordSize_def)
  have uri: "NewPendingAttestation (s_uri ?s) = Ok (PendingAttestation ''a'')" by code_simp
  have st: "s_store ?s = ref_storage sample_db"
    "s_journal ?s = Some \<lparr>j_file = [], j_offset = 0, j_count = 0\<rparr>" "s_hmacKey ?s = [1, 2]"
    by (simp_all add: sample_service_def)
  from Service_Submit_correct [OF ref.bs.storage_axioms hash_sizes_const fits len st(1) sample_db_ok st(2) j room run refl,
      THEN conjunct2, rule_format, OF uri]
  obtain st' j' where "s_store s' = ref_storage st'"
    "s_journal s' = Some j'" "journal_of j' ([] @ [commitment_of const_hashes (s_hmacKey ?s) (word_of_int 1700000000) (n_Msg (?h ! 0))])"
    by blast
  then show ?thesis using run by (auto simp: journal_of_def st(3))
qed

text \<open>
  The per-index key is the walk down a binary tree of keys: from the most significant bit of the
  index to the least, each step hashes the key with the byte 0xff for a set bit and 0x00 for a clear one.
\<close>

theorem deriveKeyForIdx_correct:
  "deriveKeyForIdx H key idx bits =
     foldl (\<lambda>k i. sha256_Sum256 H (k @ [if bit idx i then 0xff else 0])) key (rev [0..<bits])"
proof (induction bits arbitrary: key)
  case (Suc n)
  have "(drop_bit n idx AND 1 \<noteq> 0) = bit idx n"
    by (simp add: and_one_eq odd_iff_mod_2_eq_one [symmetric] bit_iff_odd_drop_bit)
  with Suc show ?case by (subst deriveKeyForIdx.simps) simp
qed (simp add: deriveKeyForIdx.simps)

end
