(* ===== verification/Data_Directory.thy ===== *)
theory Data_Directory
  imports Calendar Client
begin

text \<open>
  The data directory of a calendar, \<^verbatim>\<open>internal/calendar/datadir.go\<close>: on the first start it gets a random key
  and the address of the calendar, on later starts both are read back. The directory is the map of its
  files to their bytes; which calls of the operating system fail, and what the random generator yields, is
  given by an environment.
\<close>

section \<open>Files\<close>

datatype data_file = HmacKeyFile | UriFile | DonationFile | JournalFile | DbFile

type_synonym files = "data_file \<rightharpoonup> bytes"

datatype write_fault = NoFault | OpenFault go_error | WriteFault nat go_error | SyncFault go_error | CloseFault go_error

record dir_env =
  de_path :: "data_file \<Rightarrow> string"
  de_mkdir :: "unit result"
  de_read :: "data_file \<Rightarrow> go_error option"
  de_write :: "data_file \<Rightarrow> write_fault"
  de_rand :: "bytes result"
  de_journal :: "(unit result \<times> unit result \<times> unit result)"

text \<open>\<open>os.ReadFile\<close>, with the error that \<open>os.IsNotExist\<close> recognises apart.\<close>

datatype read_result = Content bytes | NotExist | ReadFails go_error

definition ReadFile :: "dir_env \<Rightarrow> files \<Rightarrow> data_file \<Rightarrow> read_result" where
  "ReadFile env fs f =
     (case de_read env f of
        Some e \<Rightarrow> ReadFails e
      | None \<Rightarrow> (case fs f of None \<Rightarrow> NotExist | Some b \<Rightarrow> Content b))"

text \<open>\<open>O_EXCL\<close>: an existing file is an error. A failing write may leave a part of the data.\<close>

definition writeFileSync :: "dir_env \<Rightarrow> files \<Rightarrow> data_file \<Rightarrow> bytes \<Rightarrow> files \<times> unit result" where
  "writeFileSync env fs f data =
     (case de_write env f of
        OpenFault e \<Rightarrow> (fs, Err e)
      | flt \<Rightarrow>
          if fs f \<noteq> None then (fs, Err (ErrorString ''file exists''))
          else
            (case flt of
               WriteFault n e \<Rightarrow> (fs(f \<mapsto> take n data), Err e)
             | SyncFault e \<Rightarrow> (fs(f \<mapsto> data), Err e)
             | CloseFault e \<Rightarrow> (fs(f \<mapsto> data), Err e)
             | _ \<Rightarrow> (fs(f \<mapsto> data), Ok ())))"

section \<open>Loading\<close>

definition loadOrCreateHMACKey :: "dir_env \<Rightarrow> files \<Rightarrow> files \<times> bytes result" where
  "loadOrCreateHMACKey env fs =
     (case ReadFile env fs HmacKeyFile of
        Content key \<Rightarrow>
          if length key \<noteq> 32 then
            (fs, Err (ErrorString (''hmac-key at '' @ de_path env HmacKeyFile @ '' must be exactly 32 bytes, got '' @
                   dec_nat (length key))))
          else (fs, Ok key)
      | ReadFails e \<Rightarrow> (fs, Err e)
      | NotExist \<Rightarrow>
          (case de_rand env of
             Panic p \<Rightarrow> (fs, Panic p)
           | Err e \<Rightarrow> (fs, Err e)
           | Ok key \<Rightarrow>
               (case writeFileSync env fs HmacKeyFile key of
                  (fs', Ok _) \<Rightarrow> (fs', Ok key) | (fs', Err e) \<Rightarrow> (fs', Err e) | (fs', Panic p) \<Rightarrow> (fs', Panic p))))"

definition loadOrCreateText :: "dir_env \<Rightarrow> files \<Rightarrow> data_file \<Rightarrow> string \<Rightarrow> files \<times> string result" where
  "loadOrCreateText env fs f dflt =
     (case ReadFile env fs f of
        Content data \<Rightarrow> (fs, Ok (TrimSpace (string_of_bytes data)))
      | ReadFails e \<Rightarrow> (fs, Err e)
      | NotExist \<Rightarrow>
          if dflt = '''' then (fs, Ok '''')
          else
            (case writeFileSync env fs f (bytes_of_string (dflt @ [CHR 0x0A])) of
               (fs', Ok _) \<Rightarrow> (fs', Ok dflt) | (fs', Err e) \<Rightarrow> (fs', Err e) | (fs', Panic p) \<Rightarrow> (fs', Panic p)))"

record 'db DataDir =
  dd_Path :: string
  dd_URI :: string
  dd_HMACKey :: bytes
  dd_DonationAddr :: string
  dd_Journal :: Journal
  dd_Store :: 'db

definition journal_env :: "dir_env \<Rightarrow> files \<Rightarrow> open_env" where
  "journal_env env fs =
     \<lparr>e_open = (case de_read env JournalFile of Some e \<Rightarrow> Err e
                | None \<Rightarrow> Ok (case fs JournalFile of None \<Rightarrow> [] | Some b \<Rightarrow> b)),
      e_stat = fst (de_journal env), e_truncate = fst (snd (de_journal env)), e_seek = snd (snd (de_journal env))\<rparr>"

definition OpenDataDir :: "dir_env \<Rightarrow> ('db, 'tx) bolt \<Rightarrow> files \<Rightarrow> string \<Rightarrow> string \<Rightarrow> files \<times> 'db DataDir result" where
  "OpenDataDir env B fs dir defaultURI =
     (case de_mkdir env of Panic p \<Rightarrow> (fs, Panic p) | Err e \<Rightarrow> (fs, Err e) | Ok _ \<Rightarrow>
     (case loadOrCreateHMACKey env fs of (fs1, Panic p) \<Rightarrow> (fs1, Panic p) | (fs1, Err e) \<Rightarrow> (fs1, Err e) | (fs1, Ok hmacKey) \<Rightarrow>
     (case loadOrCreateText env fs1 UriFile defaultURI of (fs2, Panic p) \<Rightarrow> (fs2, Panic p) | (fs2, Err e) \<Rightarrow> (fs2, Err e) | (fs2, Ok uri) \<Rightarrow>
     if uri = '''' then
       (fs2, Err (ErrorString (''calendar URI required: pass --calendar-uri on first boot or write '' @ de_path env UriFile)))
     else
       let donation = (case ReadFile env fs2 DonationFile of Content b \<Rightarrow> b | _ \<Rightarrow> []) in
       (case OpenJournal (journal_env env fs2) of Panic p \<Rightarrow> (fs2, Panic p) | Err e \<Rightarrow> (fs2, Err e) | Ok journal \<Rightarrow>
       let fs3 = fs2(JournalFile \<mapsto> j_file journal) in
       (case OpenBoltStore B (de_path env DbFile) of Panic p \<Rightarrow> (fs3, Panic p) | Err e \<Rightarrow> (fs3, Err e) | Ok store \<Rightarrow>
         (fs3, Ok \<lparr>dd_Path = dir, dd_URI = uri, dd_HMACKey = hmacKey,
                   dd_DonationAddr = TrimSpace (string_of_bytes donation),
                   dd_Journal = journal, dd_Store = store\<rparr>))))))"

definition DataDir_Close :: "unit result \<Rightarrow> unit result \<Rightarrow> unit result" where
  "DataDir_Close journal_err store_err =
     (case journal_err of Err e \<Rightarrow> Err e | Panic p \<Rightarrow> Panic p | Ok _ \<Rightarrow> store_err)"

section \<open>Trimming the newline\<close>

lemma length_trim_left: "length (trim_left ps s) \<le> length s"
proof (induction ps s rule: trim_left.induct)
  case (1 ps s)
  then show ?case
    by (cases "strip_prefix ps s") (auto simp: trim_left.simps [of ps s] dest!: strip_prefix_shorter)
qed

lemma trim_left_eq_iff: "trim_left ps s = s \<longleftrightarrow> strip_prefix ps s = None"
  by (metis trim_left_fixed trim_left_id)

lemma strip_prefix_None: "strip_prefix ps s = None \<longleftrightarrow> (\<forall>p \<in> set ps. p \<noteq> [] \<longrightarrow> take (length p) s \<noteq> p)"
proof -
  have "strip_prefix ps s = None \<longleftrightarrow> filter (\<lambda>p. p \<noteq> [] \<and> take (length p) s = p) ps = []"
    by (simp add: strip_prefix_def split: list.splits)
  then show ?thesis by (auto simp: filter_empty_conv)
qed

lemma TrimSpace_fixedD:
  assumes "TrimSpace s = s"
  shows "strip_prefix space_runes s = None" and "strip_prefix (map rev space_runes) (rev s) = None"
proof -
  let ?l = "trim_left space_runes s" and ?R = "map rev space_runes"
  have eq: "rev (trim_left ?R (rev ?l)) = s" using assms by (simp add: TrimSpace_def trim_right_def)
  have "length s \<le> length ?l" using length_trim_left [of ?R "rev ?l"] arg_cong [OF eq, of length] by simp
  then show n: "strip_prefix space_runes s = None"
    using strip_prefix_shorter [of space_runes s] length_trim_left [of space_runes "the (strip_prefix space_runes s)"]
    by (cases "strip_prefix space_runes s") (auto simp: trim_left.simps [of space_runes s])
  then have l: "?l = s" by (simp add: trim_left_id)
  from eq l show "strip_prefix ?R (rev s) = None" by (metis rev_rev_ident trim_left_fixed)
qed

lemma TrimSpace_newline:
  assumes s: "TrimSpace s = s" "s \<noteq> []"
  shows "TrimSpace (s @ [CHR 0x0A]) = s"
proof -
  let ?nl = "CHR 0x0A :: char" and ?R = "map rev space_runes"
  have last: "\<forall>p \<in> set space_runes. length p \<ge> 2 \<longrightarrow> last p \<noteq> ?nl" by (simp add: space_runes_def)
  have "take (length p) (s @ [?nl]) \<noteq> p" if "p \<in> set space_runes" "p \<noteq> []" for p
  proof (cases "length p \<le> length s")
    case True
    then show ?thesis using TrimSpace_fixedD(1) [OF s(1)] that by (simp add: strip_prefix_None)
  next
    case False
    then have "take (length p) (s @ [?nl]) = s @ [?nl]" by simp
    moreover have "length p \<ge> 2" using False s(2) by (cases s) auto
    ultimately show ?thesis using last that by (metis last_snoc)
  qed
  then have l: "trim_left space_runes (s @ [?nl]) = s @ [?nl]" by (intro trim_left_id) (simp add: strip_prefix_None)
  have "strip_prefix ?R (?nl # rev s) = Some (rev s)"
    by (simp add: strip_prefix_def space_runes_def)
  then have "trim_left ?R (?nl # rev s) = rev s"
    using TrimSpace_fixedD(2) [OF s(1)] by (simp add: trim_left.simps [of ?R "?nl # rev s"] trim_left_id)
  then show ?thesis by (simp add: TrimSpace_def l trim_right_def)
qed

section \<open>Starting again\<close>

text \<open>An environment in which no call fails.\<close>

definition no_faults :: "dir_env \<Rightarrow> bool" where
  "no_faults env \<longleftrightarrow> de_mkdir env = Ok () \<and> (\<forall>f. de_read env f = None \<and> de_write env f = NoFault) \<and>
     (\<exists>key. de_rand env = Ok key \<and> length key = 32) \<and> de_journal env = (Ok (), Ok (), Ok ())"

lemma HMACKey_loaded:
  assumes "no_faults env" and "loadOrCreateHMACKey env fs = (fs', Ok key)"
  shows "length key = 32 \<and> fs' = fs(HmacKeyFile \<mapsto> key)"
  using assms by (auto simp: no_faults_def loadOrCreateHMACKey_def ReadFile_def writeFileSync_def fun_upd_idem
      split: option.splits if_splits)

lemma HMACKey_again:
  "no_faults env \<Longrightarrow> fs HmacKeyFile = Some key \<Longrightarrow> length key = 32 \<Longrightarrow> loadOrCreateHMACKey env fs = (fs, Ok key)"
  by (simp add: no_faults_def loadOrCreateHMACKey_def ReadFile_def)

lemma Text_loaded:
  assumes "no_faults env" and "loadOrCreateText env fs f dflt = (fs', Ok uri)" and "uri \<noteq> ''''"
    and "TrimSpace dflt = dflt"
  shows "(\<forall>g. g \<noteq> f \<longrightarrow> fs' g = fs g) \<and> (\<exists>b. fs' f = Some b \<and> TrimSpace (string_of_bytes b) = uri)"
  using assms by (auto simp: no_faults_def loadOrCreateText_def ReadFile_def writeFileSync_def TrimSpace_newline
      split: option.splits if_splits)

lemma Text_again:
  "no_faults env \<Longrightarrow> fs f = Some b \<Longrightarrow> loadOrCreateText env fs f dflt = (fs, Ok (TrimSpace (string_of_bytes b)))"
  by (simp add: no_faults_def loadOrCreateText_def ReadFile_def)

lemma OpenDataDir_OkD:
  assumes env: "no_faults env" and run: "OpenDataDir env B fs dir defaultURI = (fs', Ok dd)" and "TrimSpace defaultURI = defaultURI"
  shows "dd_URI dd \<noteq> '''' \<and> length (dd_HMACKey dd) = 32 \<and> fs' HmacKeyFile = Some (dd_HMACKey dd) \<and>
    (\<exists>b. fs' UriFile = Some b \<and> TrimSpace (string_of_bytes b) = dd_URI dd)"
proof -
  from run obtain fs1 fs2 j where k: "loadOrCreateHMACKey env fs = (fs1, Ok (dd_HMACKey dd))"
    and t: "loadOrCreateText env fs1 UriFile defaultURI = (fs2, Ok (dd_URI dd))" and u: "dd_URI dd \<noteq> ''''"
    and fs': "fs' = fs2(JournalFile \<mapsto> j)"
    by (auto simp: OpenDataDir_def Let_def split: result.splits prod.splits if_splits)
  from HMACKey_loaded [OF env k] Text_loaded [OF env t u assms(3)] u show ?thesis by (auto simp: fs')
qed

section \<open>Properties\<close>

text \<open>
  A calendar keeps its identity over restarts: if the data directory was opened, opening it again
  succeeds with the same key and the same address, whatever address is passed and whatever the random
  generator yields then, and with all complete records of the journal, also if a crash left a partial one;
  the key has 32 bytes and the address is not empty. A key file of another size, and a directory without an
  address when none is passed, are refused.
\<close>

theorem OpenDataDir_restart:
  assumes "no_faults env" and "no_faults env2" and "TrimSpace defaultURI = defaultURI"
  shows "(\<forall>fs1 dd uri2 rs part db2. OpenDataDir env B fs dir defaultURI = (fs1, Ok dd) \<and>
       (\<forall>r \<in> set rs. length r = JournalRecordSize) \<and> length part < JournalRecordSize \<and> JournalRecordSize * length rs < 2 ^ 63 \<and>
       OpenBoltStore B (de_path env2 DbFile) = Ok db2 \<longrightarrow>
       dd_URI dd \<noteq> '''' \<and> length (dd_HMACKey dd) = 32 \<and>
       (\<exists>fs2 dd2. OpenDataDir env2 B (fs1(JournalFile \<mapsto> concat rs @ part)) dir uri2 = (fs2, Ok dd2) \<and>
          dd_URI dd2 = dd_URI dd \<and> dd_HMACKey dd2 = dd_HMACKey dd \<and> journal_of (dd_Journal dd2) rs)) \<and>
    (\<forall>key. fs HmacKeyFile = Some key \<and> length key \<noteq> 32 \<longrightarrow> \<not> is_ok (snd (OpenDataDir env B fs dir defaultURI))) \<and>
    (fs UriFile = None \<longrightarrow> \<not> is_ok (snd (OpenDataDir env B fs dir '''')))"
proof (intro conjI allI impI, goal_cases)
  case (1 fs1 dd uri2 rs part db2)
  with OpenDataDir_OkD [OF assms(1) _ assms(3)] show ?case by blast
next
  case (2 fs1 dd uri2 rs part db2)
  with OpenDataDir_OkD [OF assms(1) _ assms(3)] show ?case by blast
next
  case (3 fs1 dd uri2 rs part db2)
  let ?fs = "fs1(JournalFile \<mapsto> concat rs @ part)"
  from 3 OpenDataDir_OkD [OF assms(1) _ assms(3)] obtain b where d: "dd_URI dd \<noteq> ''''" "length (dd_HMACKey dd) = 32"
    "?fs HmacKeyFile = Some (dd_HMACKey dd)" "?fs UriFile = Some b" "TrimSpace (string_of_bytes b) = dd_URI dd" by force
  from 3 OpenJournal_recovers obtain j where
    "OpenJournal \<lparr>e_open = Ok (concat rs @ part), e_stat = Ok (), e_truncate = Ok (), e_seek = Ok ()\<rparr> = Ok j" and j: "journal_of j rs"
    by blast
  then have "OpenJournal (journal_env env2 ?fs) = Ok j" using assms(2) by (simp add: journal_env_def no_faults_def)
  moreover have "de_mkdir env2 = Ok ()" using assms(2) by (simp add: no_faults_def)
  ultimately show ?case
    using HMACKey_again [of env2 ?fs, OF assms(2) d(3,2)] Text_again [of env2 ?fs UriFile b uri2, OF assms(2) d(4)] d(1,5) j 3
    by (simp add: OpenDataDir_def)
next
  case (4 key)
  then have "loadOrCreateHMACKey env fs = (fs, Err (ErrorString (''hmac-key at '' @ de_path env HmacKeyFile @
      '' must be exactly 32 bytes, got '' @ dec_nat (length key))))"
    using assms(1) by (simp add: loadOrCreateHMACKey_def ReadFile_def no_faults_def)
  then show ?case by (simp add: OpenDataDir_def split: result.splits)
next
  case 5
  obtain fs1 r where k: "loadOrCreateHMACKey env fs = (fs1, r)" by fastforce
  have "fs1 UriFile = None \<or> \<not> is_ok r" using HMACKey_loaded [OF assms(1), of fs fs1] k 5 by (cases r) auto
  moreover have "loadOrCreateText env fs1 UriFile '''' = (fs1, Ok '''')" if "fs1 UriFile = None"
    using that assms(1) by (simp add: loadOrCreateText_def ReadFile_def no_faults_def)
  ultimately show ?case by (auto simp: OpenDataDir_def k split: result.splits)
qed

definition sample_env :: dir_env where
  "sample_env = \<lparr>de_path = (\<lambda>f. ''d''), de_mkdir = Ok (), de_read = (\<lambda>f. None), de_write = (\<lambda>f. NoFault),
     de_rand = Ok (replicate 32 3), de_journal = (Ok (), Ok (), Ok ())\<rparr>"

end
