(* ===== verification/Aggregator.thy ===== *)
theory Aggregator
  imports Calendar
begin

text \<open>
  The aggregator of \<^verbatim>\<open>internal/calendar/aggregator.go\<close>: callers put nonced digests on a queue, a single
  goroutine collects them into a batch and, on every tick of its clock, commits the merkle root of the
  batch to the calendar and closes the channels on which the callers wait. The goroutine and the callers
  interleave at their channel operations; the steps below are the code between these.
\<close>

section \<open>Data\<close>

record submitRequest =
  sr_digest :: nat
  sr_done :: nat

text \<open>
  \<open>ag_queue\<close> is the buffer of the channel and \<open>ag_open\<close> whether it is open; \<open>ag_batch\<close> is the local variable
  of \<open>loop\<close>, \<open>ag_running\<close> whether \<open>loop\<close> has not returned; \<open>ag_closed\<close> are the \<open>done\<close> channels closed so far.
\<close>

record 's Aggregator =
  ag_calendar :: "'s Service"
  ag_interval :: int
  ag_queue :: "submitRequest list"
  ag_open :: bool
  ag_batch :: "submitRequest list"
  ag_running :: bool
  ag_closed :: "nat list"

definition second :: int where "second = 1000000000"

definition queue_capacity :: nat where "queue_capacity = 1024"

definition NewAggregator :: "'s Service \<Rightarrow> int \<Rightarrow> 's Aggregator" where
  "NewAggregator calendar interval =
     \<lparr>ag_calendar = calendar, ag_interval = (if interval \<le> 0 then second else interval), ag_queue = [],
      ag_open = True, ag_batch = [], ag_running = True, ag_closed = []\<rparr>"

section \<open>The goroutine\<close>

text \<open>\<open>for _, req := range batch { close(req.done) }\<close>: closing a closed channel panics.\<close>

fun close_all :: "nat list \<Rightarrow> submitRequest list \<Rightarrow> nat list \<times> unit result" where
  "close_all closed [] = (closed, Ok ())"
| "close_all closed (req # batch) =
     (if sr_done req \<in> set closed then (closed, Panic ''close of closed channel'')
      else close_all (closed @ [sr_done req]) batch)"

text \<open>
  \<open>flush\<close>: an error of \<open>MakeMerkleTree\<close> or of \<open>Submit\<close> is dropped, a panic ends the program. \<open>now\<close> and \<open>d\<close>
  are the clock and the disk at the submission.
\<close>

definition flush_commit :: "hashes \<Rightarrow> int \<Rightarrow> disk \<Rightarrow> store \<Rightarrow> 's Aggregator \<Rightarrow> store \<times> 's Aggregator \<times> unit result" where
  "flush_commit H now d h a =
     (case MakeMerkleTree H h (map sr_digest (ag_batch a)) of
        (h1, Panic p) \<Rightarrow> (h1, a, Panic p)
      | (h1, Err e) \<Rightarrow> (h1, a, Ok ())
      | (h1, Ok None) \<Rightarrow> (h1, a, Panic nil_deref)
      | (h1, Ok (Some commitment)) \<Rightarrow>
          (case Service_Submit H now d (ag_calendar a) h1 commitment of
             (svc, h2, Panic p) \<Rightarrow> (h2, a\<lparr>ag_calendar := svc\<rparr>, Panic p)
           | (svc, h2, _) \<Rightarrow> (h2, a\<lparr>ag_calendar := svc\<rparr>, Ok ())))"

definition flush :: "hashes \<Rightarrow> int \<Rightarrow> disk \<Rightarrow> store \<Rightarrow> 's Aggregator \<Rightarrow> store \<times> 's Aggregator \<times> unit result" where
  "flush H now d h a =
     (if length (ag_batch a) = 0 then (h, a, Ok ())
      else case flush_commit H now d h a of
        (h1, a1, Ok _) \<Rightarrow>
          (case close_all (ag_closed a1) (ag_batch a1) of
             (closed, Ok _) \<Rightarrow> (h1, a1\<lparr>ag_closed := closed, ag_batch := []\<rparr>, Ok ())
           | (closed, r) \<Rightarrow> (h1, a1\<lparr>ag_closed := closed\<rparr>, r))
      | (h1, a1, r) \<Rightarrow> (h1, a1, r))"

text \<open>The three cases of the \<open>select\<close> of \<open>loop\<close>: a request, the closed and drained queue, a tick.\<close>

definition loop_receive :: "'s Aggregator \<Rightarrow> 's Aggregator" where
  "loop_receive a =
     (case ag_queue a of
        [] \<Rightarrow> a
      | req # queue \<Rightarrow> a\<lparr>ag_queue := queue, ag_batch := ag_batch a @ [req]\<rparr>)"

definition loop_closed :: "hashes \<Rightarrow> int \<Rightarrow> disk \<Rightarrow> store \<Rightarrow> 's Aggregator \<Rightarrow> store \<times> 's Aggregator \<times> unit result" where
  "loop_closed H now d h a =
     (case flush H now d h a of (h1, a1, Ok _) \<Rightarrow> (h1, a1\<lparr>ag_running := False\<rparr>, Ok ()) | r \<Rightarrow> r)"

section \<open>The callers\<close>

text \<open>
  \<open>Submit\<close> up to its first \<open>select\<close>: the timestamp that is returned to the caller and the nonced digest.
  \<open>rand\<close> is what \<open>rand.Read\<close> yields for the sixteen bytes.
\<close>

definition Submit_prepare :: "hashes \<Rightarrow> store \<Rightarrow> bytes \<Rightarrow> bytes result \<Rightarrow> store \<times> (nat \<times> nat) result" where
  "Submit_prepare H h msg rand =
     thenS (heap_New h msg) (\<lambda>h ts.
     thenS (NonceTimestamp H h ts rand) (\<lambda>h nonced. (h, Ok (ts, nonced))))"

text \<open>The first \<open>select\<close>: sending on a closed channel panics; the second: waiting for the channel \<open>done\<close>.\<close>

definition Submit_send :: "'s Aggregator \<Rightarrow> submitRequest \<Rightarrow> 's Aggregator \<times> unit result" where
  "Submit_send a req =
     (if \<not> ag_open a then (a, Panic ''send on closed channel'')
      else (a\<lparr>ag_queue := ag_queue a @ [req]\<rparr>, Ok ()))"

definition Submit_wait :: "'s Aggregator \<Rightarrow> submitRequest \<Rightarrow> nat \<Rightarrow> go_error option \<Rightarrow> nat result option" where
  "Submit_wait a req ts ctx =
     (if sr_done req \<in> set (ag_closed a) then Some (Ok ts)
      else case ctx of Some e \<Rightarrow> Some (Err e) | None \<Rightarrow> None)"

definition Aggregator_Close :: "'s Aggregator \<Rightarrow> 's Aggregator \<times> unit result" where
  "Aggregator_Close a =
     (if \<not> ag_open a then (a, Panic ''close of closed channel'') else (a\<lparr>ag_open := False\<rparr>, Ok ()))"

section \<open>Interleaving\<close>

text \<open>
  The state of the program: the heap, the aggregator, and the callers waiting or returned, each with the
  timestamp it will return and its request. The channel of a new caller is a fresh one.
\<close>

record 's agg_state =
  st_heap :: store
  st_agg :: "'s Aggregator"
  st_callers :: "(nat \<times> submitRequest) list"

inductive agg_step :: "hashes \<Rightarrow> 's agg_state \<Rightarrow> 's agg_state \<Rightarrow> bool" for H where
  send: "Submit_prepare H (st_heap s) msg rand = (h, Ok (ts, nonced)) \<Longrightarrow> req = \<lparr>sr_digest = nonced, sr_done = length (st_callers s)\<rparr> \<Longrightarrow>
     length (ag_queue (st_agg s)) < queue_capacity \<Longrightarrow> Submit_send (st_agg s) req = (a, Ok ()) \<Longrightarrow>
     agg_step H s \<lparr>st_heap = h, st_agg = a, st_callers = st_callers s @ [(ts, req)]\<rparr>"
| give_up: "Submit_prepare H (st_heap s) msg rand = (h, r) \<Longrightarrow> agg_step H s (s\<lparr>st_heap := h\<rparr>)"
| receive: "ag_running (st_agg s) \<Longrightarrow> agg_step H s (s\<lparr>st_agg := loop_receive (st_agg s)\<rparr>)"
| tick: "ag_running (st_agg s) \<Longrightarrow> flush H now d (st_heap s) (st_agg s) = (h, a, Ok ()) \<Longrightarrow>
     agg_step H s (s\<lparr>st_heap := h, st_agg := a\<rparr>)"
| close: "Aggregator_Close (st_agg s) = (a, Ok ()) \<Longrightarrow> agg_step H s (s\<lparr>st_agg := a\<rparr>)"
| exit: "ag_running (st_agg s) \<Longrightarrow> \<not> ag_open (st_agg s) \<Longrightarrow> ag_queue (st_agg s) = [] \<Longrightarrow>
     loop_closed H now d (st_heap s) (st_agg s) = (h, a, Ok ()) \<Longrightarrow> agg_step H s (s\<lparr>st_heap := h, st_agg := a\<rparr>)"

text \<open>
  A panic in any of these steps ends the program, so that there is no state after it. The steps that panic
  are named by what takes them, with what \<open>rand.Read\<close>, the clock and the disk answer there.
\<close>

datatype agg_actor = Caller bytes "bytes result" | Closer | Ticker int disk | Finisher int disk

inductive agg_panics :: "hashes \<Rightarrow> 's agg_state \<Rightarrow> agg_actor \<Rightarrow> string \<Rightarrow> bool" for H where
  prepare: "Submit_prepare H (st_heap s) msg rand = (h, Panic p) \<Longrightarrow> agg_panics H s (Caller msg rand) p"
| send: "Submit_prepare H (st_heap s) msg rand = (h, Ok (ts, nonced)) \<Longrightarrow> req = \<lparr>sr_digest = nonced, sr_done = length (st_callers s)\<rparr> \<Longrightarrow>
     Submit_send (st_agg s) req = (a, Panic p) \<Longrightarrow> agg_panics H s (Caller msg rand) p"
| close: "Aggregator_Close (st_agg s) = (a, Panic p) \<Longrightarrow> agg_panics H s Closer p"
| tick: "ag_running (st_agg s) \<Longrightarrow> flush H now d (st_heap s) (st_agg s) = (h, a, Panic p) \<Longrightarrow> agg_panics H s (Ticker now d) p"
| exit: "ag_running (st_agg s) \<Longrightarrow> \<not> ag_open (st_agg s) \<Longrightarrow> ag_queue (st_agg s) = [] \<Longrightarrow>
     loop_closed H now d (st_heap s) (st_agg s) = (h, a, Panic p) \<Longrightarrow> agg_panics H s (Finisher now d) p"

section \<open>Digests waiting to be committed\<close>

definition digest_ok :: "store \<Rightarrow> nat \<Rightarrow> bool" where
  "digest_ok h n \<longleftrightarrow> leaf h n \<and> length (n_Msg (h ! n)) = 32"

lemma digest_ok_same: "digest_ok h n \<Longrightarrow> h' ! n = h ! n \<Longrightarrow> length h \<le> length h' \<Longrightarrow> digest_ok h' n"
  by (simp add: digest_ok_def leaf_def)

lemma digest_ok_commit_fits: "digest_ok h n \<Longrightarrow> commit_fits h n"
  by (auto simp: digest_ok_def leaf_def commit_fits_def)

lemma length_pair_level_32:
  "hash_sizes H \<Longrightarrow> \<forall>x \<in> set xs. length x = 32 \<Longrightarrow> \<forall>x \<in> set (pair_level H xs). length x = 32"
  by (induction H xs rule: pair_level.induct) (auto simp: hash_sizesD)

lemma length_merkle_root:
  "hash_sizes H \<Longrightarrow> \<forall>x \<in> set xs. length x = 32 \<Longrightarrow> xs \<noteq> [] \<Longrightarrow> length (merkle_root H xs) = 32"
proof (induction H xs rule: merkle_root.induct)
  case (3 H x y zs)
  then show ?case using length_pair_level_32 [OF "3.prems"(1,2)] by simp
qed simp_all

text \<open>
  What \<open>Submit\<close> prepares: the old nodes are as they were, and a new leaf of 32 bytes is reached from a new
  node on the message through the nonce and a hash.
\<close>

lemma Submit_prepare_ok:
  assumes h: "store_ok H h" and H: "hash_sizes H" and run: "Submit_prepare H h msg rand = (h', r)"
  shows "store_ok H h' \<and> length h \<le> length h' \<and> (\<forall>b < length h. h' ! b = h ! b) \<and>
    (\<forall>b \<in> {length h..<length h'}. n_Attestations (h' ! b) = []) \<and>
    (\<forall>ts n. r = Ok (ts, n) \<longrightarrow> length h \<le> n \<and> digest_ok h' n \<and> ts < length h' \<and> n_Msg (h' ! ts) = msg \<and> leads h' n 2 ts \<and> length h + 3 \<le> length h' \<and>
       (\<exists>nonce. rand = Ok nonce \<and> reach h' ts [AppendOp nonce, SHA256Op] n))"
proof (cases "length msg \<le> MaxMsgLength")
  case False
  then show ?thesis using h run by (auto simp: Submit_prepare_def heap_New_def)
next
  case True
  let ?n = "length h" and ?h0 = "h @ [fresh_node msg]"
  have h0: "store_ok H ?h0" using h True by (rule store_ok_alloc)
  have new: "heap_New h msg = (?h0, Ok ?n)" using True by (rule heap_New_eq)
  have stop: ?thesis if "h' = ?h0" "\<not> is_ok r" using that h0 by (auto simp: nth_append less_Suc_eq)
  show ?thesis
  proof (cases "andThen rand NewAppend")
    case (Ok x)
    then obtain nonce where "rand = Ok nonce" "NewAppend nonce = Ok x" by (auto simp: andThen_eq_Ok)
    with NewAppend_OkD have nonce: "rand = Ok nonce" "x = AppendOp nonce" "op_ok x" "NewAppend nonce = Ok x" by blast+
    show ?thesis
    proof (cases "op_Apply H x msg")
      case (Ok m)
      let ?h1 = "h @ [(fresh_node msg)\<lparr>n_Ops := [(x, Suc ?n)]\<rparr>, fresh_node m]"
      let ?h2 = "h @ [(fresh_node msg)\<lparr>n_Ops := [(x, Suc ?n)]\<rparr>, (fresh_node m)\<lparr>n_Ops := [(SHA256Op, ?n + 2)]\<rparr>,
        fresh_node (sha256_Sum256 H m)]"
      have s1: "heap_AddOp H ?h0 ?n x = (?h1, Ok (Suc ?n))"
        using heap_AddOp_fresh [of ?n ?h0 x H m] Ok by (simp add: nth_append list_update_append del: op_Apply.simps)
      have "op_Apply H SHA256Op m = Ok (sha256_Sum256 H m)" by (rule op_Apply_SHA256 [OF H op_result_length [OF Ok]])
      then have s2: "heap_AddOp H ?h1 (Suc ?n) SHA256Op = (?h2, Ok (?n + 2))"
        using heap_AddOp_fresh [of "Suc ?n" ?h1 SHA256Op H "sha256_Sum256 H m"]
        by (simp add: nth_append list_update_append del: op_Apply.simps)
      have res: "h' = ?h2" "r = Ok (?n, ?n + 2)"
        using run nonce s1 s2 by (simp_all add: Submit_prepare_def new NonceTimestamp_def NewSHA256_def)
      have "store_ok H ?h2"
        using keeps_NonceTimestamp [OF h0, of ?n rand] nonce s1 s2 by (simp add: keeps_def NonceTimestamp_def NewSHA256_def)
      moreover have "reach ?h2 ?n [AppendOp nonce, SHA256Op] (?n + 2)"
        using nonce(2) by (intro reach_step [of ?n _ _ "Suc ?n"] reach_step [of "Suc ?n" _ _ "?n + 2"] reach_refl)
          (simp_all add: nth_append)
      moreover have "digest_ok ?h2 (?n + 2)" using hash_sizesD(1) [OF H] by (simp add: digest_ok_def leaf_def nth_append flip: length_0_conv)
      moreover have "leads ?h2 (?n + 2) (Suc (Suc 0)) ?n"
      proof -
        have "leads ?h2 (?n + 2) 0 (?n + 2)" by (rule leads_here) (simp_all add: nth_append)
        then have l: "leads ?h2 (?n + 2) (Suc 0) (Suc ?n)" by (intro leads_step) (auto simp: nth_append)
        show ?thesis by (rule leads_step) (use l in \<open>auto simp: nth_append\<close>)
      qed
      moreover have "\<forall>b \<in> {?n..<length ?h2}. n_Attestations (?h2 ! b) = []"
        by (auto simp: nth_append less_Suc_eq numeral_3_eq_3 Suc_diff_le)
      ultimately show ?thesis using res nonce by (simp add: nth_append numeral_2_eq_2)
    next
      case (Err e)
      then have "heap_AddOp H ?h0 ?n x = (?h0, Err e)" by (simp add: heap_AddOp_def nth_append)
      then show ?thesis using run nonce by (intro stop) (auto simp: Submit_prepare_def new NonceTimestamp_def)
    next
      case (Panic p)
      then have "heap_AddOp H ?h0 ?n x = (?h0, Panic p)" by (simp add: heap_AddOp_def nth_append)
      then show ?thesis using run nonce by (intro stop) (auto simp: Submit_prepare_def new NonceTimestamp_def)
    qed
  next
    case (Err e)
    then show ?thesis using run
      by (intro stop; cases rand) (auto simp: Submit_prepare_def new NonceTimestamp_def)
  next
    case (Panic p)
    then show ?thesis using run
      by (intro stop; cases rand) (auto simp: Submit_prepare_def new NonceTimestamp_def)
  qed
qed

lemma close_all_ok:
  "distinct (closed @ map sr_done batch) \<Longrightarrow> close_all closed batch = (closed @ map sr_done batch, Ok ())"
  by (induction closed batch rule: close_all.induct) auto

section \<open>The invariant\<close>

text \<open>
  Every request is in exactly one place: in the queue, in the batch, or answered; the digests that are not
  yet committed are distinct leaves of 32 bytes, each reached from the timestamp its caller will return.
\<close>

definition waiting :: "'s Aggregator \<Rightarrow> submitRequest list" where
  "waiting a = ag_batch a @ ag_queue a"

definition agg_inv :: "hashes \<Rightarrow> 's agg_state \<Rightarrow> bool" where
  "agg_inv H s \<longleftrightarrow>
     store_ok H (st_heap s) \<and>
     map (\<lambda>c. sr_done (snd c)) (st_callers s) = [0..<length (st_callers s)] \<and>
     mset (map sr_done (waiting (st_agg s))) + mset (ag_closed (st_agg s)) = mset [0..<length (st_callers s)] \<and>
     set (waiting (st_agg s)) \<subseteq> snd ` set (st_callers s) \<and>
     distinct (map sr_digest (waiting (st_agg s))) \<and>
     (\<forall>r \<in> set (waiting (st_agg s)). digest_ok (st_heap s) (sr_digest r)) \<and>
     (\<forall>(ts, r) \<in> set (st_callers s). \<exists>nonce. reach (st_heap s) ts [AppendOp nonce, SHA256Op] (sr_digest r)) \<and>
     (ag_running (st_agg s) \<or> \<not> ag_open (st_agg s) \<and> waiting (st_agg s) = [])"

text \<open>The merkle tree of the batch.\<close>

lemma batch_root:
  assumes h: "store_ok H h" and H: "hash_sizes H" and b: "ag_batch a \<noteq> []"
    and d: "distinct (map sr_digest (waiting a))" "\<forall>r \<in> set (waiting a). digest_ok h (sr_digest r)"
  shows "\<exists>h1 root. MakeMerkleTree H h (map sr_digest (ag_batch a)) = (h1, Ok (Some root)) \<and> store_ok H h1 \<and>
    extends h h1 \<and> commit_fits h1 root \<and> length (n_Msg (h1 ! root)) = 32 \<and>
    (\<exists>k \<le> 2 * levels (length (ag_batch a)). k + length h \<le> length h1 \<and>
       (\<forall>q \<in> set (ag_batch a). leads h1 root k (sr_digest q))) \<and> grown h h1 \<and>
    (root \<in> sr_digest ` set (ag_batch a) \<or> length h \<le> root) \<and>
    (\<forall>b < length h. b \<notin> sr_digest ` set (ag_batch a) \<longrightarrow> h1 ! b = h ! b)"
proof -
  let ?as = "map sr_digest (ag_batch a)"
  have as: "\<forall>a \<in> set ?as. leaf h a" "distinct ?as" "?as \<noteq> []" using d b by (auto simp: waiting_def digest_ok_def)
  from merkle_loop_leads [OF h H as] obtain h1 root where m: "merkle_loop H h ?as = (h1, Ok (Some root))"
    "store_ok H h1" "extends h h1" "leaf h1 root" "n_Msg (h1 ! root) = merkle_root H (msgs h ?as)"
    "\<exists>k \<le> 2 * levels (length ?as). k + length h \<le> length h1 \<and> (\<forall>a \<in> set ?as. leads h1 root k a)" "grown h h1"
    "root \<in> set ?as \<or> length h \<le> root"
    "\<forall>b < length h. b \<notin> set ?as \<longrightarrow> h1 ! b = h ! b" by blast
  have "\<forall>x \<in> set (msgs h ?as). length x = 32" using d(2) by (auto simp: msgs_def waiting_def digest_ok_def)
  then have "length (n_Msg (h1 ! root)) = 32" using length_merkle_root [OF H] m(5) as(3) by (simp add: msgs_def)
  moreover have "MakeMerkleTree H h ?as = (h1, Ok (Some root))" using m(1) as(3) by (simp add: MakeMerkleTree_def)
  moreover have "commit_fits h1 root" using m(4) by (auto simp: leaf_def commit_fits_def)
  ultimately show ?thesis using m by auto
qed

lemma close_batch:
  assumes "agg_inv H s"
  shows "close_all (ag_closed (st_agg s)) (ag_batch (st_agg s)) =
    (ag_closed (st_agg s) @ map sr_done (ag_batch (st_agg s)), Ok ())"
proof (rule close_all_ok)
  let ?a = "st_agg s"
  have "mset (map sr_done (ag_batch ?a @ ag_queue ?a) @ ag_closed ?a) = mset [0..<length (st_callers s)]"
    using assms by (simp add: agg_inv_def waiting_def add.assoc)
  then have "distinct (map sr_done (ag_batch ?a @ ag_queue ?a) @ ag_closed ?a)"
    by (metis distinct_upt mset_eq_imp_distinct_iff)
  then show "distinct (ag_closed ?a @ map sr_done (ag_batch ?a))" by auto
qed

text \<open>
  Committing a batch and answering it panics only if the calendar panics while it writes the commitment: the
  merkle tree is built, and no channel is closed twice.
\<close>

definition submit_panics :: "hashes \<Rightarrow> int \<Rightarrow> disk \<Rightarrow> 's agg_state \<Rightarrow> string \<Rightarrow> bool" where
  "submit_panics H now d s p \<longleftrightarrow>
     (case MakeMerkleTree H (st_heap s) (map sr_digest (ag_batch (st_agg s))) of
        (h, Ok (Some root)) \<Rightarrow> snd (snd (Service_Submit H now d (ag_calendar (st_agg s)) h root)) = Panic p
      | _ \<Rightarrow> False)"

lemma flush_panics:
  assumes i: "agg_inv H s" and H: "hash_sizes H" and run: "flush H now d (st_heap s) (st_agg s) = (h, a, Panic p)"
  shows "submit_panics H now d s p"
proof -
  let ?a = "st_agg s"
  have b: "ag_batch ?a \<noteq> []" using run by (auto simp: flush_def)
  from i have w: "store_ok H (st_heap s)" "distinct (map sr_digest (waiting ?a))"
    "\<forall>r \<in> set (waiting ?a). digest_ok (st_heap s) (sr_digest r)" by (auto simp: agg_inv_def)
  from batch_root [OF w(1) H b w(2,3)] obtain h1 root where
    mk: "MakeMerkleTree H (st_heap s) (map sr_digest (ag_batch ?a)) = (h1, Ok (Some root))" by blast
  obtain svc h2 r where sub: "Service_Submit H now d (ag_calendar ?a) h1 root = (svc, h2, r)" by (metis prod.exhaust)
  have "r = Panic p" using run b mk sub close_batch [OF i] by (cases r) (simp_all add: flush_def flush_commit_def)
  then show ?thesis by (simp add: submit_panics_def mk sub)
qed

lemma heap_New_no_panic: "heap_New h m \<noteq> (h', Panic p)"
  by (simp add: heap_New_def)

lemma heap_AddOp_no_panic: "heap_AddOp H h t x \<noteq> (h', Panic p)"
  using op_Apply_no_panic [of H x "n_Msg (h ! t)"] heap_New_no_panic
  by (auto simp: heap_AddOp_def simp del: op_Apply.simps split: result.splits prod.splits option.splits)

lemma Submit_prepare_panics: "Submit_prepare H h msg rand = (h', Panic p) \<Longrightarrow> rand = Panic p"
  using New_op_no_panic(1)
  by (auto simp: Submit_prepare_def NonceTimestamp_def thenS_def is_panic_iff heap_New_no_panic heap_AddOp_no_panic
      split: prod.splits result.splits)

lemma agg_panics_only:
  assumes i: "agg_inv H s" and H: "hash_sizes H" and p: "agg_panics H s who p"
  shows "case who of Caller msg rand \<Rightarrow> rand = Panic p \<or> \<not> ag_open (st_agg s) | Closer \<Rightarrow> \<not> ag_open (st_agg s)
    | Ticker now d \<Rightarrow> submit_panics H now d s p | Finisher now d \<Rightarrow> submit_panics H now d s p"
  using p
proof cases
  case (prepare msg rand h)
  then show ?thesis using Submit_prepare_panics by simp
next
  case (exit now d h a)
  then have "flush H now d (st_heap s) (st_agg s) = (h, a, Panic p)"
    by (auto simp: loop_closed_def split: prod.splits result.splits)
  with exit(1) show ?thesis using flush_panics [OF i H] by simp
qed (auto simp: Submit_send_def Aggregator_Close_def intro: flush_panics [OF i H] split: if_splits)

lemma flush_commit_heap:
  assumes h: "store_ok H h" and H: "hash_sizes H" and b: "ag_batch a \<noteq> []"
    and d: "distinct (map sr_digest (waiting a))" "\<forall>r \<in> set (waiting a). digest_ok h (sr_digest r)"
    and run: "flush_commit H now dk h a = (h', a', r)"
  shows "store_ok H h' \<and> extends h h' \<and> (\<forall>r \<in> set (ag_queue a). digest_ok h' (sr_digest r)) \<and>
    (\<exists>svc. a' = a\<lparr>ag_calendar := svc\<rparr>)"
proof -
  from batch_root [OF h H b d] obtain h1 root where mk: "MakeMerkleTree H h (map sr_digest (ag_batch a)) = (h1, Ok (Some root))"
    and m: "store_ok H h1" "extends h h1" "commit_fits h1 root" "root \<in> sr_digest ` set (ag_batch a) \<or> length h \<le> root"
      "\<forall>b < length h. b \<notin> sr_digest ` set (ag_batch a) \<longrightarrow> h1 ! b = h ! b" by blast
  obtain svc h2 q where sub: "Service_Submit H now dk (ag_calendar a) h1 root = (svc, h2, q)" by (metis prod.exhaust)
  note s = Service_Submit_heap [OF m(1,3) H sub]
  have h': "h' = h2" "a' = a\<lparr>ag_calendar := svc\<rparr>" using run mk sub by (auto simp: flush_commit_def split: result.splits)
  have "digest_ok h2 (sr_digest r)" if r: "r \<in> set (ag_queue a)" for r
  proof -
    have "sr_digest r \<notin> sr_digest ` set (ag_batch a)" "digest_ok h (sr_digest r)" using r d by (auto simp: waiting_def)
    moreover from this have "sr_digest r < length h" "sr_digest r \<noteq> root" using m(4) by (auto simp: digest_ok_def leaf_def)
    moreover have "length h \<le> length h1" "length h1 \<le> length h2" using m(2) s by (auto simp: extends_def)
    ultimately show ?thesis using m(5) s by (auto intro!: digest_ok_same [of h])
  qed
  then show ?thesis using h' s extends_trans [OF m(2)] by blast
qed

lemma flush_inv:
  assumes i: "agg_inv H s" and H: "hash_sizes H" and run: "flush H now d (st_heap s) (st_agg s) = (h, a, Ok ())"
  shows "agg_inv H (s\<lparr>st_heap := h, st_agg := a\<rparr>) \<and> extends (st_heap s) h \<and>
    ag_batch a = [] \<and> ag_queue a = ag_queue (st_agg s) \<and> ag_open a = ag_open (st_agg s) \<and>
    ag_running a = ag_running (st_agg s) \<and> ag_closed a = ag_closed (st_agg s) @ map sr_done (ag_batch (st_agg s))"
proof (cases "ag_batch (st_agg s) = []")
  case True
  then show ?thesis using i run by (auto simp: flush_def)
next
  case False
  let ?a = "st_agg s"
  obtain h1 a1 r1 where c: "flush_commit H now d (st_heap s) ?a = (h1, a1, r1)" by (metis prod.exhaust)
  from i have w: "store_ok H (st_heap s)" "distinct (map sr_digest (waiting ?a))"
    "\<forall>r \<in> set (waiting ?a). digest_ok (st_heap s) (sr_digest r)" by (auto simp: agg_inv_def)
  from flush_commit_heap [OF w(1) H False w(2,3) c] obtain svc where
    h1: "store_ok H h1" "extends (st_heap s) h1" "\<forall>r \<in> set (ag_queue ?a). digest_ok h1 (sr_digest r)"
    and a1: "a1 = ?a\<lparr>ag_calendar := svc\<rparr>" by blast
  have ids: "mset (map sr_done (ag_batch ?a @ ag_queue ?a) @ ag_closed ?a) = mset [0..<length (st_callers s)]"
    using i by (simp add: agg_inv_def waiting_def add.assoc)
  have cl: "close_all (ag_closed a1) (ag_batch a1) = (ag_closed ?a @ map sr_done (ag_batch ?a), Ok ())"
    using close_batch [OF i] by (simp add: a1)
  have reach: "\<exists>nonce. reach h1 ts [AppendOp nonce, SHA256Op] (sr_digest q)" if "(ts, q) \<in> set (st_callers s)" for ts q
    using that i reach_extends [OF _ h1(2)] unfolding agg_inv_def by blast
  show ?thesis
  proof (cases r1)
    case (Ok u)
    then have res: "h = h1" "a = a1\<lparr>ag_closed := ag_closed ?a @ map sr_done (ag_batch ?a), ag_batch := []\<rparr>"
      using run False c cl by (simp_all add: flush_def)
    have "agg_inv H (s\<lparr>st_heap := h, st_agg := a\<rparr>)"
      using i h1 reach ids by (auto simp: agg_inv_def res a1 waiting_def ac_simps)
    with res a1 h1(2) show ?thesis by auto
  qed (use run False c in \<open>simp_all add: flush_def\<close>)
qed

lemma waiting_open [simp]: "waiting (a\<lparr>ag_open := b\<rparr>) = waiting a" "waiting (a\<lparr>ag_running := b\<rparr>) = waiting a"
  by (simp_all add: waiting_def)

inductive agg_reach :: "hashes \<Rightarrow> 's Service \<Rightarrow> int \<Rightarrow> 's agg_state \<Rightarrow> bool" for H svc interval where
  start: "agg_reach H svc interval \<lparr>st_heap = [], st_agg = NewAggregator svc interval, st_callers = []\<rparr>"
| step: "agg_reach H svc interval s \<Longrightarrow> agg_step H s s' \<Longrightarrow> agg_reach H svc interval s'"

lemma agg_inv_send:
  assumes i: "agg_inv H s" and H: "hash_sizes H"
    and p: "Submit_prepare H (st_heap s) msg rand = (h, Ok (ts, nonced))"
    and req: "req = \<lparr>sr_digest = nonced, sr_done = length (st_callers s)\<rparr>"
    and send: "Submit_send (st_agg s) req = (a, Ok ())"
  shows "agg_inv H \<lparr>st_heap = h, st_agg = a, st_callers = st_callers s @ [(ts, req)]\<rparr>"
proof -
  let ?a = "st_agg s"
  from send have a: "a = ?a\<lparr>ag_queue := ag_queue ?a @ [req]\<rparr>" "ag_open ?a" by (auto simp: Submit_send_def split: if_splits)
  then have run: "ag_running ?a" using i by (auto simp: agg_inv_def)
  note prep = Submit_prepare_ok [OF _ H p]
  have h: "store_ok H (st_heap s)" using i by (simp add: agg_inv_def)
  have fr: "\<forall>b < length (st_heap s). h ! b = st_heap s ! b" "length (st_heap s) \<le> length h" using prep [OF h] by auto
  then have ext: "extends (st_heap s) h" by (simp add: extends_def)
  have old: "digest_ok h (sr_digest r) \<and> sr_digest r < length (st_heap s)" if "r \<in> set (waiting ?a)" for r
  proof -
    have "digest_ok (st_heap s) (sr_digest r)" using i that by (auto simp: agg_inv_def)
    moreover from this have "sr_digest r < length (st_heap s)" by (simp add: digest_ok_def leaf_def)
    ultimately show ?thesis using fr by (auto intro: digest_ok_same)
  qed
  have "nonced \<notin> sr_digest ` set (waiting ?a)" using old prep [OF h] by fastforce
  moreover have "\<exists>nonce. reach h t [AppendOp nonce, SHA256Op] (sr_digest q)" if "(t, q) \<in> set (st_callers s)" for t q
    using that i reach_extends [OF _ ext] unfolding agg_inv_def by blast
  ultimately show ?thesis using i old prep [OF h] run
    by (auto simp: agg_inv_def a(1) waiting_def req ac_simps)
qed

lemma agg_inv_heap:
  assumes i: "agg_inv H s" and "store_ok H h" and "extends (st_heap s) h"
    and "\<forall>r \<in> set (waiting (st_agg s)). digest_ok h (sr_digest r)"
  shows "agg_inv H (s\<lparr>st_heap := h\<rparr>)"
proof -
  have "\<exists>nonce. reach h t [AppendOp nonce, SHA256Op] (sr_digest q)" if "(t, q) \<in> set (st_callers s)" for t q
    using that i reach_extends [OF _ assms(3)] unfolding agg_inv_def by blast
  then show ?thesis using assms by (auto simp: agg_inv_def)
qed

lemma agg_inv_step:
  assumes i: "agg_inv H s" and H: "hash_sizes H" and st: "agg_step H s s'"
  shows "agg_inv H s'"
  using st
proof cases
  case (send msg rand h ts nonced req a)
  then show ?thesis using agg_inv_send [OF i H] by blast
next
  case (give_up msg rand h r)
  have h: "store_ok H (st_heap s)" using i by (simp add: agg_inv_def)
  note prep = Submit_prepare_ok [OF h H give_up(2)]
  have "digest_ok h (sr_digest r)" if "r \<in> set (waiting (st_agg s))" for r
    using that i prep by (auto simp: agg_inv_def digest_ok_def leaf_def intro!: digest_ok_same [of "st_heap s"])
  then show ?thesis unfolding give_up(1) using prep i by (intro agg_inv_heap) (auto simp: extends_def)
next
  case receive
  then show ?thesis using i by (auto simp: agg_inv_def loop_receive_def waiting_def split: list.splits)
next
  case (tick now d h a)
  then show ?thesis using flush_inv [OF i H] by blast
next
  case (close a)
  then show ?thesis using i by (auto simp: agg_inv_def Aggregator_Close_def split: if_splits)
next
  case (exit now d h a)
  then obtain a1 where f: "flush H now d (st_heap s) (st_agg s) = (h, a1, Ok ())" and a: "a = a1\<lparr>ag_running := False\<rparr>"
    by (auto simp: loop_closed_def split: prod.splits result.splits)
  from flush_inv [OF i H f] exit a show ?thesis by (auto simp: agg_inv_def waiting_def)
qed

lemma agg_reach_inv: "agg_reach H svc interval s \<Longrightarrow> hash_sizes H \<Longrightarrow> agg_inv H s"
  by (induction rule: agg_reach.induct)
    (auto simp: agg_inv_step agg_inv_def [of H "\<lparr>st_heap = [], st_agg = _, st_callers = []\<rparr>"] NewAggregator_def waiting_def store_ok_def)

text \<open>Each request is waiting or answered, and not both.\<close>

lemma agg_inv_partition:
  assumes i: "agg_inv H s"
  shows "distinct (ag_closed (st_agg s))"
    and "(ts, r) \<in> set (st_callers s) \<Longrightarrow> sr_done r \<in> set (ag_closed (st_agg s)) \<longleftrightarrow> r \<notin> set (waiting (st_agg s))"
proof -
  let ?a = "st_agg s" and ?cs = "st_callers s"
  let ?id = "\<lambda>c :: nat \<times> submitRequest. sr_done (snd c)"
  have "mset (map sr_done (waiting ?a) @ ag_closed ?a) = mset [0..<length ?cs]" using i by (simp add: agg_inv_def)
  then have d: "distinct (map sr_done (waiting ?a) @ ag_closed ?a)"
    and s: "set (map sr_done (waiting ?a)) \<union> set (ag_closed ?a) = {0..<length ?cs}"
    by (metis distinct_upt mset_eq_imp_distinct_iff, metis mset_eq_setD set_append set_upt)
  show "distinct (ag_closed ?a)" using d by simp
  have "map ?id ?cs = [0..<length ?cs]" using i by (simp add: agg_inv_def)
  then have "distinct (map ?id ?cs)" "set (map ?id ?cs) = {0..<length ?cs}" by simp_all
  then have ids: "inj_on ?id (set ?cs)" "?id ` set ?cs = {0..<length ?cs}" by (simp_all add: distinct_map)
  assume c: "(ts, r) \<in> set ?cs"
  then have "sr_done r \<in> {0..<length ?cs}" using ids(2) by force
  then have either: "sr_done r \<in> set (map sr_done (waiting ?a)) \<or> sr_done r \<in> set (ag_closed ?a)" using s by blast
  have in_wait: "r \<in> set (waiting ?a)" if "sr_done r \<in> set (map sr_done (waiting ?a))"
  proof -
    from that obtain r' where r': "r' \<in> set (waiting ?a)" "sr_done r' = sr_done r" by auto
    have "set (waiting ?a) \<subseteq> snd ` set ?cs" using i by (simp add: agg_inv_def)
    with r'(1) have "r' \<in> snd ` set ?cs" by blast
    then obtain ts' where "(ts', r') \<in> set ?cs" by (metis imageE prod.collapse)
    with inj_onD [OF ids(1), of "(ts', r')" "(ts, r)"] c r'(2) have "r' = r" by simp
    with r'(1) show ?thesis by simp
  qed
  have "set (map sr_done (waiting ?a)) \<inter> set (ag_closed ?a) = {}" using d by simp
  then show "sr_done r \<in> set (ag_closed ?a) \<longleftrightarrow> r \<notin> set (waiting ?a)" using either in_wait by fastforce
qed

section \<open>Committing a batch\<close>

lemma submit_store_grown:
  assumes "commit_fits h a"
  shows "grown h (submit_store H key idx h a att)"
proof -
  have "n_Ops (submit_store H key idx h a att ! b) = n_Ops (h ! b)" if "b < length h" "n_Ops (h ! b) \<noteq> []" for b
    using that assms by (cases "b = a") (auto simp: submit_store_def add_pending_def commit_store_def Let_def nth_append commit_fits_def)
  then show ?thesis using submit_store_sel(1) [OF assms] by (simp add: grown_def)
qed

lemma submit_store_leads:
  assumes "commit_fits h a"
  shows "leads (submit_store H key idx h a att) (Suc (length h)) 2 a"
proof -
  let ?h = "submit_store H key idx h a att" and ?n = "length h"
  have a: "a < ?n" using assms by (simp add: commit_fits_def)
  have ops: "n_Ops (?h ! a) = [(PrependOp (PutUint32 idx), ?n)]"
    "n_Ops (?h ! ?n) = [(AppendOp (commitment_mac H key idx (n_Msg (h ! a))), Suc ?n)]" "n_Ops (?h ! Suc ?n) = []"
    using a submit_store_sel(2) [OF assms, of H key idx att]
    by (auto simp: submit_store_def add_pending_def commit_store_def Let_def nth_append)
  have len: "length ?h = ?n + 2" by (rule submit_store_sel(1) [OF assms])
  have "leads ?h (Suc ?n) 0 (Suc ?n)" using len ops(3) by (intro leads_here) simp_all
  then have l: "leads ?h (Suc ?n) (Suc 0) ?n" using len ops(2) by (intro leads_step) auto
  have "leads ?h (Suc ?n) (Suc (Suc 0)) a" by (rule leads_step) (use l len ops(1) a in auto)
  then show ?thesis by (simp add: numeral_2_eq_2)
qed

text \<open>
  The service of a running calendar: its store meets the contract and its journal is a list of records
  with room for another one, and its address is a valid URI.
\<close>

context storage
begin

lemma flush_run:
  assumes i: "agg_inv H s" and H: "hash_sizes H" and b: "ag_batch (st_agg s) \<noteq> []"
    and p: "NewPendingAttestation (s_uri (ag_calendar (st_agg s))) = Ok pending"
    and svc: "s_store (ag_calendar (st_agg s)) = storage_of put get has st" "inv st"
      "s_journal (ag_calendar (st_agg s)) = Some j" "journal_of j rs" "JournalRecordSize * Suc (length rs) < 2 ^ 63"
    and d: "\<not> is_panic (snd d)"
  shows "\<exists>h a st' j' x c. flush H now d (st_heap s) (st_agg s) = (h, a, Ok ()) \<and>
     s_store (ag_calendar a) = storage_of put get has st' \<and> inv st' \<and> s_journal (ag_calendar a) = Some j' \<and>
     n_Msg (h ! x) = c \<and> length c = 44 \<and> n_Attestations (h ! x) = [pending] \<and> store_ok H h \<and> extends (st_heap s) h \<and>
     (\<exists>k \<le> 2 * levels (length (ag_batch (st_agg s))) + 2. k + length (st_heap s) \<le> length h \<and>
        (\<forall>q \<in> set (ag_batch (st_agg s)). leads h x k (sr_digest q))) \<and>
     j' = fst (Append j c (fst d) (snd d)) \<and> (d = (Written, Ok ()) \<longrightarrow> journal_of j' (rs @ [c])) \<and>
     (d = (Written, Ok ()) \<and> snd (put st c (pending_stamp pending c)) = Ok () \<longrightarrow>
        put st c (pending_stamp pending c) = (st', Ok ()) \<and> (\<exists>A. held st' = (held st)(c \<mapsto> A) \<and> (c, pending) \<in> A)) \<and>
     (d \<noteq> (Written, Ok ()) \<or> snd (put st c (pending_stamp pending c)) \<noteq> Ok () \<longrightarrow> held st' = held st)"
proof -
  let ?a = "st_agg s" and ?h = "st_heap s" and ?svc = "ag_calendar (st_agg s)"
  from i have w: "store_ok H ?h" "distinct (map sr_digest (waiting ?a))"
    "\<forall>r \<in> set (waiting ?a). digest_ok ?h (sr_digest r)" by (auto simp: agg_inv_def)
  from batch_root [OF w(1) H b w(2,3)] obtain h1 root where
    mk: "MakeMerkleTree H ?h (map sr_digest (ag_batch ?a)) = (h1, Ok (Some root))"
    and m: "store_ok H h1" "extends ?h h1" and fits: "commit_fits h1 root" and len: "length (n_Msg (h1 ! root)) = 32"
    and leads: "\<exists>k \<le> 2 * levels (length (ag_batch ?a)). k + length ?h \<le> length h1 \<and>
       (\<forall>q \<in> set (ag_batch ?a). leads h1 root k (sr_digest q))" by blast
  obtain svc' h2 r where sub: "Service_Submit H now d ?svc h1 root = (svc', h2, r)" by (metis prod.exhaust)
  let ?c = "commitment_of H (s_hmacKey ?svc) (word_of_int now) (n_Msg (h1 ! root))"
  note run = Service_Submit_contract [OF fits H p svc len sub]
  then obtain st' j' where st': "s_store svc' = storage_of put get has st'" "inv st'" "s_journal svc' = Some j'"
      "j' = fst (Append j ?c (fst d) (snd d))"
    and jr: "d = (Written, Ok ()) \<longrightarrow> journal_of j' (rs @ [?c]) \<and> \<not> is_panic r"
    and fail: "\<not> is_ok r \<longrightarrow> held st' = held st" "is_panic r \<longrightarrow> is_panic (snd d)" "is_ok r \<longrightarrow> d = (Written, Ok ())"
    and succ: "d = (Written, Ok ()) \<and> snd (put st ?c (pending_stamp pending ?c)) = Ok () \<longrightarrow> r = Ok (Suc (length h1))"
      "\<forall>x. r = Ok x \<longrightarrow> x = Suc (length h1) \<and> journal_of j' (rs @ [?c]) \<and> put st ?c (pending_stamp pending ?c) = (st', Ok ()) \<and> (\<exists>A. held st' = (held st)(?c \<mapsto> A) \<and> (?c, pending) \<in> A)"
    by blast
  have h2: "h2 = submit_store H (s_hmacKey ?svc) (word_of_int now) h1 root pending" using run by blast
  note sel = submit_store_sel [OF fits, of H "s_hmacKey ?svc" "word_of_int now" pending, folded h2]
  have "\<not> is_panic r" using fail(2) d by blast
  then have fc: "flush_commit H now d ?h ?a = (h2, ?a\<lparr>ag_calendar := svc'\<rparr>, Ok ())"
    using mk sub by (cases r) (simp_all add: flush_commit_def)
  have fl: "flush H now d ?h ?a = (h2, ?a\<lparr>ag_calendar := svc', ag_closed := ag_closed ?a @ map sr_done (ag_batch ?a), ag_batch := []\<rparr>, Ok ())"
    using close_batch [OF i] fc b by (simp add: flush_def)
  have "store_ok H h2" using Service_Submit_heap [OF m(1) fits H sub] by blast
  moreover have "length ?c = 44" using length_commitment_of [OF H] len by simp
  moreover have "\<exists>k \<le> 2 * levels (length (ag_batch ?a)) + 2. k + length ?h \<le> length h2 \<and>
      (\<forall>q \<in> set (ag_batch ?a). leads h2 (Suc (length h1)) k (sr_digest q))"
  proof -
    obtain k where k: "k \<le> 2 * levels (length (ag_batch ?a))" "k + length ?h \<le> length h1"
      "\<forall>q \<in> set (ag_batch ?a). leads h1 root k (sr_digest q)" using leads by blast
    have "leads h2 (Suc (length h1)) (k + 2) (sr_digest q)" if "q \<in> set (ag_batch ?a)" for q
      using leads_trans [OF bspec [OF k(3) that] submit_store_grown [OF fits] submit_store_leads [OF fits],
        of H "s_hmacKey ?svc" "word_of_int now" pending] by (simp add: h2)
    with k sel(1) show ?thesis by (intro exI [of _ "k + 2"]) simp
  qed
  moreover have "extends ?h h2" using extends_trans [OF m(2) sel(3)] .
  moreover have "d \<noteq> (Written, Ok ()) \<or> snd (put st ?c (pending_stamp pending ?c)) \<noteq> Ok () \<longrightarrow> held st' = held st"
    using fail(1,3) succ(2) by (cases r) auto
  moreover have "d = (Written, Ok ()) \<and> snd (put st ?c (pending_stamp pending ?c)) = Ok () \<longrightarrow>
      put st ?c (pending_stamp pending ?c) = (st', Ok ()) \<and> (\<exists>A. held st' = (held st)(?c \<mapsto> A) \<and> (?c, pending) \<in> A)" using succ by blast
  ultimately show ?thesis using fl st' jr sel(2)
    by (intro exI [of _ h2] exI [of _ "?a\<lparr>ag_calendar := svc', ag_closed := ag_closed ?a @ map sr_done (ag_batch ?a), ag_batch := []\<rparr>"]
        exI [of _ st'] exI [of _ j'] exI [of _ "Suc (length h1)"] exI [of _ ?c]) simp
qed

end

text \<open>
  What the callers of the batch get, whatever the disk answered: their timestamps lead to one node, the
  commitment with the pending attestation, and they return.
\<close>

definition batch_promised :: "hashes \<Rightarrow> 's agg_state \<Rightarrow> store \<Rightarrow> 's Aggregator \<Rightarrow> bytes \<Rightarrow> attestation \<Rightarrow> bool" where
  "batch_promised H s h a c pending \<longleftrightarrow>
     (\<exists>x. n_Msg (h ! x) = c \<and> n_Attestations (h ! x) = [pending] \<and>
        (\<forall>(ts, q) \<in> set (st_callers s). q \<in> set (ag_batch (st_agg s)) \<longrightarrow>
           Submit_wait a q ts None = Some (Ok ts) \<and>
           (\<exists>xs. reach h ts xs x \<and> apply_ops H xs (n_Msg (st_heap s ! ts)) = Ok c)))"

lemma batch_promisedI:
  assumes i: "agg_inv H s" and H: "hash_sizes H" and f: "flush H now d (st_heap s) (st_agg s) = (h, a, Ok ())"
    and h: "store_ok H h" "extends (st_heap s) h" and x: "n_Msg (h ! x) = c" "n_Attestations (h ! x) = [pending]"
    and leads: "\<forall>q \<in> set (ag_batch (st_agg s)). \<exists>k. leads h x k (sr_digest q)"
  shows "batch_promised H s h a c pending"
proof -
  have closed: "ag_closed a = ag_closed (st_agg s) @ map sr_done (ag_batch (st_agg s))" using flush_inv [OF i H f] by blast
  have "Submit_wait a q ts None = Some (Ok ts) \<and> (\<exists>xs. reach h ts xs x \<and> apply_ops H xs (n_Msg (st_heap s ! ts)) = Ok c)"
    if q: "(ts, q) \<in> set (st_callers s)" "q \<in> set (ag_batch (st_agg s))" for ts q
  proof -
    obtain nonce where n: "reach (st_heap s) ts [AppendOp nonce, SHA256Op] (sr_digest q)"
      using i q(1) by (auto simp: agg_inv_def)
    obtain xs where "reach h (sr_digest q) xs x" using leads q(2) leads_reach by blast
    from reach_trans [OF reach_extends [OF n h(2)] this] obtain ys where y: "reach h ts ys x" by blast
    have "ts < length (st_heap s)" using n by (auto elim: reach.cases)
    then have "apply_ops H ys (n_Msg (st_heap s ! ts)) = Ok c"
      using reach_apply_ops [OF y h(1)] extends_msg [OF h(2)] x(1) by simp
    then show ?thesis using y q(2) by (auto simp: Submit_wait_def closed)
  qed
  then show ?thesis using x by (auto simp: batch_promised_def)
qed

section \<open>Properties\<close>

text \<open>
  C17. In every reachable state of the aggregator, with any interleaving of callers, goroutine and
  shutdown: no request is lost or answered twice; a caller can return exactly if its request is neither in
  the queue nor in the batch; once the goroutine has returned, every caller that was let in can return. The loop that answers
  the batch closes every channel of it and no channel a second time. A panic in a step from such a state is
  a failure of the random source, a caller or a second \<open>Close\<close> after the queue was closed, or a panic of the calendar's \<open>Submit\<close> on
  the root of the batch, and nothing else.
\<close>

theorem aggregator_no_request_lost:
  assumes "agg_reach H svc interval s" and "hash_sizes H"
  shows "distinct (ag_closed (st_agg s)) \<and>
    (\<forall>(ts, q) \<in> set (st_callers s). Submit_wait (st_agg s) q ts None =
       (if q \<in> set (ag_batch (st_agg s)) \<union> set (ag_queue (st_agg s)) then None else Some (Ok ts))) \<and>
    (\<not> ag_running (st_agg s) \<longrightarrow> (\<forall>(ts, q) \<in> set (st_callers s). Submit_wait (st_agg s) q ts None = Some (Ok ts))) \<and>
    close_all (ag_closed (st_agg s)) (ag_batch (st_agg s)) =
      (ag_closed (st_agg s) @ map sr_done (ag_batch (st_agg s)), Ok ()) \<and>
    (\<forall>who p. agg_panics H s who p \<longrightarrow>
       (case who of Caller msg rand \<Rightarrow> rand = Panic p \<or> \<not> ag_open (st_agg s) | Closer \<Rightarrow> \<not> ag_open (st_agg s)
        | Ticker now d \<Rightarrow> submit_panics H now d s p | Finisher now d \<Rightarrow> submit_panics H now d s p))"
proof -
  note i = agg_reach_inv [OF assms]
  have "Submit_wait (st_agg s) q ts None =
       (if q \<in> set (ag_batch (st_agg s)) \<union> set (ag_queue (st_agg s)) then None else Some (Ok ts))"
    if "(ts, q) \<in> set (st_callers s)" for ts q
    using agg_inv_partition(2) [OF i that] by (simp add: Submit_wait_def waiting_def)
  moreover have "waiting (st_agg s) = []" if "\<not> ag_running (st_agg s)" using i that by (simp add: agg_inv_def)
  ultimately show ?thesis using agg_inv_partition(1) [OF i] close_batch [OF i] agg_panics_only [OF i assms(2)]
    by (intro conjI) (auto simp: waiting_def)
qed

definition sample_agg :: "ref_db agg_state" where
  "sample_agg = \<lparr>st_heap = fst (Submit_prepare const_hashes [] [1] (Ok [9])),
     st_agg = (NewAggregator sample_service 0)\<lparr>ag_batch := [\<lparr>sr_digest = 2, sr_done = 0\<rparr>]\<rparr>,
     st_callers = [(0, \<lparr>sr_digest = 2, sr_done = 0\<rparr>)]\<rparr>"

lemma sample_agg_reach: "agg_reach const_hashes sample_service 0 sample_agg"
proof -
  let ?s0 = "\<lparr>st_heap = [], st_agg = NewAggregator sample_service 0, st_callers = []\<rparr>"
  let ?q = "\<lparr>sr_digest = 2, sr_done = 0\<rparr>"
  let ?h = "fst (Submit_prepare const_hashes [] [1] (Ok [9]))"
  let ?s1 = "\<lparr>st_heap = ?h, st_agg = (NewAggregator sample_service 0)\<lparr>ag_queue := [?q]\<rparr>, st_callers = [(0, ?q)]\<rparr>"
  have "snd (Submit_prepare const_hashes [] [1] (Ok [9])) = Ok (0, 2)" by code_simp
  then have "Submit_prepare const_hashes (st_heap ?s0) [1] (Ok [9]) = (?h, Ok (0, 2))" by (metis agg_state.select_convs(1) prod.collapse)
  then have "agg_step const_hashes ?s0 \<lparr>st_heap = ?h, st_agg = (NewAggregator sample_service 0)\<lparr>ag_queue := [?q]\<rparr>, st_callers = st_callers ?s0 @ [(0, ?q)]\<rparr>"
    by (rule agg_step.send) (simp_all add: NewAggregator_def queue_capacity_def Submit_send_def)
  then have "agg_reach const_hashes sample_service 0 ?s1" using agg_reach.step [OF agg_reach.start] by simp
  moreover have "agg_step const_hashes ?s1 (?s1\<lparr>st_agg := loop_receive (st_agg ?s1)\<rparr>)"
    by (rule agg_step.receive) (simp add: NewAggregator_def)
  ultimately have "agg_reach const_hashes sample_service 0 (?s1\<lparr>st_agg := loop_receive (st_agg ?s1)\<rparr>)" by (rule agg_reach.step)
  then show ?thesis by (simp add: sample_agg_def loop_receive_def NewAggregator_def)
qed

theorem aggregator_no_request_lost_witness:
  "agg_reach const_hashes sample_service 0 sample_agg \<and> distinct (ag_closed (st_agg sample_agg)) \<and>
   Submit_wait (st_agg sample_agg) \<lparr>sr_digest = 2, sr_done = 0\<rparr> 0 None = None"
  using aggregator_no_request_lost [OF sample_agg_reach hash_sizes_const] sample_agg_reach by (simp add: sample_agg_def)

text \<open>
  C16. A tick of a reachable aggregator with a batch, over any store that meets the contract, when the
  disk accepts the record and the store the put of a 44-byte commitment with the pending attestation: every caller of the batch returns a timestamp from which a chain
  of operations computes one common 44-byte commitment that carries the pending attestation of the
  calendar, the commitment is the next record of the journal, and the store holds the attestation for it.
\<close>

theorem aggregator_commits_batch:
  assumes "agg_reach H svc interval s" and "hash_sizes H" and "ag_batch (st_agg s) \<noteq> []" and "storage H I held put get has"
    and "NewPendingAttestation (s_uri (ag_calendar (st_agg s))) = Ok pending"
    and "s_store (ag_calendar (st_agg s)) = storage_of put get has st" and "I st"
    and "s_journal (ag_calendar (st_agg s)) = Some j" and "journal_of j rs" and "JournalRecordSize * Suc (length rs) < 2 ^ 63"
    and "\<forall>c. length c = JournalRecordSize \<longrightarrow> snd (put st c (pending_stamp pending c)) = Ok ()"
  shows "\<exists>h a st' j' c. flush H now (Written, Ok ()) (st_heap s) (st_agg s) = (h, a, Ok ()) \<and>
    batch_promised H s h a c pending \<and> length c = 44 \<and>
    s_store (ag_calendar a) = storage_of put get has st' \<and> I st' \<and>
    (\<exists>A. held st' = (held st)(c \<mapsto> A) \<and> (c, pending) \<in> A) \<and>
    s_journal (ag_calendar a) = Some j' \<and> journal_of j' (rs @ [c])"
proof -
  note i = agg_reach_inv [OF assms(1,2)]
  have "\<not> is_panic (snd (Written, Ok () :: unit result))" by simp
  from storage.flush_run [OF assms(4) i assms(2,3,5-10) this, of now] assms(11) [unfolded JournalRecordSize_def]
  obtain h a st' j' x c where f: "flush H now (Written, Ok ()) (st_heap s) (st_agg s) = (h, a, Ok ())"
    and st': "s_store (ag_calendar a) = storage_of put get has st'" "I st'" "s_journal (ag_calendar a) = Some j'"
      "journal_of j' (rs @ [c])" "\<exists>A. held st' = (held st)(c \<mapsto> A) \<and> (c, pending) \<in> A" "length c = 44"
    and x: "n_Msg (h ! x) = c" "n_Attestations (h ! x) = [pending]" "store_ok H h" "extends (st_heap s) h"
      "\<forall>q \<in> set (ag_batch (st_agg s)). \<exists>k. leads h x k (sr_digest q)" by blast
  from batch_promisedI [OF i assms(2) f x(3,4,1,2,5)] f st' show ?thesis by blast
qed

lemma sample_agg_service:
  "ag_batch (st_agg sample_agg) \<noteq> []" "NewPendingAttestation (s_uri (ag_calendar (st_agg sample_agg))) = Ok (PendingAttestation ''a'')"
  "s_store (ag_calendar (st_agg sample_agg)) = ref_storage sample_db"
  "content_ok const_hashes sample_db" "s_journal (ag_calendar (st_agg sample_agg)) = Some \<lparr>j_file = [], j_offset = 0, j_count = 0\<rparr>"
  "journal_of \<lparr>j_file = [], j_offset = 0, j_count = 0\<rparr> []" "JournalRecordSize * Suc (length ([] :: bytes list)) < 2 ^ 63"
proof -
  have svc: "ag_calendar (st_agg sample_agg) = sample_service" by (simp add: sample_agg_def NewAggregator_def)
  have uri: "s_uri sample_service = ''a''" by (simp add: sample_service_def)
  show "NewPendingAttestation (s_uri (ag_calendar (st_agg sample_agg))) = Ok (PendingAttestation ''a'')"
    unfolding svc uri by code_simp
  show "ag_batch (st_agg sample_agg) \<noteq> []" by (simp add: sample_agg_def)
  show "s_store (ag_calendar (st_agg sample_agg)) = ref_storage sample_db"
    "s_journal (ag_calendar (st_agg sample_agg)) = Some \<lparr>j_file = [], j_offset = 0, j_count = 0\<rparr>"
    unfolding svc by (simp_all add: sample_service_def)
qed (simp_all add: journal_of_def JournalRecordSize_def)

theorem aggregator_commits_batch_witness:
  "\<exists>h a c. flush const_hashes 1700000000 (Written, Ok ()) (st_heap sample_agg) (st_agg sample_agg) = (h, a, Ok ()) \<and>
     batch_promised const_hashes sample_agg h a c (PendingAttestation ''a'') \<and> length c = 44"
proof -
  have "\<forall>c. length c = JournalRecordSize \<longrightarrow>
      snd (bs_Put const_hashes ref_bolt sample_db c (pending_stamp (PendingAttestation ''a'') c)) = Ok ()"
    by (simp add: sample_db_put JournalRecordSize_def)
  from aggregator_commits_batch [OF sample_agg_reach hash_sizes_const sample_agg_service(1) ref.bs.storage_axioms
      sample_agg_service(2-7) this, of 1700000000] show ?thesis by blast
qed

text \<open>
  C38. A failed submission is not reported. Whatever the disk answers to the write and the sync of the journal record (short of a
  panic), and whatever the store answers to the put, the tick closes the batch: its callers return without an error, with timestamps
  that lead to a commitment with the pending attestation of the calendar. If the record or the put was refused, the store holds what
  it held before, so that a commitment it did not hold is an error to look up; and if the write failed within the record, a
  restart reads from the journal only the records it had before.
\<close>

theorem aggregator_promises_unrecorded:
  assumes "agg_reach H svc interval s" and "hash_sizes H" and "ag_batch (st_agg s) \<noteq> []" and "storage H I held put get has"
    and "NewPendingAttestation (s_uri (ag_calendar (st_agg s))) = Ok pending"
    and "s_store (ag_calendar (st_agg s)) = storage_of put get has st" and "I st"
    and "s_journal (ag_calendar (st_agg s)) = Some j" and "journal_of j rs" and "JournalRecordSize * Suc (length rs) < 2 ^ 63"
    and "\<not> is_panic (snd d)"
  shows "\<exists>h a st' j' c. flush H now d (st_heap s) (st_agg s) = (h, a, Ok ()) \<and>
    batch_promised H s h a c pending \<and> length c = 44 \<and>
    s_store (ag_calendar a) = storage_of put get has st' \<and> s_journal (ag_calendar a) = Some j' \<and>
    (d \<noteq> (Written, Ok ()) \<or> snd (put st c (pending_stamp pending c)) \<noteq> Ok () \<longrightarrow>
       held st' = held st \<and> (held st c = None \<longrightarrow> (\<exists>e. get st' c = Err e))) \<and>
    (\<forall>n e. fst d = WriteFailed n e \<and> n < 44 \<longrightarrow>
       (\<exists>j''. OpenJournal \<lparr>e_open = Ok (j_file j'), e_stat = Ok (), e_truncate = Ok (), e_seek = Ok ()\<rparr> = Ok j'' \<and>
          journal_of j'' rs))"
proof -
  note i = agg_reach_inv [OF assms(1,2)]
  from storage.flush_run [OF assms(4) i assms(2,3,5-11), of now]
  obtain h a st' j' x c where f: "flush H now d (st_heap s) (st_agg s) = (h, a, Ok ())"
    and st': "s_store (ag_calendar a) = storage_of put get has st'" "I st'" "s_journal (ag_calendar a) = Some j'" "length c = 44"
      "j' = fst (Append j c (fst d) (snd d))"
      "d \<noteq> (Written, Ok ()) \<or> snd (put st c (pending_stamp pending c)) \<noteq> Ok () \<longrightarrow> held st' = held st"
    and x: "n_Msg (h ! x) = c" "n_Attestations (h ! x) = [pending]" "store_ok H h" "extends (st_heap s) h"
      "\<forall>q \<in> set (ag_batch (st_agg s)). \<exists>k. leads h x k (sr_digest q)" by blast
  have "d \<noteq> (Written, Ok ()) \<or> snd (put st c (pending_stamp pending c)) \<noteq> Ok () \<longrightarrow>
      held st' = held st \<and> (held st c = None \<longrightarrow> (\<exists>e. get st' c = Err e))"
    using st'(6) storage.get_missing [OF assms(4) st'(2), of c] by fastforce
  moreover have "\<exists>j''. OpenJournal \<lparr>e_open = Ok (j_file j'), e_stat = Ok (), e_truncate = Ok (), e_seek = Ok ()\<rparr> = Ok j'' \<and>
      journal_of j'' rs" if "fst d = WriteFailed n e" "n < 44" for n e
    using Append_refused_recovers [OF assms(9), of c n e "snd d"] that st'(4,5) by (simp add: JournalRecordSize_def)
  ultimately show ?thesis using batch_promisedI [OF i assms(2) f x(3,4,1,2,5)] f st'
    by (intro exI [of _ h] exI [of _ a] exI [of _ st'] exI [of _ j'] exI [of _ c]) blast
qed

theorem aggregator_promises_unrecorded_witness:
  "\<exists>h a st' c. flush const_hashes 1700000000 (WriteFailed 8 (ErrorString ''no space left on device''), Ok ())
       (st_heap sample_agg) (st_agg sample_agg) = (h, a, Ok ()) \<and>
     batch_promised const_hashes sample_agg h a c (PendingAttestation ''a'') \<and>
     s_store (ag_calendar a) = ref_storage st' \<and> (\<exists>e. bs_Get const_hashes ref_bolt st' c = Err e)"
proof -
  have d: "\<not> is_panic (snd (WriteFailed 8 (ErrorString ''no space left on device''), Ok () :: unit result))" by simp
  have none: "content_held const_hashes sample_db c = None" for c by (simp add: content_held_def sample_db_def)
  from aggregator_promises_unrecorded [OF sample_agg_reach hash_sizes_const sample_agg_service(1) ref.bs.storage_axioms
      sample_agg_service(2-7) d, of 1700000000]
  show ?thesis by (elim exE conjE) (rule exI, rule exI, rule exI, rule exI, intro conjI, assumption+, simp add: none)
qed

end
