(* ===== verification/Block_Proof.thy ===== *)
theory Block_Proof
  imports Builder
begin

text \<open>
  Block inclusion proofs, \<^verbatim>\<open>internal/bitcoin/blockproof.go\<close>: from the merkle tip embedded in a transaction
  over the transaction and the merkle tree of the block to the merkle root of its header, on the explicit
  store of timestamps. \<open>StripWitness\<close> calls the transaction codec of an external package on the bytes; its two
  calls are parameters.
\<close>

section \<open>Stripping the witness\<close>

definition StripWitness :: "(bytes \<Rightarrow> 'tx result) \<Rightarrow> ('tx \<Rightarrow> bytes result) \<Rightarrow> bytes \<Rightarrow> bytes result" where
  "StripWitness tx_Deserialize tx_SerializeNoWitness rawTx =
     (case tx_Deserialize rawTx of
        Panic p \<Rightarrow> Panic p
      | Err e \<Rightarrow> Err (ErrorString (''deserialize tx: '' @ error_string e))
      | Ok tx \<Rightarrow> tx_SerializeNoWitness tx)"

section \<open>The inclusion proof\<close>

text \<open>\<open>bytes.Index\<close>: the first position at which \<open>sep\<close> occurs.\<close>

fun bytes_Index :: "bytes \<Rightarrow> bytes \<Rightarrow> nat option" where
  "bytes_Index s sep =
     (if take (length sep) s = sep then Some 0
      else case s of [] \<Rightarrow> None | _ # s' \<Rightarrow> map_option Suc (bytes_Index s' sep))"

declare bytes_Index.simps [simp del]

text \<open>The steps \<open>if prefix := ...; len(prefix) > 0\<close> and \<open>if suffix := ...; len(suffix) > 0\<close>.\<close>

definition add_prefix :: "hashes \<Rightarrow> store \<Rightarrow> nat \<Rightarrow> bytes \<Rightarrow> store \<times> nat result" where
  "add_prefix H h node prefix =
     (if length prefix > 0 then thenS (h, NewPrepend prefix) (\<lambda>h prependOp. heap_AddOp H h node prependOp)
      else (h, Ok node))"

definition add_suffix :: "hashes \<Rightarrow> store \<Rightarrow> nat \<Rightarrow> bytes \<Rightarrow> store \<times> nat result" where
  "add_suffix H h node suffix =
     (if length suffix > 0 then thenS (h, NewAppend suffix) (\<lambda>h appendOp. heap_AddOp H h node appendOp)
      else (h, Ok node))"

text \<open>The first level: new nodes for the other transactions, from position \<open>j\<close> on.\<close>

fun block_leaves :: "store \<Rightarrow> nat \<Rightarrow> int \<Rightarrow> nat \<Rightarrow> bytes list \<Rightarrow> store \<times> nat list result" where
  "block_leaves h node txIndex j [] = (h, Ok [])"
| "block_leaves h node txIndex j (txid # txids) =
     (if int j = txIndex
      then thenS (block_leaves h node txIndex (Suc j) txids) (\<lambda>h level. (h, Ok (node # level)))
      else thenS (heap_New h txid) (\<lambda>h ts.
           thenS (block_leaves h node txIndex (Suc j) txids) (\<lambda>h level. (h, Ok (ts # level)))))"

fun block_pass :: "hashes \<Rightarrow> store \<Rightarrow> nat list \<Rightarrow> store \<times> nat list result" where
  "block_pass H h [] = (h, Ok [])"
| "block_pass H h [x] = (h, Panic ''index out of range'')"
| "block_pass H h (x # y # level) =
     thenS (CatSHA256d H h (Some x) (Some y)) (\<lambda>h parent.
     thenS (block_pass H h level) (\<lambda>h parents. (h, Ok (parent # parents))))"

lemma thenS_cong [fundef_cong]:
  "m = m' \<Longrightarrow> (\<And>h x. m' = (h, Ok x) \<Longrightarrow> f h x = f' h x) \<Longrightarrow> thenS m f = thenS m' f'"
  by (cases m'; cases "snd m'") (auto simp: thenS_def)

definition duplicate_last :: "'a list \<Rightarrow> 'a list" where
  "duplicate_last level = (if length level mod 2 = 1 then level @ [last level] else level)"

lemma block_pass_length: "block_pass H h level = (h', Ok ps) \<Longrightarrow> 2 * length ps = length level"
  by (induction H h level arbitrary: h' ps rule: block_pass.induct)
    (auto simp: thenS_def split: prod.splits result.splits)

lemma length_duplicate_last: "length (duplicate_last level) = 2 * ((length level + 1) div 2)"
  by (simp add: duplicate_last_def) presburger

function block_loop :: "hashes \<Rightarrow> store \<Rightarrow> nat list \<Rightarrow> store \<times> nat list result" where
  "block_loop H h level =
     (if length level > 1
      then thenS (block_pass H h (duplicate_last level)) (\<lambda>h parents. block_loop H h parents)
      else (h, Ok level))"
  by pat_completeness auto
termination
proof (relation "measure (\<lambda>(H, h, level). length level)", goal_cases)
  case (2 H h level h' parents)
  then have "2 * length parents = length (duplicate_last level)" using block_pass_length by blast
  then show ?case using 2(1) by (simp add: length_duplicate_last)
qed simp

declare block_loop.simps [simp del]

definition MakeTimestampFromBlock ::
  "hashes \<Rightarrow> store \<Rightarrow> nat \<Rightarrow> bytes \<Rightarrow> int \<Rightarrow> bytes list \<Rightarrow> bytes \<Rightarrow> store \<times> nat result"
where
  "MakeTimestampFromBlock H h tip rawTx txIndex txids merkleRoot =
     (let msg = n_Msg (h ! tip) in
      case bytes_Index rawTx msg of
        None \<Rightarrow> (h, Err (ErrorString ''merkle tip not found in transaction''))
      | Some i \<Rightarrow>
          if i + 1 > length rawTx then (h, Panic ''slice bounds out of range'')
          else if bytes_Index (drop (i + 1) rawTx) msg \<noteq> None
          then (h, Err (ErrorString ''merkle tip appears more than once in transaction''))
          else
            thenS (add_prefix H h tip (take i rawTx)) (\<lambda>h node.
            thenS (add_suffix H h node (drop (i + length msg) rawTx)) (\<lambda>h node.
            thenS (heap_AddOp H h node NewSHA256) (\<lambda>h node.
            thenS (heap_AddOp H h node NewSHA256) (\<lambda>h node.
            if txIndex < 0 \<or> txIndex \<ge> int (length txids) then
              (h, Err (ErrorString (''tx index '' @ dec_int txIndex @ '' out of range ('' @ dec_nat (length txids) @ '' txs)'')))
            else if n_Msg (h ! node) \<noteq> txids ! nat txIndex then
              (h, Err (ErrorString (''computed txid does not match block txid at index '' @ dec_int txIndex)))
            else
              thenS (block_leaves h node txIndex 0 txids) (\<lambda>h level.
              thenS (block_loop H h level) (\<lambda>h level.
              let root = level ! 0 in
              if n_Msg (h ! root) \<noteq> merkleRoot
              then (h, Err (ErrorString ''computed merkle root does not match block header''))
              else (h, Ok root))))))))"

section \<open>The merkle tree of a block as a function of the messages\<close>

definition sha256d :: "hashes \<Rightarrow> bytes \<Rightarrow> bytes" where
  "sha256d H m = sha256_Sum256 H (sha256_Sum256 H m)"

fun block_level :: "hashes \<Rightarrow> bytes list \<Rightarrow> bytes list" where
  "block_level H [] = []"
| "block_level H [x] = [sha256d H (x @ x)]"
| "block_level H (x # y # zs) = sha256d H (x @ y) # block_level H zs"

lemma length_block_level: "length (block_level H xs) = (length xs + 1) div 2"
  by (induction H xs rule: block_level.induct) auto

function block_root :: "hashes \<Rightarrow> bytes list \<Rightarrow> bytes" where
  "block_root H [] = []"
| "block_root H [x] = x"
| "block_root H (x # y # zs) = block_root H (block_level H (x # y # zs))"
  by pat_completeness auto
termination
  by (relation "measure (\<lambda>(H, xs). length xs)") (auto simp: length_block_level)

lemma block_level_duplicate: "block_level H (duplicate_last xs) = block_level H xs"
  unfolding duplicate_last_def
  by (induction H xs rule: block_level.induct) (auto split: if_splits)

section \<open>A pair\<close>

definition catd_store :: "hashes \<Rightarrow> store \<Rightarrow> nat \<Rightarrow> nat \<Rightarrow> store" where
  "catd_store H h l r =
     (cat_store H h l r)[length h + 2 := (cat_store H h l r ! (length h + 2))\<lparr>n_Ops := [(SHA256Op, length h + 3)]\<rparr>] @
     [fresh_node (sha256d H (n_Msg (h ! l) @ n_Msg (h ! r)))]"

lemma CatSHA256d_fresh:
  assumes f: "cat_fits h l r" and H: "hash_sizes H"
  shows "CatSHA256d H h (Some l) (Some r) = (catd_store H h l r, Ok (length h + 3))"
proof -
  let ?c = "cat_store H h l r" and ?m = "n_Msg (h ! l) @ n_Msg (h ! r)"
  note s = cat_store_sel [OF f, where H = H]
  have "n_Msg (?c ! (length h + 2)) = sha256_Sum256 H ?m" by (simp only: s(2) fresh_node_sel)
  moreover have "length (sha256_Sum256 H ?m) \<le> MaxMsgLength" using hash_sizesD(1) [OF H] by (simp add: MaxMsgLength_def)
  ultimately have "op_Apply H SHA256Op (n_Msg (?c ! (length h + 2))) = Ok (sha256d H ?m)"
    using op_Apply_SHA256 [OF H] by (simp only: sha256d_def)
  then have "heap_AddOp H ?c (length h + 2) SHA256Op = (catd_store H h l r, Ok (length h + 3))"
    using heap_AddOp_fresh [of "length h + 2" ?c SHA256Op H "sha256d H ?m"] s(1,2)
    by (simp add: catd_store_def del: op_Apply.simps)
  then show ?thesis by (simp add: CatSHA256d_def CatSHA256_fresh [OF f H] NewSHA256_def)
qed

lemma catd_store_facts:
  assumes f: "cat_fits h l r" and H: "hash_sizes H" and h: "store_ok H h"
  shows "length (catd_store H h l r) = length h + 4"
    and "n_Msg (catd_store H h l r ! (length h + 3)) = sha256d H (n_Msg (h ! l) @ n_Msg (h ! r))"
    and "leaf (catd_store H h l r) (length h + 3)"
    and "extends h (catd_store H h l r)"
    and "store_ok H (catd_store H h l r)"
    and "grown h (catd_store H h l r)"
    and "a \<in> {l, r} \<Longrightarrow> leads (catd_store H h l r) (length h + 3) 3 a"
    and "b < length h \<Longrightarrow> b \<noteq> l \<Longrightarrow> b \<noteq> r \<Longrightarrow> catd_store H h l r ! b = h ! b"
proof -
  let ?c = "cat_store H h l r" and ?d = "catd_store H h l r"
  note s = cat_store_sel [OF f, where H = H]
  show len: "length ?d = length h + 4" by (simp add: catd_store_def s)
  have last: "?d ! (length h + 3) = fresh_node (sha256d H (n_Msg (h ! l) @ n_Msg (h ! r)))"
    using s(1) by (simp add: catd_store_def nth_append)
  then show "n_Msg (?d ! (length h + 3)) = sha256d H (n_Msg (h ! l) @ n_Msg (h ! r))" by simp
  show "leaf ?d (length h + 3)" using last len hash_sizesD(1) [OF H] by (simp add: leaf_def sha256d_def flip: length_0_conv)
  show "b < length h \<Longrightarrow> b \<noteq> l \<Longrightarrow> b \<noteq> r \<Longrightarrow> ?d ! b = h ! b"
    using s(1,7) by (simp add: catd_store_def nth_append)
  have ext: "extends ?c ?d" using s(1,2) by (auto simp: extends_def catd_store_def nth_append nth_list_update)
  then show "extends h ?d" by (rule extends_trans [OF cat_store_extends [OF f]])
  show "store_ok H ?d"
    using keeps_CatSHA256d [OF h, of "Some l" "Some r"] f by (simp add: CatSHA256d_fresh [OF f H] keeps_def cat_fits_def)
  have g: "grown ?c ?d" using s(1,2) by (auto simp: grown_def catd_store_def nth_append nth_list_update)
  then show "grown h ?d" by (rule grown_trans [OF cat_store_grown [OF f]])
  have "leads ?d (length h + 3) 0 (length h + 3)" using last len by (intro leads_here) simp_all
  then have "leads ?d (length h + 3) (Suc 0) (length h + 2)"
    using s(1) by (intro leads_step) (auto simp: catd_store_def nth_append)
  from leads_trans [OF cat_store_leads [OF f] g this]
  show "leads ?d (length h + 3) 3 a" if "a \<in> {l, r}" using that by (simp add: eval_nat_numeral)
qed

section \<open>A level\<close>

fun pairs_ok :: "nat list \<Rightarrow> bool" where
  "pairs_ok [] = True"
| "pairs_ok [x] = False"
| "pairs_ok (x # y # zs) \<longleftrightarrow> x \<notin> set zs \<and> y \<notin> set zs \<and> pairs_ok zs"

lemma pairs_ok_duplicate: "distinct xs \<Longrightarrow> pairs_ok (duplicate_last xs)"
  unfolding duplicate_last_def by (induction xs rule: pairs_ok.induct) (auto split: if_splits)

definition block_step :: "hashes \<Rightarrow> store \<Rightarrow> nat list \<Rightarrow> store \<Rightarrow> nat list \<Rightarrow> bool" where
  "block_step H h xs h' ps \<longleftrightarrow> store_ok H h' \<and> extends h h' \<and> distinct ps \<and>
     (\<forall>p \<in> set ps. leaf h' p \<and> length h \<le> p) \<and>
     msgs h' ps = block_level H (msgs h xs) \<and> (\<forall>x \<in> set xs. \<exists>p \<in> set ps. leads h' p 3 x) \<and>
     grown h h' \<and> length h + 4 * length ps \<le> length h' \<and>
     (\<forall>b < length h. b \<notin> set xs \<longrightarrow> h' ! b = h ! b)"

lemma block_pass_step:
  assumes "store_ok H h" and "hash_sizes H" and "\<forall>x \<in> set xs. leaf h x" and "pairs_ok xs"
  shows "\<exists>h' ps. block_pass H h xs = (h', Ok ps) \<and> block_step H h xs h' ps"
  using assms
proof (induction H h xs rule: block_pass.induct)
  case (1 H h)
  then show ?case by (simp add: block_step_def msgs_def)
next
  case (3 H h x y zs)
  let ?h = "catd_store H h x y" and ?p = "length h + 3"
  have fits: "cat_fits h x y" using "3.prems"(3) by (intro leaf_cat_fits) simp_all
  note cat = CatSHA256d_fresh [OF fits "3.prems"(2)]
  note s = catd_store_facts [OF fits "3.prems"(2,1)]
  have zs: "leaf ?h z \<and> ?h ! z = h ! z \<and> z < length h" if "z \<in> set zs" for z
  proof -
    have z: "leaf h z" "z \<noteq> x" "z \<noteq> y" using that "3.prems"(3,4) by auto
    then have "z < length h" "?h ! z = h ! z" using s(8) by (auto simp: leaf_def)
    with z(1) s(1) show ?thesis by (simp add: leaf_def)
  qed
  have "\<forall>z \<in> set zs. leaf ?h z" "pairs_ok zs" using zs "3.prems"(4) by auto
  then obtain h' ps where IH: "block_pass H ?h zs = (h', Ok ps)" and st: "block_step H ?h zs h' ps"
    using "3.IH" [OF s(5) "3.prems"(2)] by blast
  have "?p \<notin> set zs" using zs [of ?p] by auto
  then have fr: "h' ! ?p = ?h ! ?p" "?p < length ?h" using st s(1) by (auto simp: block_step_def)
  have p: "leaf h' ?p" "n_Msg (h' ! ?p) = sha256d H (n_Msg (h ! x) @ n_Msg (h ! y))"
    using fr s(2,3) st by (auto simp: leaf_def block_step_def extends_def)
  have g: "grown ?h h'" using st by (simp add: block_step_def)
  have "leads h' ?p 0 ?p" using p(1) by (intro leads_here) (simp_all add: leaf_def)
  then have up: "leads h' ?p 3 a" if "a \<in> {x, y}" for a
    using leads_trans [OF s(7) [OF that] g, of ?p 0] by simp
  have msgs: "msgs h' (?p # ps) = block_level H (msgs h (x # y # zs))"
  proof -
    have "msgs ?h zs = msgs h zs" using zs by (simp add: msgs_def)
    then have "msgs h' ps = block_level H (msgs h zs)" using st by (simp add: block_step_def)
    then show ?thesis using p(2) by (simp add: msgs_def)
  qed
  have reach: "\<exists>q \<in> set (?p # ps). leads h' q 3 a" if "a \<in> set (x # y # zs)" for a
  proof (cases "a \<in> {x, y}")
    case True
    with up show ?thesis by auto
  next
    case False
    with that have "a \<in> set zs" by auto
    then have "\<exists>q \<in> set ps. leads h' q 3 a" using st unfolding block_step_def by blast
    then show ?thesis by auto
  qed
  have frame: "h' ! b = h ! b" if "b < length h" "b \<notin> set (x # y # zs)" for b
    using that s(1) s(8) [of b] st by (simp add: block_step_def)
  have new: "distinct (?p # ps)" "\<forall>q \<in> set (?p # ps). leaf h' q \<and> length h \<le> q"
    using st p(1) s(1) by (auto simp: block_step_def)
  have "store_ok H h'" "extends h h'" using st extends_trans [OF s(4)] by (auto simp: block_step_def)
  moreover have more: "length h + 4 * length (?p # ps) \<le> length h'" using st s(1) by (simp add: block_step_def)
  ultimately have "block_step H h (x # y # zs) h' (?p # ps)"
    unfolding block_step_def using msgs reach frame new grown_trans [OF s(6) g] more by blast
  then show ?case using IH cat by auto
qed simp

lemma block_loop_correct:
  assumes "store_ok H h" and "hash_sizes H" and "\<forall>x \<in> set xs. leaf h x" and "distinct xs" and "xs \<noteq> []"
  shows "\<exists>h' root. block_loop H h xs = (h', Ok [root]) \<and> store_ok H h' \<and> extends h h' \<and> leaf h' root \<and>
    n_Msg (h' ! root) = block_root H (msgs h xs) \<and> grown h h' \<and>
    (\<exists>k \<le> 3 * levels (length xs). k + length h \<le> length h' \<and> (\<forall>x \<in> set xs. leads h' root k x)) \<and>
    (root \<in> set xs \<or> length h \<le> root)"
  using assms
proof (induction "length xs" arbitrary: h xs rule: less_induct)
  case less
  show ?case
  proof (cases "length xs > 1")
    case False
    then obtain x where x: "xs = [x]" using less.prems(5) by (cases xs) auto
    moreover have "leads h x 0 x" using less.prems(3) x by (intro leads_here) (simp_all add: leaf_def)
    ultimately show ?thesis using less.prems(1,3) by (auto simp: block_loop.simps msgs_def)
  next
    case True
    have set: "set (duplicate_last xs) = set xs" using less.prems(5) by (auto simp: duplicate_last_def)
    obtain h1 ps where pass: "block_pass H h (duplicate_last xs) = (h1, Ok ps)"
      and st: "block_step H h (duplicate_last xs) h1 ps"
      using block_pass_step [of H h "duplicate_last xs"] less.prems pairs_ok_duplicate set by auto
    have len: "length ps < length xs" "ps \<noteq> []"
      using block_pass_length [OF pass] True by (auto simp: length_duplicate_last)
    from st have s: "store_ok H h1" "extends h h1" "distinct ps" "\<forall>p \<in> set ps. leaf h1 p"
      "msgs h1 ps = block_level H (msgs h (duplicate_last xs))" "\<forall>x \<in> set xs. \<exists>p \<in> set ps. leads h1 p 3 x"
      "grown h h1" "length h + 4 * length ps \<le> length h1" "\<forall>p \<in> set ps. length h \<le> p"
      using set by (auto simp: block_step_def)
    from less.hyps [OF len(1) s(1) less.prems(2) s(4,3) len(2)] obtain h' root where
      r: "block_loop H h1 ps = (h', Ok [root])" "store_ok H h'" "extends h1 h'" "leaf h' root"
        "n_Msg (h' ! root) = block_root H (msgs h1 ps)" "grown h1 h'" "root \<in> set ps \<or> length h1 \<le> root"
      and "\<exists>k \<le> 3 * levels (length ps). k + length h1 \<le> length h' \<and> (\<forall>p \<in> set ps. leads h' root k p)" by blast
    then obtain k where k: "k \<le> 3 * levels (length ps)" "k + length h1 \<le> length h'" "\<forall>p \<in> set ps. leads h' root k p"
      by blast
    have "length ps = (length xs + 1) div 2" using block_pass_length [OF pass] by (simp add: length_duplicate_last)
    then have "Suc (levels (length ps)) = levels (length xs)" using True by (simp add: levels.simps [of "length xs"])
    moreover have "leads h' root (3 + k) x" if "x \<in> set xs" for x using s(6) k(3) that leads_trans [OF _ r(6)] by blast
    moreover have "3 \<le> 4 * length ps" using len(2) by (cases ps) simp_all
    ultimately have depth: "\<exists>k \<le> 3 * levels (length xs). k + length h \<le> length h' \<and> (\<forall>x \<in> set xs. leads h' root k x)"
      using k s(8) by (intro exI [of _ "3 + k"] conjI) (linarith | simp)+
    have "msgs h (duplicate_last xs) = duplicate_last (msgs h xs)"
      using less.prems(5) by (simp add: msgs_def duplicate_last_def last_map)
    moreover have "block_root H (block_level H (msgs h xs)) = block_root H (msgs h xs)"
      using True by (cases "(H, msgs h xs)" rule: block_root.cases) (auto simp: msgs_def)
    ultimately have "n_Msg (h' ! root) = block_root H (msgs h xs)" using r(5) s(5) by (simp add: block_level_duplicate)
    moreover have "length h \<le> root" using r(7) s(8,9) by auto
    moreover have "block_loop H h xs = (h', Ok [root])" using True pass r(1) by (simp add: block_loop.simps [of H h xs])
    ultimately show ?thesis using r(2-4) extends_trans [OF s(2)] grown_trans [OF s(7) r(6)] depth by blast
  qed
qed

section \<open>From the tip to the transaction\<close>

lemma bytes_Index_SomeD:
  "bytes_Index s sep = Some i \<Longrightarrow> i + length sep \<le> length s \<and> s = take i s @ sep @ drop (i + length sep) s"
proof (induction s sep arbitrary: i rule: bytes_Index.induct)
  case (1 s sep)
  show ?case
  proof (cases "take (length sep) s = sep")
    case True
    then have "length sep \<le> length s" by (metis length_take min.cobounded1 min.commute)
    then show ?thesis using True 1(2) append_take_drop_id [of "length sep" s] by (simp add: bytes_Index.simps [of s])
  next
    case False
    then have "(case s of [] \<Rightarrow> None | _ # s' \<Rightarrow> map_option Suc (bytes_Index s' sep)) = Some i"
      using 1(2) by (simp add: bytes_Index.simps [of s sep])
    then obtain b s' k where s: "s = b # s'" "bytes_Index s' sep = Some k" "i = Suc k"
      by (cases s) auto
    then show ?thesis using "1.IH" [OF False, of b s' k] by auto
  qed
qed

text \<open>A node without operations that a chain of at most \<open>n\<close> operations leads to.\<close>

definition chained :: "hashes \<Rightarrow> store \<Rightarrow> nat \<Rightarrow> nat \<Rightarrow> store \<Rightarrow> nat \<Rightarrow> bytes \<Rightarrow> bool" where
  "chained H h a n h' b m \<longleftrightarrow> store_ok H h' \<and> extends h h' \<and> b < length h' \<and> n_Ops (h' ! b) = [] \<and> n_Msg (h' ! b) = m \<and>
     grown h h' \<and> (b = a \<or> length h \<le> b) \<and> (\<exists>k \<le> n. k + length h \<le> length h' \<and> leads h' b k a)"

lemma chained_refl: "store_ok H h \<Longrightarrow> a < length h \<Longrightarrow> n_Ops (h ! a) = [] \<Longrightarrow> chained H h a 0 h a (n_Msg (h ! a))"
  by (auto simp: chained_def intro: leads_here)

lemma AddOp_chained:
  assumes c: "chained H h a n h1 b m" and x: "op_ok x" "op_Apply H x m = Ok r"
  shows "\<exists>h2 d. heap_AddOp H h1 b x = (h2, Ok d) \<and> chained H h a (Suc n) h2 d r"
proof -
  from c obtain k where b: "store_ok H h1" "b < length h1" "n_Ops (h1 ! b) = []" "n_Msg (h1 ! b) = m" "extends h h1" "grown h h1"
    and k: "k \<le> n" "k + length h \<le> length h1" "leads h1 b k a" by (auto simp: chained_def)
  let ?h = "h1[b := (h1 ! b)\<lparr>n_Ops := [(x, length h1)]\<rparr>] @ [fresh_node r]"
  have run: "heap_AddOp H h1 b x = (?h, Ok (length h1))"
    using heap_AddOp_fresh [of b h1 x H r] b x by (simp del: op_Apply.simps)
  have g: "grown h1 ?h" using b(3)
    by (simp add: grown_def nth_append) (metis nth_list_update_neq)
  have "leads ?h (length h1) 0 (length h1)" by (intro leads_here) (simp_all add: nth_append)
  then have "leads ?h (length h1) (Suc 0) b" using b by (intro leads_step) (auto simp: nth_append)
  from leads_trans [OF k(3) g this] have "leads ?h (length h1) (Suc k) a" by simp
  moreover have "store_ok H ?h \<and> extends h1 ?h" using heap_AddOp_ok [OF b(1,2) x(1) run] by blast
  moreover have "length h \<le> length h1" using b(6) by (simp add: grown_def)
  ultimately have "chained H h a (Suc n) ?h (length h1) r"
    using k(1,2) grown_trans [OF b(6) g] extends_trans [OF b(5)] by (auto simp: chained_def nth_append intro!: exI [of _ "Suc k"])
  with run show ?thesis by blast
qed

lemma chained_mono: "chained H h a n h' b m \<Longrightarrow> n \<le> n' \<Longrightarrow> chained H h a n' h' b m"
  unfolding chained_def by (meson order_trans)

lemma add_prefix_chained:
  assumes c: "chained H h a n h1 b m" and "length p + length m \<le> MaxMsgLength"
  shows "\<exists>h2 d. add_prefix H h1 b p = (h2, Ok d) \<and> chained H h a (Suc n) h2 d (p @ m)"
proof (cases "p = []")
  case False
  then have "op_ok (PrependOp p)" "op_Apply H (PrependOp p) m = Ok (p @ m)"
    using assms(2) by (auto simp: MaxResultLength_def MaxMsgLength_def intro!: op_Apply_append(2) simp del: op_Apply.simps)
  with AddOp_chained [OF c this] False show ?thesis by (simp add: add_prefix_def NewPrepend_eq)
qed (use chained_mono [OF c] in \<open>auto simp: add_prefix_def\<close>)

lemma add_suffix_chained:
  assumes c: "chained H h a n h1 b m" and "length m + length p \<le> MaxMsgLength"
  shows "\<exists>h2 d. add_suffix H h1 b p = (h2, Ok d) \<and> chained H h a (Suc n) h2 d (m @ p)"
proof (cases "p = []")
  case False
  then have "op_ok (AppendOp p)" "op_Apply H (AppendOp p) m = Ok (m @ p)"
    using assms(2) by (auto simp: MaxResultLength_def MaxMsgLength_def intro!: op_Apply_append(1) simp del: op_Apply.simps)
  with AddOp_chained [OF c this] False show ?thesis by (simp add: add_suffix_def NewAppend_eq)
qed (use chained_mono [OF c] in \<open>auto simp: add_suffix_def\<close>)

lemma SHA256_chained:
  assumes c: "chained H h a n h1 b m" and "hash_sizes H" and "length m \<le> MaxMsgLength"
  shows "\<exists>h2 d. heap_AddOp H h1 b NewSHA256 = (h2, Ok d) \<and> chained H h a (Suc n) h2 d (sha256_Sum256 H m)"
  using AddOp_chained [OF c _ op_Apply_SHA256 [OF assms(2,3)]] by (simp add: NewSHA256_def)

section \<open>The leaves\<close>

lemma block_leaves_ok:
  assumes "leaf h node" and "\<forall>t \<in> set txids. length t = 32"
    and "\<And>k. k < length txids \<Longrightarrow> int (j + k) = txIndex \<Longrightarrow> txids ! k = n_Msg (h ! node)"
  shows "\<exists>news level. block_leaves h node txIndex j txids = (h @ map fresh_node news, Ok level) \<and>
    (\<forall>m \<in> set news. length m = 32) \<and> (\<forall>a \<in> set level. leaf (h @ map fresh_node news) a) \<and>
    msgs (h @ map fresh_node news) level = txids \<and> distinct level \<and>
    set level \<subseteq> insert node {length h..} \<and>
    (node \<in> set level \<longleftrightarrow> (\<exists>k < length txids. int (j + k) = txIndex))"
  using assms
proof (induction txids arbitrary: h j)
  case Nil
  show ?case by (intro exI [of _ "[]"]) (simp add: msgs_def)
next
  case (Cons t ts)
  have ex: "(\<exists>k < length (t # ts). int (j + k) = txIndex) \<longleftrightarrow> int j = txIndex \<or> (\<exists>k < length ts. int (Suc j + k) = txIndex)"
    by (auto simp: less_Suc_eq_0_disj)
  have node: "node < length h" using Cons.prems(1) by (simp add: leaf_def)
  show ?case
  proof (cases "int j = txIndex")
    case True
    have "txids ! k = n_Msg (h ! node)" if "k < length ts" "int (Suc j + k) = txIndex" for k txids
      using that True by simp
    with Cons.IH [of h "Suc j"] Cons.prems(1,2) obtain news level where
      r: "block_leaves h node txIndex (Suc j) ts = (h @ map fresh_node news, Ok level)"
      and f: "\<forall>m \<in> set news. length m = 32" "\<forall>a \<in> set level. leaf (h @ map fresh_node news) a"
        "msgs (h @ map fresh_node news) level = ts" "distinct level" "set level \<subseteq> insert node {length h..}"
        "node \<in> set level \<longleftrightarrow> (\<exists>k < length ts. int (Suc j + k) = txIndex)" by force
    have "leaf (h @ map fresh_node news) node" using Cons.prems(1) by (simp add: leaf_def nth_append)
    moreover have "node \<notin> set level" using f(6) True by auto
    moreover have "n_Msg ((h @ map fresh_node news) ! node) = t" using Cons.prems(3) [of 0] True node by (simp add: nth_append)
    ultimately show ?thesis unfolding ex using r f True
      by (intro exI [of _ news] exI [of _ "node # level"]) (auto simp: msgs_def)
  next
    case False
    let ?h = "h @ [fresh_node t]"
    have t: "length t = 32" using Cons.prems(2) by simp
    then have new: "heap_New h t = (?h, Ok (length h))" by (intro heap_New_eq) (simp add: MaxMsgLength_def)
    have "leaf ?h node" using Cons.prems(1) by (simp add: leaf_def nth_append)
    moreover have "ts ! k = n_Msg (?h ! node)" if "k < length ts" "int (Suc j + k) = txIndex" for k
      using Cons.prems(3) [of "Suc k"] that node by (simp add: nth_append)
    ultimately obtain news level where
      r: "block_leaves ?h node txIndex (Suc j) ts = (?h @ map fresh_node news, Ok level)"
      and f: "\<forall>m \<in> set news. length m = 32" "\<forall>a \<in> set level. leaf (?h @ map fresh_node news) a"
        "msgs (?h @ map fresh_node news) level = ts" "distinct level" "set level \<subseteq> insert node {length ?h..}"
        "node \<in> set level \<longleftrightarrow> (\<exists>k < length ts. int (Suc j + k) = txIndex)"
      using Cons.IH [of ?h "Suc j"] Cons.prems(2) by force
    have new_node: "(h @ fresh_node t # map fresh_node news) ! length h = fresh_node t" by simp
    have "leaf (h @ map fresh_node (t # news)) (length h)" using t new_node by (auto simp: leaf_def)
    moreover have "length h \<notin> set level" using f(5) node by auto
    moreover have "msgs (h @ map fresh_node (t # news)) (length h # level) = t # ts"
      using f(3) by (simp add: msgs_def)
    ultimately show ?thesis unfolding ex using r f False new node t
      by (intro exI [of _ "t # news"] exI [of _ "length h # level"]) auto
  qed
qed

section \<open>The inclusion proof\<close>

lemma leaf_of_chained: "chained H h a n h' b m \<Longrightarrow> length m = 32 \<Longrightarrow> leaf h' b"
  by (auto simp: chained_def leaf_def)

lemma transaction_chain:
  assumes "store_ok H h" and H: "hash_sizes H" and "leaf h tip" and "bytes_Index rawTx (n_Msg (h ! tip)) = Some i"
    and "length rawTx \<le> MaxMsgLength"
  shows "\<exists>h1 a h2 b h3 c h4 node. add_prefix H h tip (take i rawTx) = (h1, Ok a) \<and>
    add_suffix H h1 a (drop (i + length (n_Msg (h ! tip))) rawTx) = (h2, Ok b) \<and>
    heap_AddOp H h2 b NewSHA256 = (h3, Ok c) \<and> heap_AddOp H h3 c NewSHA256 = (h4, Ok node) \<and>
    chained H h tip 4 h4 node (sha256d H rawTx)"
proof -
  let ?m = "n_Msg (h ! tip)" and ?p = "take i rawTx" and ?s = "drop (i + length (n_Msg (h ! tip))) rawTx"
  have raw: "rawTx = ?p @ ?m @ ?s" using bytes_Index_SomeD [OF assms(4)] by blast
  then have "length ?p + length ?m + length ?s = length rawTx" by (metis add.assoc length_append)
  then have len: "length ?p + length ?m \<le> MaxMsgLength" "length (?p @ ?m) + length ?s \<le> MaxMsgLength"
    using assms(5) by simp_all
  have "chained H h tip 0 h tip ?m" using assms(1,3) by (intro chained_refl) (auto simp: leaf_def)
  from add_prefix_chained [OF this len(1)] obtain h1 a where 1: "add_prefix H h tip ?p = (h1, Ok a)"
    "chained H h tip (Suc 0) h1 a (?p @ ?m)" by blast
  from add_suffix_chained [OF 1(2) len(2)] obtain h2 b where 2: "add_suffix H h1 a ?s = (h2, Ok b)"
    "chained H h tip (Suc (Suc 0)) h2 b rawTx" using raw by auto
  from SHA256_chained [OF 2(2) H assms(5)] obtain h3 c where 3: "heap_AddOp H h2 b NewSHA256 = (h3, Ok c)"
    "chained H h tip (Suc (Suc (Suc 0))) h3 c (sha256_Sum256 H rawTx)" by blast
  have "length (sha256_Sum256 H rawTx) \<le> MaxMsgLength" using hash_sizesD(1) [OF H] by (simp add: MaxMsgLength_def)
  from SHA256_chained [OF 3(2) H this] obtain h4 node where "heap_AddOp H h3 c NewSHA256 = (h4, Ok node)"
    "chained H h tip 4 h4 node (sha256d H rawTx)" by (auto simp: sha256d_def eval_nat_numeral)
  with 1 2 3 show ?thesis by blast
qed

lemma MakeTimestampFromBlock_run:
  assumes h: "store_ok H h" and H: "hash_sizes H" and tip: "leaf h tip"
    and once: "bytes_Index rawTx (n_Msg (h ! tip)) = Some i" "bytes_Index (drop (i + 1) rawTx) (n_Msg (h ! tip)) = None"
    and len: "length rawTx \<le> MaxMsgLength"
    and tx: "k < length txids" "txids ! k = sha256d H rawTx" "\<forall>t \<in> set txids. length t = 32"
  shows "\<exists>h' root. store_ok H h' \<and> extends h h' \<and> leaf h' root \<and> n_Msg (h' ! root) = block_root H txids \<and>
    grown h h' \<and> (\<exists>k \<le> 3 * levels (length txids) + 4. k + length h \<le> length h' \<and> leads h' root k tip) \<and>
    (root = tip \<or> length h \<le> root) \<and>
    MakeTimestampFromBlock H h tip rawTx (int k) txids merkleRoot =
      (if block_root H txids = merkleRoot then (h', Ok root)
       else (h', Err (ErrorString ''computed merkle root does not match block header'')))"
proof -
  from transaction_chain [OF h H tip once(1) len] obtain h1 a h2 b h3 c h4 node where
    t: "add_prefix H h tip (take i rawTx) = (h1, Ok a)" "add_suffix H h1 a (drop (i + length (n_Msg (h ! tip))) rawTx) = (h2, Ok b)"
      "heap_AddOp H h2 b NewSHA256 = (h3, Ok c)" "heap_AddOp H h3 c NewSHA256 = (h4, Ok node)"
    and ch: "chained H h tip 4 h4 node (sha256d H rawTx)" by blast
  have "0 < length (n_Msg (h ! tip))" using tip by (simp add: leaf_def)
  then have i: "\<not> i + 1 > length rawTx" using bytes_Index_SomeD [OF once(1)] by linarith
  have leafn: "leaf h4 node" using leaf_of_chained [OF ch] hash_sizesD(1) [OF H] by (simp add: sha256d_def)
  have txm: "n_Msg (h4 ! node) = txids ! k" using ch tx(2) by (simp add: chained_def)
  have "txids ! q = n_Msg (h4 ! node)" if "q < length txids" "int (0 + q) = int k" for q using that txm by simp
  from block_leaves_ok [OF leafn tx(3), of 0 "int k", OF this] obtain news level where
    lv: "block_leaves h4 node (int k) 0 txids = (h4 @ map fresh_node news, Ok level)"
      "\<forall>m \<in> set news. length m = 32" "\<forall>x \<in> set level. leaf (h4 @ map fresh_node news) x"
      "msgs (h4 @ map fresh_node news) level = txids" "distinct level" "set level \<subseteq> insert node {length h4..}" and "node \<in> set level \<longleftrightarrow> (\<exists>q < length txids. int (0 + q) = int k)"
    by blast
  then have mem: "node \<in> set level" using tx(1) by auto
  let ?h5 = "h4 @ map fresh_node news"
  have h5: "store_ok H ?h5" "extends h4 ?h5"
  proof -
    have "store_ok H h4" using ch by (simp add: chained_def)
    then show "store_ok H ?h5" using lv(2)
    proof (induction news rule: rev_induct)
      case (snoc m ms)
      then show ?case using store_ok_alloc [of H "h4 @ map fresh_node ms" m] by (simp add: MaxMsgLength_def)
    qed simp
    show "extends h4 ?h5" by (simp add: extends_def nth_append)
  qed
  have g5: "grown h4 ?h5" by (simp add: grown_def nth_append)
  have "level \<noteq> []" using mem by auto
  from block_loop_correct [OF h5(1) H lv(3,5) this] obtain h' root where
    r: "block_loop H ?h5 level = (h', Ok [root])" "store_ok H h'" "extends ?h5 h'" "leaf h' root"
      "n_Msg (h' ! root) = block_root H txids" "grown ?h5 h'" "root \<in> set level \<or> length ?h5 \<le> root"
    and "\<exists>k \<le> 3 * levels (length level). k + length ?h5 \<le> length h' \<and> (\<forall>x \<in> set level. leads h' root k x)"
    using lv(4) by auto
  then obtain k1 where k1: "k1 \<le> 3 * levels (length level)" "k1 + length ?h5 \<le> length h'" "\<forall>x \<in> set level. leads h' root k1 x"
    by blast
  have len_level: "length level = length txids" using arg_cong [OF lv(4), of length] by (simp add: msgs_def)
  from ch obtain k0 where k: "k0 \<le> 4" "k0 + length h \<le> length h4" "leads h4 node k0 tip" "grown h h4" "node = tip \<or> length h \<le> node"
    by (auto simp: chained_def)
  have ext: "extends h4 h'" using extends_trans [OF h5(2) r(3)] .
  have g: "grown h4 h'" using grown_trans [OF g5 r(6)] .
  have "leads h' root (k0 + k1) tip" using leads_trans [OF k(3) g] k1(3) mem by blast
  then have "\<exists>k \<le> 3 * levels (length txids) + 4. k + length h \<le> length h' \<and> leads h' root k tip"
    using k(1,2) k1(1,2) len_level by (intro exI [of _ "k0 + k1"]) simp
  moreover have "grown h h'" using grown_trans [OF k(4) g] .
  moreover have "root = tip \<or> length h \<le> root"
    using r(7) lv(6) k(2,5) by auto
  moreover have "extends h h'" using ch extends_trans [OF _ ext] by (simp add: chained_def)
  moreover have "MakeTimestampFromBlock H h tip rawTx (int k) txids merkleRoot =
      (if block_root H txids = merkleRoot then (h', Ok root)
       else (h', Err (ErrorString ''computed merkle root does not match block header'')))"
    using once i t txm tx(1) lv(1) r(1,5) by (simp add: MakeTimestampFromBlock_def Let_def)
  ultimately show ?thesis using r by blast
qed

section \<open>Properties\<close>

text \<open>
  C13. Block inclusion proofs: if the message of the tip occurs exactly once in a transaction of at most
  4096 bytes, the transaction has the given position in the block, and the merkle root of the transaction
  ids (with Bitcoin's duplication of the last one of an odd level) is the one of the header, then the call
  returns a node on the merkle root, and a chain of operations computes it from the message of the tip.
  With another header root, an absent or repeated message, or a wrong position it returns an error.
\<close>

theorem MakeTimestampFromBlock_correct:
  assumes "store_ok H h" and "hash_sizes H" and "leaf h tip"
  shows "(\<forall>i k. bytes_Index rawTx (n_Msg (h ! tip)) = Some i \<and> bytes_Index (drop (i + 1) rawTx) (n_Msg (h ! tip)) = None \<and>
       length rawTx \<le> MaxMsgLength \<and> k < length txids \<and> txids ! k = sha256d H rawTx \<and> (\<forall>t \<in> set txids. length t = 32) \<longrightarrow>
       (if block_root H txids = merkleRoot
        then (\<exists>h' root xs. MakeTimestampFromBlock H h tip rawTx (int k) txids merkleRoot = (h', Ok root) \<and>
           store_ok H h' \<and> extends h h' \<and> leaf h' root \<and> n_Msg (h' ! root) = merkleRoot \<and>
           reach h' tip xs root \<and> apply_ops H xs (n_Msg (h ! tip)) = Ok merkleRoot)
        else snd (MakeTimestampFromBlock H h tip rawTx (int k) txids merkleRoot) =
           Err (ErrorString ''computed merkle root does not match block header''))) \<and>
    (bytes_Index rawTx (n_Msg (h ! tip)) = None \<longrightarrow>
       MakeTimestampFromBlock H h tip rawTx txIndex txids merkleRoot = (h, Err (ErrorString ''merkle tip not found in transaction''))) \<and>
    (\<forall>i. bytes_Index rawTx (n_Msg (h ! tip)) = Some i \<and> bytes_Index (drop (i + 1) rawTx) (n_Msg (h ! tip)) \<noteq> None \<longrightarrow>
       MakeTimestampFromBlock H h tip rawTx txIndex txids merkleRoot =
         (h, Err (ErrorString ''merkle tip appears more than once in transaction''))) \<and>
    (txIndex < 0 \<or> int (length txids) \<le> txIndex \<longrightarrow>
       \<not> is_ok (snd (MakeTimestampFromBlock H h tip rawTx txIndex txids merkleRoot)))"
proof (intro conjI allI impI, goal_cases)
  case (1 i k)
  then obtain h' root k' where r: "store_ok H h'" "extends h h'" "leaf h' root" "n_Msg (h' ! root) = block_root H txids"
    and l: "leads h' root k' tip" and run: "MakeTimestampFromBlock H h tip rawTx (int k) txids merkleRoot =
      (if block_root H txids = merkleRoot then (h', Ok root)
       else (h', Err (ErrorString ''computed merkle root does not match block header'')))"
    using MakeTimestampFromBlock_run [OF assms, of rawTx i k txids merkleRoot] by blast
  obtain xs where xs: "reach h' tip xs root" using leads_reach [OF l] by blast
  have "tip < length h" using assms(3) by (simp add: leaf_def)
  then have "apply_ops H xs (n_Msg (h ! tip)) = Ok (block_root H txids)"
    using reach_apply_ops [OF xs r(1)] extends_msg [OF r(2)] r(4) by simp
  then show ?case using r xs run by auto
next
  case 2
  then show ?case by (simp add: MakeTimestampFromBlock_def)
next
  case (3 i)
  have "0 < length (n_Msg (h ! tip))" using assms(3) by (simp add: leaf_def)
  then have "\<not> i + 1 > length rawTx" using bytes_Index_SomeD [of rawTx "n_Msg (h ! tip)" i] 3 by linarith
  then show ?case using 3 by (simp add: MakeTimestampFromBlock_def Let_def)
next
  case 4
  then show ?case
    by (auto simp: MakeTimestampFromBlock_def Let_def thenS_def is_ok_iff split: option.splits prod.splits result.splits)
qed

definition sample_tx :: bytes where
  "sample_tx = [1, 2] @ replicate 4 5 @ [3]"

theorem MakeTimestampFromBlock_correct_witness:
  "\<exists>h' root xs. MakeTimestampFromBlock const_hashes [fresh_node (replicate 4 5)] 0 sample_tx (int 1)
       [replicate 32 9, replicate 32 7, replicate 32 8] (replicate 32 7) = (h', Ok root) \<and>
     apply_ops const_hashes xs (replicate 4 5) = Ok (replicate 32 7)"
proof -
  let ?h = "[fresh_node (replicate 4 5)]" and ?t = "[replicate 32 9, replicate 32 7, replicate 32 8] :: bytes list"
  have s: "store_ok const_hashes ?h" "leaf ?h 0" by (simp_all add: store_ok_def leaf_def MaxMsgLength_def)
  have "bytes_Index sample_tx (n_Msg (?h ! 0)) = Some 2" "bytes_Index (drop (2 + 1) sample_tx) (n_Msg (?h ! 0)) = None"
    "length sample_tx \<le> MaxMsgLength" "?t ! 1 = sha256d const_hashes sample_tx" "block_root const_hashes ?t = replicate 32 7"
    by code_simp+
  moreover have "1 < length ?t" "\<forall>t \<in> set ?t. length t = 32" by simp_all
  ultimately show ?thesis
    using MakeTimestampFromBlock_correct [OF s(1) hash_sizes_const s(2), of sample_tx ?t "replicate 32 7" 0, THEN conjunct1,
        rule_format, of 2 1] by (auto simp: fresh_node_def)
qed

text \<open>
  C40. Pairing cannot be repeated: once a node has been combined with another one, combining it again with
  a new node on the same message (as a second attempt at an inclusion proof does, since it allocates the
  siblings anew) fails. The append operation leads to the old node, which has gained operations, and the
  prepend operation to a new one without operations, so that the two are not \<open>Equal\<close>.
\<close>

theorem CatSHA256_again_diverges:
  assumes f: "cat_fits h l r" and H: "hash_sizes H" and lr: "l \<noteq> r"
  shows "\<exists>h1 c h2. CatSHA256 H h (Some l) (Some r) = (h1, Ok c) \<and>
    CatSHA256 H (h1 @ [fresh_node (n_Msg (h ! r))]) (Some l) (Some (length h1)) =
      (h2, Err (ErrorString ''append/prepend paths diverged''))"
proof -
  let ?n = "length h" and ?ml = "n_Msg (h ! l)" and ?mr = "n_Msg (h ! r)"
  let ?A = "AppendOp ?mr" and ?P = "PrependOp ?ml"
  note s = cat_store_sel [OF f, where H = H]
  define g where "g = cat_store H h l r @ [fresh_node ?mr]"
  from f have l: "l < ?n" "0 < length ?ml" "0 < length ?mr" "length ?ml + length ?mr \<le> MaxMsgLength" by (auto simp: cat_fits_def)
  have g: "n_Ops (g ! l) = [(?A, ?n + 1)]" "n_Msg (g ! l) = ?ml" "length g = ?n + 4" "g ! (?n + 3) = fresh_node ?mr"
    "n_Ops (g ! (?n + 1)) = [(SHA256Op, ?n + 2)]"
    using f lr s(1,4) by (simp_all add: g_def cat_store_def cat_fits_def Let_def nth_append nth_list_update)
  have app: "NewAppend ?mr = Ok ?A" and pre: "NewPrepend ?ml = Ok ?P"
    using l by (auto simp: NewAppend_eq NewPrepend_eq MaxResultLength_def MaxMsgLength_def)
  have apA: "op_Apply H ?A ?ml = Ok (?ml @ ?mr)" and apP: "op_Apply H ?P ?mr = Ok (?ml @ ?mr)"
    by (rule op_Apply_append; use l in simp)+
  define h1 where "h1 = g @ [fresh_node (?ml @ ?mr)]"
  have s1: "heap_AddOp H g l ?A = (h1, Ok (?n + 1))"
    using g l op_result_length [OF apA]
    by (simp add: heap_AddOp_def apA heap_New_eq nth_append h1_def del: op_Apply.simps)
  have r1: "h1 ! (?n + 3) = fresh_node ?mr" "length h1 = ?n + 5" "n_Msg (h1 ! l) = ?ml"
    using g l(1) by (simp_all add: h1_def nth_append)
  define h2 where "h2 = h1[?n + 3 := (fresh_node ?mr)\<lparr>n_Ops := [(?P, length h1)]\<rparr>] @ [fresh_node (?ml @ ?mr)]"
  have s2: "heap_AddOp H h1 (?n + 3) ?P = (h2, Ok (length h1))"
    using heap_AddOp_fresh [of "?n + 3" h1 ?P H "?ml @ ?mr"] r1 apP by (simp add: h2_def del: op_Apply.simps)
  have old: "length (n_Ops (h2 ! (?n + 1))) \<noteq> length (n_Ops (h2 ! length h1))"
    using g(3,5) by (simp add: h2_def h1_def nth_append nth_list_update)
  have "0 < length h2" by (simp add: h2_def)
  then have eq: "heap_Equal (length h2) h2 (?n + 1) (length h1) = Ok False" using old by (cases "length h2") simp_all
  have "CatSHA256 H g (Some l) (Some (?n + 3)) = (h2, Err (ErrorString ''append/prepend paths diverged''))"
    using s1 s2 eq g(4) r1(3) by (simp add: CatSHA256_def CatThenUnaryOp_def or_empty_def app pre)
  then show ?thesis using CatSHA256_fresh [OF f H] s(1) by (simp add: g_def)
qed

theorem CatSHA256_again_diverges_witness:
  "\<exists>h1 c h2. CatSHA256 const_hashes sample_store (Some 0) (Some 1) = (h1, Ok c) \<and>
    CatSHA256 const_hashes (h1 @ [fresh_node [2, 2]]) (Some 0) (Some (length h1)) =
      (h2, Err (ErrorString ''append/prepend paths diverged''))"
proof -
  have "cat_fits sample_store 0 1" by (simp add: cat_fits_def sample_store_def MaxMsgLength_def)
  from CatSHA256_again_diverges [OF this hash_sizes_const] show ?thesis by (simp add: sample_store_def)
qed

end
