(* ===== verification/Stamper.thy ===== *)
theory Stamper
  imports Block_Proof Calendar Bitcoin_Client
begin

text \<open>
  The stamper of \<^verbatim>\<open>internal/stamper/stamper.go\<close>: it reads new commitments from the journal, anchors the merkle
  root of the pending ones in a transaction, and once the transaction has enough confirmations stores a
  proof for every commitment of it. The Bitcoin node answers at the time of the call, so a step of the
  stamper takes one \<open>Backend\<close> per transaction it looks at; the order in which Go ranges over a map and
  the clock are arguments too. The objects of a transaction (its tip and its leaves) are referred to by
  nothing else, so each transaction has a heap of its own.
\<close>

section \<open>Configuration, backend, state\<close>

record StamperConfig =
  sc_MinConfirmations :: int
  sc_MinTxInterval :: int
  sc_MaxFee :: int
  sc_MaxPending :: int
  sc_Tick :: int

text \<open>Durations are in nanoseconds. \<open>maxFee\<close> is what \<open>btcutil.NewAmount(0.001)\<close> returns.\<close>

definition DefaultConfig :: "int \<Rightarrow> StamperConfig" where
  "DefaultConfig maxFee =
     \<lparr>sc_MinConfirmations = 6, sc_MinTxInterval = 6 * 3600000000000, sc_MaxFee = maxFee, sc_MaxPending = 100000,
      sc_Tick = 5 * 1000000000\<rparr>"

record Backend =
  be_TxStatus :: "bytes \<Rightarrow> TxStatus result"
  be_BlockTxIDs :: "bytes \<Rightarrow> (int \<times> bytes list) result"
  be_BlockHeader :: "u64 \<Rightarrow> BlockHeader result"
  be_SendOpReturn :: "bytes \<Rightarrow> int \<Rightarrow> (bytes \<times> bytes) result"
  be_HashString :: "bytes \<Rightarrow> string"

text \<open>\<open>*bitcoin.Client satisfies it\<close>.\<close>

definition client_backend :: "'j BtcClient \<Rightarrow> Backend" where
  "client_backend c =
     \<lparr>be_TxStatus = btc_TxStatus c, be_BlockTxIDs = BlockTxIDs c, be_BlockHeader = btc_BlockHeader c,
      be_SendOpReturn = (\<lambda>data maxFee. snd (SendOpReturn c data maxFee)), be_HashString = Hash_String (bc_rpc c)\<rparr>"

record unconfirmedTx =
  u_txid :: bytes
  u_rawTx :: bytes
  u_tip :: nat
  u_leaves :: "(bytes \<times> nat) list"
  u_sentAt :: int
  u_heap :: store

record 's Stamper =
  sm_journal :: Journal
  sm_store :: "'s Storage"
  sm_cfg :: StamperConfig
  sm_pending :: "bytes list"
  sm_unconfirmed :: "unconfirmedTx list"
  sm_cursor :: u64
  sm_lastTxTime :: "int option"

text \<open>
  What a step meets: the node at the \<open>k\<close>-th transaction, the order of the \<open>k\<close>-th range over a map, the clock,
  and the transaction codec that \<open>StripWitness\<close> calls.
\<close>

record 'tx world =
  w_btc :: "nat \<Rightarrow> Backend"
  w_order :: "nat \<Rightarrow> bytes list \<Rightarrow> bytes list"
  w_now :: int
  w_sentAt :: int
  w_lastTx :: int
  w_tx_Deserialize :: "bytes \<Rightarrow> 'tx result"
  w_tx_SerializeNoWitness :: "'tx \<Rightarrow> bytes result"

text \<open>
  \<open>New\<close> has a further parameter, the node \<open>btc\<close>, which it keeps for every later call. The node is outside the program
  and may answer the same call differently each time, so the stamper has no field for it: each step is given the answers
  of that one node in its world (\<open>w_btc\<close>; for the client of the program they are those of \<open>client_backend\<close>).
\<close>

definition NewStamper :: "Journal \<Rightarrow> 's Storage \<Rightarrow> StamperConfig \<Rightarrow> 's Stamper" where
  "NewStamper journal st cfg =
     \<lparr>sm_journal = journal, sm_store = st, sm_cfg = (if sc_Tick cfg \<le> 0 then cfg\<lparr>sc_Tick := 5 * 1000000000\<rparr> else cfg),
      sm_pending = [], sm_unconfirmed = [], sm_cursor = 0, sm_lastTxTime = None\<rparr>"

text \<open>A map with empty structs as values is the list of its keys.\<close>

definition set_pending :: "bytes \<Rightarrow> 's Stamper \<Rightarrow> 's Stamper" where
  "set_pending c s = s\<lparr>sm_pending := (if c \<in> set (sm_pending s) then sm_pending s else sm_pending s @ [c])\<rparr>"

section \<open>Recovery\<close>

definition is_bitcoin :: "attestation \<Rightarrow> bool" where
  "is_bitcoin att = (case att of BitcoinBlockHeaderAttestation _ \<Rightarrow> True | _ \<Rightarrow> False)"

definition isConfirmed :: "'s Stamper \<Rightarrow> bytes \<Rightarrow> bool result" where
  "isConfirmed s commitment =
     (case so_Get (sm_store s) (so_state (sm_store s)) commitment of
        Panic p \<Rightarrow> Panic p
      | Err e \<Rightarrow> Ok False
      | Ok ts \<Rightarrow> Ok (list_ex (\<lambda>(m, att). is_bitcoin att) (AllAttestations ts)))"

fun recover_loop :: "'s Stamper \<Rightarrow> u64 list \<Rightarrow> 's Stamper \<times> unit result" where
  "recover_loop s [] = (s, Ok ())"
| "recover_loop s (i # is) =
     (case Read (sm_journal s) i of
        Panic p \<Rightarrow> (s, Panic p)
      | Err e \<Rightarrow> (s, Err e)
      | Ok commitment \<Rightarrow>
          (case isConfirmed s commitment of
             Panic p \<Rightarrow> (s, Panic p)
           | Err e \<Rightarrow> (s, Err e)
           | Ok confirmed \<Rightarrow> recover_loop (if confirmed then s else set_pending commitment s) is))"

definition Recover :: "'s Stamper \<Rightarrow> 's Stamper \<times> unit result" where
  "Recover s =
     (let n = Len (sm_journal s)
      in case recover_loop s (map word_of_nat [0..<unat n]) of
           (s', Ok _) \<Rightarrow> (s'\<lparr>sm_cursor := n\<rparr>, Ok ())
         | (s', r) \<Rightarrow> (s', r))"

section \<open>A step\<close>

lemma unat_succ: "x < n \<Longrightarrow> unat (x + 1 :: u64) = Suc (unat x)"
  using unsigned_less [of n, where ?'a = nat] by (simp add: word_less_nat_alt unat_word_ariths(1))

function ingest_loop :: "u64 \<Rightarrow> 's Stamper \<Rightarrow> 's Stamper \<times> unit result" where
  "ingest_loop n s =
     (if sm_cursor s < n then
        if int (length (sm_pending s)) \<ge> sc_MaxPending (sm_cfg s) then (s, Ok ())
        else
          (case Read (sm_journal s) (sm_cursor s) of
             Panic p \<Rightarrow> (s, Panic p)
           | Err e \<Rightarrow> (s, Ok ())
           | Ok commitment \<Rightarrow> ingest_loop n ((set_pending commitment s)\<lparr>sm_cursor := sm_cursor s + 1\<rparr>))
      else (s, Ok ()))"
  by pat_completeness auto
termination
proof (relation "measure (\<lambda>(n, s). unat n - unat (sm_cursor s))", goal_cases)
  case (2 n s c)
  then have "unat (sm_cursor s + 1) = Suc (unat (sm_cursor s))" by (intro unat_succ) simp
  with 2 show ?case by (simp add: word_less_nat_alt)
qed simp

declare ingest_loop.simps [simp del]

definition ingestJournal :: "'s Stamper \<Rightarrow> 's Stamper \<times> unit result" where
  "ingestJournal s = ingest_loop (Len (sm_journal s)) s"

text \<open>Ranging over \<open>utx.leaves\<close>.\<close>

definition range_leaves :: "(bytes list \<Rightarrow> bytes list) \<Rightarrow> (bytes \<times> nat) list \<Rightarrow> (bytes \<times> nat) list" where
  "range_leaves ord leaves = map (\<lambda>c. (c, the (map_of leaves c))) (ord (map fst leaves))"

fun put_leaves :: "store \<Rightarrow> (bytes \<times> nat) list \<Rightarrow> 's Storage \<Rightarrow> 's Storage \<times> unit result" where
  "put_leaves h [] st = (st, Ok ())"
| "put_leaves h ((c, a) # leaves) st =
     (case unfold (length h) h a of
        Panic p \<Rightarrow> (st, Panic p)
      | Err e \<Rightarrow> (st, Err e)
      | Ok ts \<Rightarrow>
          (case so_Put st (so_state st) c ts of
             (x, Ok _) \<Rightarrow> put_leaves h leaves (st\<lparr>so_state := x\<rparr>)
           | (x, r) \<Rightarrow> (st\<lparr>so_state := x\<rparr>, r)))"

fun index_of :: "bytes \<Rightarrow> bytes list \<Rightarrow> nat option" where
  "index_of x [] = None"
| "index_of x (y # ys) = (if x = y then Some 0 else map_option Suc (index_of x ys))"

definition finalize ::
  "hashes \<Rightarrow> Backend \<Rightarrow> (bytes list \<Rightarrow> bytes list) \<Rightarrow> 's Stamper \<Rightarrow> unconfirmedTx \<Rightarrow> bytes \<Rightarrow>
   's Stamper \<times> unconfirmedTx \<times> unit result"
where
  "finalize H btc ord s utx blockHash =
     (case be_BlockTxIDs btc blockHash of
        Panic p \<Rightarrow> (s, utx, Panic p)
      | Err e \<Rightarrow> (s, utx, Err e)
      | Ok (height, txids) \<Rightarrow>
          (case index_of (u_txid utx) txids of
             None \<Rightarrow> (s, utx, Err (ErrorString (''tx '' @ be_HashString btc (u_txid utx) @ '' not found in block '' @
                        be_HashString btc blockHash)))
           | Some txIndex \<Rightarrow>
               (case be_BlockHeader btc (word_of_int height) of
                  Panic p \<Rightarrow> (s, utx, Panic p)
                | Err e \<Rightarrow> (s, utx, Err e)
                | Ok header \<Rightarrow>
                    (case MakeTimestampFromBlock H (u_heap utx) (u_tip utx) (u_rawTx utx) (int txIndex) txids
                            (bh_MerkleRoot header) of
                       (h, Panic p) \<Rightarrow> (s, utx\<lparr>u_heap := h\<rparr>, Panic p)
                     | (h, Err e) \<Rightarrow> (s, utx\<lparr>u_heap := h\<rparr>, Err e)
                     | (h, Ok root) \<Rightarrow>
                         (let att = BitcoinBlockHeaderAttestation (word_of_int height);
                              h' = add_pending h root att;
                              utx' = utx\<lparr>u_heap := h'\<rparr>
                          in case put_leaves h' (range_leaves ord (u_leaves utx)) (sm_store s) of
                               (st, r) \<Rightarrow> (s\<lparr>sm_store := st\<rparr>, utx', r))))))"

text \<open>
  The loop of \<open>trackConfirmations\<close> over the transactions from the \<open>k\<close>-th on, with the value of
  \<open>remaining\<close> as its result.
\<close>

fun requeue :: "bytes list \<Rightarrow> 's Stamper \<Rightarrow> 's Stamper" where
  "requeue [] s = s"
| "requeue (c # cs) s = requeue cs (set_pending c s)"

fun track_loop :: "hashes \<Rightarrow> 'tx world \<Rightarrow> nat \<Rightarrow> unconfirmedTx list \<Rightarrow> 's Stamper \<Rightarrow> 's Stamper \<times> unconfirmedTx list result" where
  "track_loop H w k [] s = (s, Ok [])"
| "track_loop H w k (utx # utxs) s =
     (let keep = (\<lambda>s utx. case track_loop H w (Suc k) utxs s of (s', r) \<Rightarrow> (s', andThen r (\<lambda>rest. Ok (utx # rest))))
      in case be_TxStatus (w_btc w k) (u_txid utx) of
           Panic p \<Rightarrow> (s, Panic p)
         | Err e \<Rightarrow> keep s utx
         | Ok st \<Rightarrow>
             if tx_Confirmations st < 0 then
               track_loop H w (Suc k) utxs (requeue (w_order w k (map fst (u_leaves utx))) s)
             else if tx_Confirmations st \<ge> sc_MinConfirmations (sm_cfg s) \<and> tx_BlockHash st \<noteq> None then
               (case finalize H (w_btc w k) (w_order w k) s utx (the (tx_BlockHash st)) of
                  (s', utx', Ok _) \<Rightarrow> track_loop H w (Suc k) utxs s'
                | (s', utx', Err e) \<Rightarrow> keep s' utx'
                | (s', utx', Panic p) \<Rightarrow> (s', Panic p))
             else keep s utx)"

definition trackConfirmations :: "hashes \<Rightarrow> 'tx world \<Rightarrow> 's Stamper \<Rightarrow> 's Stamper \<times> unit result" where
  "trackConfirmations H w s =
     (case track_loop H w 0 (sm_unconfirmed s) s of
        (s', Ok remaining) \<Rightarrow> (s'\<lparr>sm_unconfirmed := remaining\<rparr>, Ok ())
      | (s', Err e) \<Rightarrow> (s', Err e)
      | (s', Panic p) \<Rightarrow> (s', Panic p))"

text \<open>The first loop of \<open>maybeSendTx\<close>: the heap, the leaves, their hashes, and the commitments still pending.\<close>

type_synonym leaves_state = "store \<times> (bytes \<times> nat) list \<times> nat list \<times> bytes list"

fun build_leaves :: "hashes \<Rightarrow> bytes list \<Rightarrow> leaves_state \<Rightarrow> leaves_state result" where
  "build_leaves H [] x = Ok x"
| "build_leaves H (c # cs) (h, leaves, shaLeaves, pending) =
     (case heap_New h c of
        (h1, Panic p) \<Rightarrow> Panic p
      | (h1, Err e) \<Rightarrow> build_leaves H cs (h1, leaves, shaLeaves, removeAll c pending)
      | (h1, Ok a) \<Rightarrow>
          (case heap_AddOp H h1 a NewSHA256 of
             (h2, Panic p) \<Rightarrow> Panic p
           | (h2, Err e) \<Rightarrow> build_leaves H cs (h2, leaves, shaLeaves, removeAll c pending)
           | (h2, Ok sha) \<Rightarrow> build_leaves H cs (h2, leaves @ [(c, a)], shaLeaves @ [sha], pending)))"

definition maybeSendTx :: "hashes \<Rightarrow> 'tx world \<Rightarrow> nat \<Rightarrow> 's Stamper \<Rightarrow> 's Stamper \<times> unit result" where
  "maybeSendTx H w k s =
     (if length (sm_pending s) = 0 then (s, Ok ())
      else if (case sm_lastTxTime s of None \<Rightarrow> False | Some t \<Rightarrow> w_now w - t < sc_MinTxInterval (sm_cfg s)) then (s, Ok ())
      else
        (case build_leaves H (w_order w k (sm_pending s)) ([], [], [], sm_pending s) of
           Panic p \<Rightarrow> (s, Panic p)
         | Err e \<Rightarrow> (s, Err e)
         | Ok (h, leaves, shaLeaves, pending) \<Rightarrow>
             (let s1 = s\<lparr>sm_pending := pending\<rparr>
              in if length shaLeaves = 0 then (s1, Ok ())
                 else
                   (case MakeMerkleTree H h shaLeaves of
                      (h1, Panic p) \<Rightarrow> (s1, Panic p)
                    | (h1, Err e) \<Rightarrow> (s1, Ok ())
                    | (h1, Ok None) \<Rightarrow> (s1, Panic nil_deref)
                    | (h1, Ok (Some tip)) \<Rightarrow>
                        (case be_SendOpReturn (w_btc w k) (n_Msg (h1 ! tip)) (sc_MaxFee (sm_cfg s1)) of
                           Panic p \<Rightarrow> (s1, Panic p)
                         | Err e \<Rightarrow> (s1, Ok ())
                         | Ok (txid, rawTx) \<Rightarrow>
                             (case StripWitness (w_tx_Deserialize w) (w_tx_SerializeNoWitness w) rawTx of
                                Panic p \<Rightarrow> (s1, Panic p)
                              | Err e \<Rightarrow> (s1, Ok ())
                              | Ok stripped \<Rightarrow>
                                  (s1\<lparr>sm_pending := filter (\<lambda>c. c \<notin> fst ` set leaves) (sm_pending s1),
                                      sm_unconfirmed := sm_unconfirmed s1 @
                                        [\<lparr>u_txid = txid, u_rawTx = stripped, u_tip = tip, u_leaves = leaves,
                                          u_sentAt = w_sentAt w, u_heap = h1\<rparr>],
                                      sm_lastTxTime := Some (w_lastTx w)\<rparr>, Ok ())))))))"

definition stamper_step :: "hashes \<Rightarrow> 'tx world \<Rightarrow> 's Stamper \<Rightarrow> 's Stamper \<times> unit result" where
  "stamper_step H w s =
     (case ingestJournal s of
        (s1, Ok _) \<Rightarrow>
          (case trackConfirmations H w s1 of
             (s2, Ok _) \<Rightarrow> maybeSendTx H w (length (sm_unconfirmed s1)) s2
           | (s2, r) \<Rightarrow> (s2, r))
      | (s1, r) \<Rightarrow> (s1, r))"

text \<open>
  \<open>Run\<close>, given what its \<open>select\<close> meets: the end of the context, or a tick, at which the journal and the store
  are as their other user, the calendar service, has left them.
\<close>

datatype ('tx, 's) run_event = CtxDone | TickAt Journal "'s Storage" "'tx world"

fun Run :: "hashes \<Rightarrow> ('tx, 's) run_event list \<Rightarrow> 's Stamper \<Rightarrow> 's Stamper \<times> unit result" where
  "Run H [] s = (s, Ok ())"
| "Run H (CtxDone # es) s = (s, Ok ())"
| "Run H (TickAt j st w # es) s =
     (case stamper_step H w (s\<lparr>sm_journal := j, sm_store := st\<rparr>) of
        (s', Ok _) \<Rightarrow> Run H es s'
      | (s', r) \<Rightarrow> (s', r))"

section \<open>Queries\<close>

definition IsPending :: "'s Stamper \<Rightarrow> bytes \<Rightarrow> bool" where
  "IsPending s commitment \<longleftrightarrow>
     commitment \<in> set (sm_pending s) \<or>
     list_ex (\<lambda>utx. map_of (u_leaves utx) commitment \<noteq> None) (sm_unconfirmed s)"

record StamperStatus =
  ss_Pending :: nat
  ss_UnconfirmedTxs :: nat
  ss_LastTxTime :: "int option"

definition Status :: "'s Stamper \<Rightarrow> StamperStatus" where
  "Status s = \<lparr>ss_Pending = length (sm_pending s), ss_UnconfirmedTxs = length (sm_unconfirmed s),
     ss_LastTxTime = sm_lastTxTime s\<rparr>"

section \<open>From a leaf to a stored proof\<close>

text \<open>The calls that build a heap attach no attestations: whatever holds of those on it still does.\<close>

definition atts_in :: "(attestation \<Rightarrow> bool) \<Rightarrow> store \<Rightarrow> bool" where
  "atts_in P h \<longleftrightarrow> (\<forall>n \<in> set h. list_all P (n_Attestations n))"

lemma atts_in_simps [simp]: "atts_in P []" "atts_in P (h @ [fresh_node m]) \<longleftrightarrow> atts_in P h"
  by (auto simp: atts_in_def)

lemma atts_in_ops: "atts_in P h \<Longrightarrow> atts_in P (h[t := (h ! t)\<lparr>n_Ops := ops\<rparr>])"
  by (cases "t < length h") (auto simp: atts_in_def list_update_beyond dest!: set_update_subset_insert [THEN subsetD])

lemma atts_in_New: "atts_in P h \<Longrightarrow> atts_in P (fst (heap_New h m))"
  by (simp add: heap_New_def)

lemma atts_in_AddOp: "atts_in P h \<Longrightarrow> atts_in P (fst (heap_AddOp H h t x))"
  using atts_in_ops [of P "h @ [fresh_node m]" for m] atts_in_ops [of P h]
  by (auto simp: heap_AddOp_def heap_New_def split: result.splits option.splits)

lemma atts_in_SetOpResult: "atts_in P h \<Longrightarrow> atts_in P (fst (SetOpResult h t x s))"
  using atts_in_ops [of P h t] by (auto simp: SetOpResult_def split: option.splits)

lemma atts_in_thenS:
  "atts_in P (fst m) \<Longrightarrow> (\<And>h x. atts_in P h \<Longrightarrow> atts_in P (fst (f h x))) \<Longrightarrow> atts_in P (fst (thenS m f))"
  by (cases m; cases "snd m") auto

lemma atts_in_or_empty: "atts_in P h \<Longrightarrow> atts_in P (fst (or_empty h p))"
  by (cases p) (simp_all add: or_empty_def atts_in_New)

lemmas atts_in_rules = atts_in_New atts_in_AddOp atts_in_SetOpResult atts_in_or_empty

lemma atts_in_CatSHA256: "atts_in P h \<Longrightarrow> atts_in P (fst (CatSHA256 H h l r))"
  unfolding CatSHA256_def CatThenUnaryOp_def
  by (intro atts_in_thenS) (auto intro!: atts_in_rules atts_in_thenS)

lemma atts_in_CatSHA256d: "atts_in P h \<Longrightarrow> atts_in P (fst (CatSHA256d H h l r))"
  unfolding CatSHA256d_def by (intro atts_in_thenS atts_in_CatSHA256 atts_in_AddOp)

lemma atts_in_merkle_pass: "atts_in P h \<Longrightarrow> atts_in P (fst (merkle_pass H h prev xs next))"
proof (induction H h prev xs "next" rule: merkle_pass.induct)
  case (3 H h p x xs "next")
  then show ?case using atts_in_CatSHA256 [of P h H "Some p" "Some x"] by (auto split: prod.splits result.splits)
qed simp_all

lemma atts_in_MakeMerkleTree: "atts_in P h \<Longrightarrow> atts_in P (fst (MakeMerkleTree H h stamps))"
proof -
  have "atts_in P h \<Longrightarrow> atts_in P (fst (merkle_loop H h xs))" for h xs
  proof (induction H h xs rule: merkle_loop.induct)
    case (1 H h xs)
    then show ?case using atts_in_merkle_pass [OF "1.prems", of H None xs "[]"]
      by (subst merkle_loop.simps) (auto split: prod.splits result.splits)
  qed
  then show "atts_in P h \<Longrightarrow> ?thesis" by (simp add: MakeMerkleTree_def)
qed

lemma atts_in_block_leaves: "atts_in P h \<Longrightarrow> atts_in P (fst (block_leaves h node i j txids))"
proof (induction txids arbitrary: h j)
  case (Cons t ts)
  have pure: "atts_in P (fst (thenS m (\<lambda>h l. (h, Ok (g l)))))" if "atts_in P (fst m)" for m :: "store \<times> nat list result" and g :: "nat list \<Rightarrow> nat list"
    using that by (intro atts_in_thenS) simp_all
  show ?case unfolding block_leaves.simps
  proof (cases "int j = i", goal_cases)
    case 1
    with pure [OF Cons.IH [OF Cons.prems]] show ?case by simp
  next
    case 2
    have "atts_in P (fst (thenS (heap_New h t) (\<lambda>h ts'. thenS (block_leaves h node i (Suc j) ts) (\<lambda>h level. (h, Ok (ts' # level))))))"
      by (intro atts_in_thenS pure atts_in_New Cons.IH Cons.prems)
    with 2 show ?case by simp
  qed
qed simp

lemma atts_in_block_pass: "atts_in P h \<Longrightarrow> atts_in P (fst (block_pass H h xs))"
proof (induction xs arbitrary: h rule: pairs_ok.induct)
  case (3 x y zs)
  show ?case unfolding block_pass.simps
    by (intro atts_in_thenS atts_in_CatSHA256d "3.prems" "3.IH") simp_all
qed simp_all

lemma atts_in_block_loop: "atts_in P h \<Longrightarrow> atts_in P (fst (block_loop H h xs))"
proof (induction H h xs rule: block_loop.induct)
  case (1 H h xs)
  then show ?case using atts_in_block_pass [OF "1.prems", of H "duplicate_last xs"]
    by (subst block_loop.simps) (auto simp: thenS_def split: prod.splits result.splits)
qed

lemma atts_in_MakeTimestampFromBlock:
  "atts_in P h \<Longrightarrow> atts_in P (fst (MakeTimestampFromBlock H h tip rawTx i txids root))"
  unfolding MakeTimestampFromBlock_def add_prefix_def add_suffix_def
  by (auto simp: Let_def split: option.splits
      intro!: atts_in_thenS atts_in_rules atts_in_block_leaves atts_in_block_loop)
definition unattested :: "store \<Rightarrow> bool" where
  "unattested h \<longleftrightarrow> (\<forall>n \<in> set h. n_Attestations n = [])"

lemma unattested_iff: "unattested h \<longleftrightarrow> atts_in (\<lambda>_. False) h"
proof -
  have "list_all (\<lambda>_. False) xs \<longleftrightarrow> xs = []" for xs :: "attestation list" by (cases xs) simp_all
  then show ?thesis by (simp add: unattested_def atts_in_def)
qed

lemma unattested_MakeMerkleTree: "unattested h \<Longrightarrow> unattested (fst (MakeMerkleTree H h stamps))"
  by (simp add: unattested_iff atts_in_MakeMerkleTree)

lemma unattested_MakeTimestampFromBlock:
  "unattested h \<Longrightarrow> unattested (fst (MakeTimestampFromBlock H h tip rawTx i txids root))"
  by (simp add: unattested_iff atts_in_MakeTimestampFromBlock)

lemma unattested_empty [simp]: "unattested []"
  by (simp add: unattested_def)

text \<open>A way to an attested node unfolds to a proof that can be stored.\<close>

definition atts_ok :: "store \<Rightarrow> bool" where
  "atts_ok h \<longleftrightarrow> (\<forall>n \<in> set h. list_all att_ok (n_Attestations n))"

lemma unfold_ops_Ok:
  "(\<And>x b. (x, b) \<in> set ops \<Longrightarrow> \<exists>ts. unfold n h b = Ok ts \<and> P x b ts) \<Longrightarrow>
   \<exists>us. unfold_ops n h ops = Ok us \<and> list_all2 (\<lambda>(x, b) (y, ts). y = x \<and> P x b ts) ops us"
proof (induction ops)
  case (Cons e ops)
  obtain x b where e: "e = (x, b)" by (cases e)
  from Cons e obtain ts us where "unfold n h b = Ok ts" "P x b ts" "unfold_ops n h ops = Ok us"
    "list_all2 (\<lambda>(x, b) (y, ts). y = x \<and> P x b ts) ops us" by fastforce
  then show ?case by (auto simp: e)
qed simp

definition proof_of :: "hashes \<Rightarrow> store \<Rightarrow> nat \<Rightarrow> nat \<Rightarrow> nat \<Rightarrow> Timestamp \<Rightarrow> bool" where
  "proof_of H h r k a ts \<longleftrightarrow> linked H ts \<and> full ts \<and> ts_depth ts \<le> Suc k \<and> ts_Msg ts = n_Msg (h ! a) \<and>
     (\<forall>att \<in> set (n_Attestations (h ! r)). (n_Msg (h ! r), att) \<in> set (AllAttestations ts))"

lemma leads_unfold:
  assumes "leads h r k a" and h: "store_ok H h" "atts_ok h" and r: "n_Attestations (h ! r) \<noteq> []" and "k < n"
  shows "\<exists>ts. unfold n h a = Ok ts \<and> proof_of H h r k a ts"
  using assms(1,5)
proof (induction arbitrary: n rule: leads.induct)
  case (leads_here k)
  then obtain m where n: "n = Suc m" by (cases n) auto
  have "h ! r \<in> set h" using leads_here by simp
  with h r leads_here n show ?case by (auto simp: proof_of_def store_ok_def atts_ok_def)
next
  case (leads_step a k)
  from leads_step.prems obtain m where n: "n = Suc m" "k < m" by (cases n) auto
  let ?n = "h ! a"
  have a: "?n \<in> set h" using leads_step.hyps(1) by simp
  from unfold_ops_Ok [of "n_Ops ?n" m h "\<lambda>x b ts. proof_of H h r k b ts"] leads_step.IH n(2)
  obtain us where us: "unfold_ops m h (n_Ops ?n) = Ok us"
    "list_all2 (\<lambda>(x, b) (y, ts). y = x \<and> proof_of H h r k b ts) (n_Ops ?n) us" by blast
  have each: "\<exists>b. (y, b) \<in> set (n_Ops ?n) \<and> proof_of H h r k b ts" if "(y, ts) \<in> set us" for y ts
    using us(2) that by (fastforce simp: list_all2_conv_all_nth in_set_conv_nth)
  have ne: "us \<noteq> []" using us(2) leads_step.hyps(2) by auto
  have "op_ok y \<and> op_Apply H y (n_Msg ?n) = Ok (ts_Msg ts)" if "(y, ts) \<in> set us" for y ts
    using each [OF that] h(1) a by (force simp: store_ok_def edge_ok_def proof_of_def)
  then have "linked H (Timestamp (n_Msg ?n) (n_Attestations ?n) us)"
    using h a each
    by (fastforce simp: store_ok_def atts_ok_def list_all_iff proof_of_def)
  moreover have "full (Timestamp (n_Msg ?n) (n_Attestations ?n) us)"
    using ne each by (fastforce simp: list_all_iff proof_of_def)
  moreover have "ts_depth (Timestamp (n_Msg ?n) (n_Attestations ?n) us) \<le> Suc (Suc k)"
    using each by (auto simp only: ts_depth_le proof_of_def)
  moreover have "(n_Msg (h ! r), att) \<in> set (AllAttestations (Timestamp (n_Msg ?n) (n_Attestations ?n) us))"
    if "att \<in> set (n_Attestations (h ! r))" for att
  proof -
    obtain y ts where y: "(y, ts) \<in> set us" using ne by (metis list.set_intros(1) neq_Nil_conv surj_pair)
    then have "(n_Msg (h ! r), att) \<in> set (AllAttestations ts)" using each that by (auto simp: proof_of_def)
    with y show ?thesis by (auto intro!: bexI [of _ "(y, ts)"])
  qed
  ultimately show ?case using us(1) n(1) by (simp add: proof_of_def)
qed

lemma leads_ops: "leads h r k a \<Longrightarrow> length h' = length h \<Longrightarrow> (\<And>b. n_Ops (h' ! b) = n_Ops (h ! b)) \<Longrightarrow> leads h' r k a"
proof (induction rule: leads.induct)
  case (leads_step a k)
  then show ?case by (intro leads.leads_step) auto
qed (auto intro: leads.leads_here)

lemma add_pending_ops: "n_Ops (add_pending h r att ! b) = n_Ops (h ! b)" "length (add_pending h r att) = length h"
    "n_Msg (add_pending h r att ! b) = n_Msg (h ! b)"
  by (cases "r < length h"; cases "b = r"; simp add: add_pending_def list_update_beyond)+

text \<open>
  The objects of a transaction as \<open>maybeSendTx\<close> makes them: the leaves are on their commitments, and all
  ways from them end in the tip.
\<close>

definition anchored :: "hashes \<Rightarrow> unconfirmedTx \<Rightarrow> bool" where
  "anchored H u \<longleftrightarrow> store_ok H (u_heap u) \<and> unattested (u_heap u) \<and> leaf (u_heap u) (u_tip u) \<and>
     distinct (map fst (u_leaves u)) \<and>
     (\<exists>k \<le> 2 * levels (length (u_leaves u)) + 1. k < length (u_heap u) \<and>
       (\<forall>(c, a) \<in> set (u_leaves u). n_Msg (u_heap u ! a) = c \<and> a < length (u_heap u) \<and> leads (u_heap u) (u_tip u) k a))"

definition leaves_ok :: "hashes \<Rightarrow> store \<Rightarrow> (bytes \<times> nat) list \<Rightarrow> nat list \<Rightarrow> bool" where
  "leaves_ok H h leaves shas \<longleftrightarrow> store_ok H h \<and> unattested h \<and> (\<forall>x \<in> set shas. leaf h x) \<and> distinct shas \<and> length h = 2 * length leaves \<and>
     msgs h shas = map (\<lambda>(c, a). sha256_Sum256 H c) leaves \<and>
     (\<forall>(c, a) \<in> set leaves. n_Msg (h ! a) = c \<and> a < length h \<and> (\<exists>x \<in> set shas. leads h x 1 a))"

lemma grown_append: "grown h (h @ k)"
  by (simp add: grown_def nth_append)

lemma leads_leaf: "leaf h x \<Longrightarrow> leads h x 0 x"
  by (intro leads_here) (simp_all add: leaf_def)

lemma build_leaf:
  assumes ok: "leaves_ok H h leaves shas" and c: "length c \<le> MaxMsgLength" and H: "hash_sizes H"
  shows "\<exists>h1 h2. heap_New h c = (h1, Ok (length h)) \<and> heap_AddOp H h1 (length h) NewSHA256 = (h2, Ok (Suc (length h))) \<and>
    leaves_ok H h2 (leaves @ [(c, length h)]) (shas @ [Suc (length h)])"
proof -
  let ?n = "length h" and ?m = "sha256_Sum256 H c"
  define h1 where "h1 = h @ [fresh_node c]"
  define h2 where "h2 = h @ [\<lparr>n_Msg = c, n_Attestations = [], n_Ops = [(SHA256Op, Suc ?n)]\<rparr>, fresh_node ?m]"
  have new: "heap_New h c = (h1, Ok ?n)" using heap_New_eq [OF c] by (simp add: h1_def)
  have ap: "op_Apply H SHA256Op (n_Msg (h1 ! ?n)) = Ok ?m" using op_Apply_SHA256 [OF H c] by (simp add: h1_def)
  have add: "heap_AddOp H h1 ?n NewSHA256 = (h2, Ok (Suc ?n))"
    using heap_AddOp_fresh [of ?n h1 SHA256Op H ?m] ap
    by (simp add: NewSHA256_def h1_def h2_def fresh_node_def del: op_Apply.simps)
  have sk: "store_ok H h1" using ok store_ok_alloc c by (simp add: leaves_ok_def h1_def)
  have s2: "store_ok H h2" using heap_AddOp_ok [OF sk _ _ add] by (simp add: h1_def NewSHA256_def)
  have g: "grown h h2" by (simp add: h2_def grown_append)
  have m32: "length ?m = 32" using hash_sizesD(1) [OF H] by simp
  have old: "leaf h2 x" if "leaf h x" for x using that by (auto simp: leaf_def h2_def nth_append)
  have new_leaf: "leaf h2 (Suc ?n)" using m32 by (auto simp: leaf_def h2_def nth_append)
  have up: "leads h2 x 1 a" if "leads h x 1 a" "leaf h x" for x a
    using leads_trans [OF that(1) g leads_leaf [OF old [OF that(2)]]] by simp
  have "leads h2 (Suc ?n) (Suc 0) ?n"
    using leads_leaf [OF new_leaf] by (intro leads_step) (auto simp: h2_def nth_append)
  then have nl: "n_Msg (h2 ! ?n) = c \<and> ?n < length h2 \<and> (\<exists>x \<in> set (shas @ [Suc ?n]). leads h2 x 1 ?n)"
    by (simp add: h2_def nth_append)
  have ol: "n_Msg (h2 ! a) = d \<and> a < length h2 \<and> (\<exists>x \<in> set (shas @ [Suc ?n]). leads h2 x 1 a)" if "(d, a) \<in> set leaves" for d a
    using ok that up by (fastforce simp: leaves_ok_def h2_def nth_append)
  have "leaves_ok H h2 (leaves @ [(c, ?n)]) (shas @ [Suc ?n])"
    unfolding leaves_ok_def
  proof (intro conjI)
    show "store_ok H h2" by (rule s2)
    show "length h2 = 2 * length (leaves @ [(c, ?n)])" using ok by (simp add: leaves_ok_def h2_def)
    show "unattested h2" using ok by (auto simp: leaves_ok_def unattested_def h2_def)
    show "\<forall>x \<in> set (shas @ [Suc ?n]). leaf h2 x" using ok old new_leaf by (auto simp: leaves_ok_def)
    show "distinct (shas @ [Suc ?n])" using ok by (auto simp: leaves_ok_def leaf_def)
    have "msgs h2 shas = msgs h shas"
      using ok by (intro msgs_extends) (auto simp: leaves_ok_def leaf_def extends_def h2_def nth_append)
    moreover have "msgs h shas = map (\<lambda>(c, a). sha256_Sum256 H c) leaves" using ok unfolding leaves_ok_def by blast
    moreover have "n_Msg (h2 ! Suc ?n) = ?m" by (simp add: h2_def nth_append)
    ultimately show "msgs h2 (shas @ [Suc ?n]) = map (\<lambda>(c, a). sha256_Sum256 H c) (leaves @ [(c, ?n)])"
      by (simp add: msgs_def cong: map_cong)
    show "\<forall>(d, a) \<in> set (leaves @ [(c, ?n)]). n_Msg (h2 ! a) = d \<and> a < length h2 \<and> (\<exists>x \<in> set (shas @ [Suc ?n]). leads h2 x 1 a)"
      using nl ol by auto
  qed
  with new add show ?thesis by blast
qed

lemma build_leaves_ok:
  assumes "leaves_ok H h leaves shas" and "\<forall>c \<in> set cs. length c \<le> MaxMsgLength" and H: "hash_sizes H"
  shows "\<exists>h' leaves' shas'. build_leaves H cs (h, leaves, shas, pending) = Ok (h', leaves', shas', pending) \<and>
    leaves_ok H h' leaves' shas' \<and> map fst leaves' = map fst leaves @ cs"
  using assms(1,2)
proof (induction cs arbitrary: h leaves shas)
  case (Cons c cs)
  from build_leaf [OF Cons.prems(1) _ H, of c] Cons.prems(2) obtain h1 h2 where
    r: "heap_New h c = (h1, Ok (length h))" "heap_AddOp H h1 (length h) NewSHA256 = (h2, Ok (Suc (length h)))"
    and ok: "leaves_ok H h2 (leaves @ [(c, length h)]) (shas @ [Suc (length h)])" by auto
  from Cons.IH [OF ok] Cons.prems(2) r show ?case by auto
qed auto

lemma sent_tree:
  assumes H: "hash_sizes H" and cs: "\<forall>c \<in> set cs. length c \<le> MaxMsgLength" "distinct cs" "cs \<noteq> []"
  shows "\<exists>h leaves shas h1 tip. build_leaves H cs ([], [], [], pending) = Ok (h, leaves, shas, pending) \<and> shas \<noteq> [] \<and>
    map fst leaves = cs \<and> MakeMerkleTree H h shas = (h1, Ok (Some tip)) \<and>
    n_Msg (h1 ! tip) = merkle_root H (map (sha256_Sum256 H) cs) \<and>
    anchored H \<lparr>u_txid = txid, u_rawTx = raw, u_tip = tip, u_leaves = leaves, u_sentAt = t, u_heap = h1\<rparr>"
proof -
  have "leaves_ok H [] [] []" by (simp add: leaves_ok_def store_ok_def msgs_def)
  from build_leaves_ok [OF this cs(1) H, of pending] obtain h leaves shas where
    b: "build_leaves H cs ([], [], [], pending) = Ok (h, leaves, shas, pending)" "leaves_ok H h leaves shas" "map fst leaves = cs"
    by auto
  from b(2) have ok: "store_ok H h" "unattested h" "\<forall>x \<in> set shas. leaf h x" "distinct shas"
    "msgs h shas = map (\<lambda>(c, a). sha256_Sum256 H c) leaves"
    and lv: "\<forall>(c, a) \<in> set leaves. n_Msg (h ! a) = c \<and> a < length h \<and> (\<exists>x \<in> set shas. leads h x 1 a)"
    unfolding leaves_ok_def by blast+
  have len: "length shas = length leaves" using arg_cong [OF ok(5), of length] by (simp add: msgs_def)
  have ne: "shas \<noteq> []" using len b(3) cs(3) by auto
  from merkle_loop_leads [OF ok(1) H ok(3,4) ne] obtain h1 tip k where
    m: "merkle_loop H h shas = (h1, Ok (Some tip))" "store_ok H h1" "extends h h1" "leaf h1 tip"
      "n_Msg (h1 ! tip) = merkle_root H (msgs h shas)" "grown h h1"
    and k: "k \<le> 2 * levels (length shas)" "k + length h \<le> length h1" "\<forall>a \<in> set shas. leads h1 tip k a" by blast
  have mk: "MakeMerkleTree H h shas = (h1, Ok (Some tip))" using m(1) ne by (simp add: MakeMerkleTree_def)
  have "map (\<lambda>(c, a). sha256_Sum256 H c) leaves = map (sha256_Sum256 H) cs" using b(3) by (auto simp: map_eq_conv)
  then have msg: "n_Msg (h1 ! tip) = merkle_root H (map (sha256_Sum256 H) cs)" using m(5) ok(5) by simp
  have un: "unattested h1" using unattested_MakeMerkleTree [OF ok(2), of H shas] mk by simp
  have each: "n_Msg (h1 ! a) = c \<and> a < length h1 \<and> leads h1 tip (1 + k) a" if "(c, a) \<in> set leaves" for c a
  proof -
    from lv that obtain x where x: "n_Msg (h ! a) = c" "a < length h" "x \<in> set shas" "leads h x 1 a" by fast
    have "leads h1 tip (1 + k) a" using leads_trans [OF x(4) m(6)] k(3) x(3) by blast
    then show ?thesis using extendsD [OF m(3) x(2)] x(1) by simp
  qed
  have "1 + k < length h1"
    using b(2,3) cs(3) k(2) by (cases leaves) (auto simp: leaves_ok_def)
  then have "anchored H \<lparr>u_txid = txid, u_rawTx = raw, u_tip = tip, u_leaves = leaves, u_sentAt = t, u_heap = h1\<rparr>"
    unfolding anchored_def using m(2,4) un b(3) cs(2) each k(1) len by (auto intro!: exI [of _ "1 + k"])
  with b ne mk msg show ?thesis by blast
qed

context storage
begin

text \<open>The puts of \<open>finalize\<close>, of a proof with the attestation \<open>att\<close> on \<open>m\<close> for every commitment.\<close>

lemma put_leaves_contract:
  assumes "inv x" and "\<forall>(c, a) \<in> set ls. \<exists>ts. unfold (length h) h a = Ok ts \<and> stamp_ok H c ts \<and> (m, att) \<in> set (AllAttestations ts)"
    and "distinct (map fst ls)" and "put_leaves h ls (storage_of put get has x) = (st', r)"
  shows "\<exists>x'. st' = storage_of put get has x' \<and> inv x' \<and> \<not> is_panic r \<and>
    (r = Ok () \<longrightarrow> (\<forall>c \<in> fst ` set ls. \<exists>A. held x' c = Some A \<and> (m, att) \<in> A)) \<and>
    (\<forall>c. c \<notin> fst ` set ls \<longrightarrow> held x' c = held x c) \<and>
    (r \<noteq> Ok () \<longrightarrow> (\<exists>y c t. inv y \<and> c \<in> fst ` set ls \<and> stamp_ok H c t \<and> snd (put y c t) = r))"
  using assms
proof (induction ls arbitrary: x)
  case Nil
  then show ?case by auto
next
  case (Cons l ls)
  obtain c a where l: "l = (c, a)" by (cases l)
  from Cons.prems(2) l obtain ts where ts: "unfold (length h) h a = Ok ts" "stamp_ok H c ts" "(m, att) \<in> set (AllAttestations ts)"
    by auto
  obtain y p where y: "put x c ts = (y, p)" by fastforce
  have upd: "storage_of put get has x\<lparr>so_state := y\<rparr> = storage_of put get has y" by (simp add: storage_of_def)
  have sel: "so_Put (storage_of put get has x) = put" "so_state (storage_of put get has x) = x" by (simp_all add: storage_of_def)
  note iy = put_inv [OF Cons.prems(1) ts(2) y]
  have other: "held y d = held x d" if "d \<noteq> c" for d using put_other [OF Cons.prems(1) ts(2) y that] .
  show ?case
  proof (cases "p = Ok ()")
    case True
    then have "put_leaves h ls (storage_of put get has y) = (st', r)"
      using Cons.prems(4) y by (simp add: l ts(1) sel upd)
    from Cons.IH [OF iy _ _ this] Cons.prems(2,3) obtain x' where
      x': "st' = storage_of put get has x'" "inv x'" "\<not> is_panic r"
        "r = Ok () \<longrightarrow> (\<forall>c \<in> fst ` set ls. \<exists>A. held x' c = Some A \<and> (m, att) \<in> A)"
        "\<forall>c. c \<notin> fst ` set ls \<longrightarrow> held x' c = held y c"
        "r \<noteq> Ok () \<longrightarrow> (\<exists>y c t. inv y \<and> c \<in> fst ` set ls \<and> stamp_ok H c t \<and> snd (put y c t) = r)" by auto
    have c: "c \<notin> fst ` set ls" using Cons.prems(3) l by auto
    obtain A where "held y c = Some A" "(m, att) \<in> A" using put_Ok [OF Cons.prems(1) ts(2)] y True ts(3) by fastforce
    then have "\<exists>A. held x' c = Some A \<and> (m, att) \<in> A" using x'(5) c by auto
    moreover have "r \<noteq> Ok () \<longrightarrow> (\<exists>y c t. inv y \<and> c \<in> fst ` set (l # ls) \<and> stamp_ok H c t \<and> snd (put y c t) = r)"
    proof
      assume "r \<noteq> Ok ()"
      with x'(6) obtain y d t where "inv y" "d \<in> fst ` set ls" "stamp_ok H d t" "snd (put y d t) = r" by blast
      then show "\<exists>y c t. inv y \<and> c \<in> fst ` set (l # ls) \<and> stamp_ok H c t \<and> snd (put y c t) = r"
        by (intro exI [of _ y] exI [of _ d] exI [of _ t]) simp
    qed
    ultimately show ?thesis using x'(1-5) other l by (intro exI [of _ x'] conjI) auto
  next
    case False
    have fails: "\<not> is_panic p" "held y = held x" using put_fails [OF Cons.prems(1) ts(2) y False] by blast+
    then obtain e where e: "p = Err e" using False by (cases p) auto
    have "st' = storage_of put get has y" "r = Err e" using Cons.prems(4) y e by (auto simp: l ts(1) sel upd)
    moreover have "\<exists>y c t. inv y \<and> c \<in> fst ` set (l # ls) \<and> stamp_ok H c t \<and> snd (put y c t) = Err e"
      using ts(2) y e Cons.prems(1) l by (intro exI [of _ x] exI [of _ c] exI [of _ ts]) simp
    ultimately show ?thesis using iy fails by auto
  qed
qed

end

lemma index_of_Some: "index_of x xs = Some i \<Longrightarrow> i < length xs \<and> xs ! i = x"
  by (induction x xs arbitrary: i rule: index_of.induct) (auto split: if_splits)

lemma range_leaves_set:
  assumes "mset (ord (map fst ls)) = mset (map fst ls)" and "distinct (map fst ls)"
  shows "set (range_leaves ord ls) = set ls" and "map fst (range_leaves ord ls) = ord (map fst ls)"
    and "distinct (ord (map fst ls))"
proof -
  have s: "set (ord (map fst ls)) = fst ` set ls" using mset_eq_setD [OF assms(1)] by simp
  show "map fst (range_leaves ord ls) = ord (map fst ls)" by (simp add: range_leaves_def comp_def)
  show "distinct (ord (map fst ls))" using mset_eq_imp_distinct_iff [OF assms(1)] assms(2) by simp
  have "(\<lambda>c. (c, the (map_of ls c))) ` fst ` set ls = set ls"
    using assms(2) by (force simp: image_image)
  then show "set (range_leaves ord ls) = set ls" using s by (simp add: range_leaves_def)
qed

text \<open>The proofs of the leaves after the inclusion proof has been built and attested.\<close>

lemma leaves_unfold:
  assumes a: "anchored H u" and H: "store_ok H h" "unattested h" "extends (u_heap u) h" "grown (u_heap u) h" "leaf h root"
    and k: "k' + length (u_heap u) \<le> length h" "leads h root k' (u_tip u)"
    and d: "2 * levels (length (u_leaves u)) + k' + 2 \<le> recursionLimit" and "(c, b) \<in> set (u_leaves u)"
    and att: "att_ok att"
  shows "\<exists>ts. unfold (length h) (add_pending h root att) b = Ok ts \<and> stamp_ok H c ts \<and>
    (n_Msg (h ! root), att) \<in> set (AllAttestations ts)"
proof -
  let ?h = "add_pending h root att"
  from a obtain k where k1: "k \<le> 2 * levels (length (u_leaves u)) + 1" "k < length (u_heap u)"
    "\<forall>(c, a) \<in> set (u_leaves u). n_Msg (u_heap u ! a) = c \<and> a < length (u_heap u) \<and> leads (u_heap u) (u_tip u) k a"
    by (auto simp: anchored_def)
  from k1(3) assms(10) have b: "n_Msg (u_heap u ! b) = c" "b < length (u_heap u)" "leads (u_heap u) (u_tip u) k b" by auto
  have ld: "leads ?h root (k + k') b"
    using leads_trans [OF b(3) H(4) k(2)] by (rule leads_ops) (simp_all add: add_pending_ops)
  have root: "n_Attestations (?h ! root) = [att]"
    using H(2,5) by (auto simp: add_pending_def leaf_def unattested_def)
  have "list_all att_ok (n_Attestations (?h ! q))" if "q < length h" for q
    using H(2,5) att that root by (cases "q = root") (auto simp: add_pending_def unattested_def leaf_def)
  then have ao: "atts_ok ?h" by (auto simp: atts_ok_def in_set_conv_nth add_pending_ops)
  have "k + k' < length h" using k1(2) k(1) by simp
  then obtain ts where ts: "unfold (length h) ?h b = Ok ts" "proof_of H ?h root (k + k') b ts"
    using leads_unfold [OF ld store_ok_add_pending [OF H(1)] ao] root by auto
  have "n_Msg (?h ! b) = c" using extendsD [OF H(3) b(2)] b(1) by (simp add: add_pending_ops)
  moreover have "Suc (k + k') \<le> recursionLimit" using k1(1) d by simp
  ultimately have "stamp_ok H c ts" using ts(2) by (simp add: proof_of_def stamp_ok_def)
  moreover have "(n_Msg (h ! root), att) \<in> set (AllAttestations ts)" using ts(2) root by (simp add: proof_of_def add_pending_ops)
  ultimately show ?thesis using ts(1) by blast
qed

text \<open>The store accepts the proofs that \<open>finalize\<close> puts for a block.\<close>

definition puts_taken :: "hashes \<Rightarrow> Backend \<Rightarrow> (bytes list \<Rightarrow> bytes list) \<Rightarrow> 's Stamper \<Rightarrow> unconfirmedTx \<Rightarrow> bytes \<Rightarrow> bool" where
  "puts_taken H btc ord s u bh \<longleftrightarrow>
     (\<forall>height txids i header h root. be_BlockTxIDs btc bh = Ok (height, txids) \<and> index_of (u_txid u) txids = Some i \<and>
        be_BlockHeader btc (word_of_int height) = Ok header \<and>
        MakeTimestampFromBlock H (u_heap u) (u_tip u) (u_rawTx u) (int i) txids (bh_MerkleRoot header) = (h, Ok root) \<longrightarrow>
        snd (put_leaves (add_pending h root (BitcoinBlockHeaderAttestation (word_of_int height))) (range_leaves ord (u_leaves u)) (sm_store s)) = Ok ())"

lemma finalize_outcome:
  assumes st: "storage H I held put get has" and H: "hash_sizes H" and u: "anchored H utx"
    and store: "sm_store s = storage_of put get has x" "I x"
    and ord: "mset (ord (map fst (u_leaves utx))) = mset (map fst (u_leaves utx))"
    and block: "be_BlockTxIDs btc blockHash = Ok (height, txids)" "index_of (u_txid utx) txids = Some i"
      "u_txid utx = sha256d H (u_rawTx utx)" "\<forall>t \<in> set txids. length t = 32"
    and header: "be_BlockHeader btc (word_of_int height) = Ok header"
    and once: "bytes_Index (u_rawTx utx) (n_Msg (u_heap utx ! u_tip utx)) = Some j"
      "bytes_Index (drop (j + 1) (u_rawTx utx)) (n_Msg (u_heap utx ! u_tip utx)) = None" "length (u_rawTx utx) \<le> MaxMsgLength"
    and depth: "2 * levels (length (u_leaves utx)) + 3 * levels (length txids) + 6 \<le> recursionLimit"
    and run: "finalize H btc ord s utx blockHash = (s', utx', r)"
  shows "if block_root H txids = bh_MerkleRoot header
    then (\<exists>x'. sm_store s' = storage_of put get has x' \<and> I x' \<and> \<not> is_panic r \<and>
      (r = Ok () \<longrightarrow> (\<forall>c \<in> fst ` set (u_leaves utx). \<exists>A. held x' c = Some A \<and>
         (bh_MerkleRoot header, BitcoinBlockHeaderAttestation (word_of_int height)) \<in> A)) \<and>
      (\<forall>c. c \<notin> fst ` set (u_leaves utx) \<longrightarrow> held x' c = held x c) \<and>
      (r \<noteq> Ok () \<longrightarrow> (\<exists>y c t. I y \<and> c \<in> fst ` set (u_leaves utx) \<and> stamp_ok H c t \<and> snd (put y c t) = r)) \<and>
      (puts_taken H btc ord s utx blockHash \<longrightarrow> r = Ok ()))
    else s' = s \<and> r = Err (ErrorString ''computed merkle root does not match block header'')"
proof -
  let ?h = "u_heap utx" and ?tip = "u_tip utx" and ?att = "BitcoinBlockHeaderAttestation (word_of_int height)"
  from u have h: "store_ok H ?h" "unattested ?h" "leaf ?h ?tip" "distinct (map fst (u_leaves utx))" by (auto simp: anchored_def)
  have i: "i < length txids" "txids ! i = sha256d H (u_rawTx utx)" using index_of_Some [OF block(2)] block(3) by simp_all
  from MakeTimestampFromBlock_run [OF h(1) H h(3) once(1,2,3) i block(4), of "bh_MerkleRoot header"]
  obtain h' root k where m: "store_ok H h'" "extends ?h h'" "leaf h' root" "n_Msg (h' ! root) = block_root H txids" "grown ?h h'"
    and k: "k \<le> 3 * levels (length txids) + 4" "k + length ?h \<le> length h'" "leads h' root k ?tip"
    and mk: "MakeTimestampFromBlock H ?h ?tip (u_rawTx utx) (int i) txids (bh_MerkleRoot header) =
      (if block_root H txids = bh_MerkleRoot header then (h', Ok root)
       else (h', Err (ErrorString ''computed merkle root does not match block header'')))" by blast
  have un: "unattested h'"
    using unattested_MakeTimestampFromBlock [OF h(2), of H ?tip "u_rawTx utx" "int i" txids "bh_MerkleRoot header"] mk
    by (simp split: if_splits)
  show ?thesis
  proof (cases "block_root H txids = bh_MerkleRoot header")
    case False
    then show ?thesis using run mk by (auto simp: finalize_def block(1,2) header)
  next
    case True
    define st' where "st' = sm_store s'"
    note ord' = range_leaves_set [of ord, OF ord h(4)]
    have p: "put_leaves (add_pending h' root ?att) (range_leaves ord (u_leaves utx)) (storage_of put get has x) = (st', r)"
      using run mk True by (auto simp: finalize_def block(1,2) header Let_def store(1) st'_def split: prod.splits)
    have "\<forall>(c, a) \<in> set (range_leaves ord (u_leaves utx)). \<exists>ts. unfold (length (add_pending h' root ?att)) (add_pending h' root ?att) a = Ok ts \<and>
        stamp_ok H c ts \<and> (block_root H txids, ?att) \<in> set (AllAttestations ts)"
    proof (clarify, goal_cases)
      case (1 c a)
      then have "(c, a) \<in> set (u_leaves utx)" by (simp add: ord'(1))
      from leaves_unfold [OF u m(1) un m(2,5,3) k(2,3) _ this, of ?att] depth k(1) show ?case
        by (simp add: m(4) add_pending_ops)
    qed
    moreover have "distinct (map fst (range_leaves ord (u_leaves utx)))" using ord' by simp
    moreover have "fst ` set (range_leaves ord (u_leaves utx)) = fst ` set (u_leaves utx)" by (simp add: ord'(1))
    moreover have "puts_taken H btc ord s utx blockHash \<longrightarrow> r = Ok ()"
      using p mk True block(1,2) header store(1) unfolding puts_taken_def by fastforce
    ultimately show ?thesis
      using storage.put_leaves_contract [OF st store(2) _ _ p] True unfolding st'_def by simp
  qed
qed

text \<open>
  C10. Finalizing an anchor: \<open>finalize\<close> on a transaction that \<open>maybeSendTx\<close> built. If the block contains the transaction,
  the merkle tip occurs in it once, and the block's transaction ids have the merkle root of the header, then
  the call succeeds only if every commitment of the transaction is stored with a Bitcoin attestation of the height on
  the merkle root. Otherwise what it returns is the error of a put of a well-formed proof of one of them that the store
  refused, and not a panic. Other commitments are untouched. With another merkle root in the header it returns an error and stores nothing.
\<close>

theorem finalize_correct:
  assumes st: "storage H I held put get has" and H: "hash_sizes H" and u: "anchored H utx"
    and store: "sm_store s = storage_of put get has x" "I x"
    and ord: "mset (ord (map fst (u_leaves utx))) = mset (map fst (u_leaves utx))"
    and block: "be_BlockTxIDs btc blockHash = Ok (height, txids)" "index_of (u_txid utx) txids = Some i"
      "u_txid utx = sha256d H (u_rawTx utx)" "\<forall>t \<in> set txids. length t = 32"
    and header: "be_BlockHeader btc (word_of_int height) = Ok header"
    and once: "bytes_Index (u_rawTx utx) (n_Msg (u_heap utx ! u_tip utx)) = Some j"
      "bytes_Index (drop (j + 1) (u_rawTx utx)) (n_Msg (u_heap utx ! u_tip utx)) = None" "length (u_rawTx utx) \<le> MaxMsgLength"
    and depth: "2 * levels (length (u_leaves utx)) + 3 * levels (length txids) + 6 \<le> recursionLimit"
    and run: "finalize H btc ord s utx blockHash = (s', utx', r)"
  shows "if block_root H txids = bh_MerkleRoot header
    then (\<exists>x'. sm_store s' = storage_of put get has x' \<and> I x' \<and> \<not> is_panic r \<and>
      (r = Ok () \<longrightarrow> (\<forall>c \<in> fst ` set (u_leaves utx). \<exists>A. held x' c = Some A \<and>
         (bh_MerkleRoot header, BitcoinBlockHeaderAttestation (word_of_int height)) \<in> A)) \<and>
      (\<forall>c. c \<notin> fst ` set (u_leaves utx) \<longrightarrow> held x' c = held x c) \<and>
      (r \<noteq> Ok () \<longrightarrow> (\<exists>y c t. I y \<and> c \<in> fst ` set (u_leaves utx) \<and> stamp_ok H c t \<and> snd (put y c t) = r)))
    else s' = s \<and> r = Err (ErrorString ''computed merkle root does not match block header'')"
  using finalize_outcome [OF assms] by (simp split: if_splits) blast

definition due :: "'tx world \<Rightarrow> 's Stamper \<Rightarrow> bool" where
  "due w s \<longleftrightarrow> (\<forall>t. sm_lastTxTime s = Some t \<longrightarrow> sc_MinTxInterval (sm_cfg s) \<le> w_now w - t)"

lemma maybeSendTx_outcome:
  assumes H: "hash_sizes H" and p: "sm_pending s \<noteq> []" "distinct (sm_pending s)" "\<forall>c \<in> set (sm_pending s). length c = JournalRecordSize"
    and ord: "mset (w_order w k (sm_pending s)) = mset (sm_pending s)" and due: "due w s"
    and data: "data = merkle_root H (map (sha256_Sum256 H) (w_order w k (sm_pending s)))"
    and ans: "ans = be_SendOpReturn (w_btc w k) data (sc_MaxFee (sm_cfg s))"
  shows "(\<forall>q. ans = Panic q \<longrightarrow> maybeSendTx H w k s = (s, Panic q)) \<and>
    (\<forall>e. ans = Err e \<longrightarrow> maybeSendTx H w k s = (s, Ok ())) \<and>
    (\<forall>txid rawTx. ans = Ok (txid, rawTx) \<longrightarrow>
      (case StripWitness (w_tx_Deserialize w) (w_tx_SerializeNoWitness w) rawTx of
         Panic q \<Rightarrow> maybeSendTx H w k s = (s, Panic q)
       | Err e \<Rightarrow> maybeSendTx H w k s = (s, Ok ())
       | Ok stripped \<Rightarrow>
           (\<exists>utx. maybeSendTx H w k s =
              (s\<lparr>sm_pending := [], sm_unconfirmed := sm_unconfirmed s @ [utx], sm_lastTxTime := Some (w_lastTx w)\<rparr>, Ok ()) \<and>
            u_txid utx = txid \<and> u_rawTx utx = stripped \<and> map fst (u_leaves utx) = w_order w k (sm_pending s) \<and>
            n_Msg (u_heap utx ! u_tip utx) = data \<and> anchored H utx)))"
proof -
  let ?cs = "w_order w k (sm_pending s)"
  have cs: "set ?cs = set (sm_pending s)" "distinct ?cs" using mset_eq_setD [OF ord] mset_eq_imp_distinct_iff [OF ord] p(2) by auto
  have ne: "?cs \<noteq> []" using ord p(1) by auto
  have len: "\<forall>c \<in> set ?cs. length c \<le> MaxMsgLength" using p(3) cs(1) by (simp add: JournalRecordSize_def MaxMsgLength_def)
  from sent_tree [OF H len cs(2) ne, of "sm_pending s"] obtain h leaves shas h1 tip where
    b: "build_leaves H ?cs ([], [], [], sm_pending s) = Ok (h, leaves, shas, sm_pending s)" "shas \<noteq> []" "map fst leaves = ?cs"
      "MakeMerkleTree H h shas = (h1, Ok (Some tip))" "n_Msg (h1 ! tip) = data"
    and an: "\<And>txid raw t. anchored H \<lparr>u_txid = txid, u_rawTx = raw, u_tip = tip, u_leaves = leaves, u_sentAt = t, u_heap = h1\<rparr>"
    unfolding data anchored_def by (clarsimp, blast)
  have gate: "(case sm_lastTxTime s of None \<Rightarrow> False | Some t \<Rightarrow> w_now w - t < sc_MinTxInterval (sm_cfg s)) = False"
    using due by (auto simp: due_def split: option.splits)
  have "fst ` set leaves = set (sm_pending s)" using b(3) cs(1) by (metis list.set_map)
  then have none: "filter (\<lambda>c. c \<notin> fst ` set leaves) (sm_pending s) = []" by (simp add: filter_empty_conv)
  have same: "s\<lparr>sm_pending := sm_pending s\<rparr> = s" by simp
  note run = maybeSendTx_def b(1,2,4,5) gate p(1) same Let_def
  show ?thesis
  proof (intro conjI allI impI)
    show "maybeSendTx H w k s = (s, Panic q)" if "ans = Panic q" for q using that by (simp add: run ans)
    show "maybeSendTx H w k s = (s, Ok ())" if "ans = Err e" for e using that by (simp add: run ans)
  next
    fix txid rawTx assume "ans = Ok (txid, rawTx)"
    then show "case StripWitness (w_tx_Deserialize w) (w_tx_SerializeNoWitness w) rawTx of
         Panic q \<Rightarrow> maybeSendTx H w k s = (s, Panic q)
       | Err e \<Rightarrow> maybeSendTx H w k s = (s, Ok ())
       | Ok stripped \<Rightarrow>
           (\<exists>utx. maybeSendTx H w k s =
              (s\<lparr>sm_pending := [], sm_unconfirmed := sm_unconfirmed s @ [utx], sm_lastTxTime := Some (w_lastTx w)\<rparr>, Ok ()) \<and>
            u_txid utx = txid \<and> u_rawTx utx = stripped \<and> map fst (u_leaves utx) = w_order w k (sm_pending s) \<and>
            n_Msg (u_heap utx ! u_tip utx) = data \<and> anchored H utx)"
      using an b(3,5) none by (auto simp: run ans split: result.splits)
  qed
qed

text \<open>
  C29. Anchoring: when commitments are pending and the interval since the last transaction has passed, \<open>maybeSendTx\<close>
  asks for a transaction whose OP_RETURN data is the merkle root of the SHA-256 digests of all pending
  commitments. If it is sent, all of them move from the pool to a new unconfirmed transaction, with leaves
  on the commitments that lead to the tip, the message that was sent. If sending fails nothing changes; nor
  does anything change, though the transaction has been broadcast, if its bytes cannot be stripped of the
  witness, so that the next step sends the commitments again.
\<close>

theorem maybeSendTx_correct:
  assumes H: "hash_sizes H" and p: "sm_pending s \<noteq> []" "distinct (sm_pending s)" "\<forall>c \<in> set (sm_pending s). length c = JournalRecordSize"
    and ord: "mset (w_order w k (sm_pending s)) = mset (sm_pending s)" and due: "due w s"
    and data: "data = merkle_root H (map (sha256_Sum256 H) (w_order w k (sm_pending s)))"
    and ans: "ans = be_SendOpReturn (w_btc w k) data (sc_MaxFee (sm_cfg s))"
  shows "(\<forall>e. ans = Err e \<longrightarrow> maybeSendTx H w k s = (s, Ok ())) \<and>
    (\<forall>txid rawTx. ans = Ok (txid, rawTx) \<longrightarrow>
      (case StripWitness (w_tx_Deserialize w) (w_tx_SerializeNoWitness w) rawTx of
         Panic q \<Rightarrow> maybeSendTx H w k s = (s, Panic q)
       | Err e \<Rightarrow> maybeSendTx H w k s = (s, Ok ())
       | Ok stripped \<Rightarrow>
           (\<exists>utx. maybeSendTx H w k s =
              (s\<lparr>sm_pending := [], sm_unconfirmed := sm_unconfirmed s @ [utx], sm_lastTxTime := Some (w_lastTx w)\<rparr>, Ok ()) \<and>
            u_txid utx = txid \<and> u_rawTx utx = stripped \<and> map fst (u_leaves utx) = w_order w k (sm_pending s) \<and>
            n_Msg (u_heap utx ! u_tip utx) = data \<and> anchored H utx)))"
  using maybeSendTx_outcome [OF assms] by blast

section \<open>Instances\<close>

definition sample_journal :: Journal where
  "sample_journal = \<lparr>j_file = replicate 44 1, j_offset = 44, j_count = 1\<rparr>"

definition sample_stamper :: "ref_db Stamper" where
  "sample_stamper = NewStamper sample_journal (ref_storage sample_db) (DefaultConfig 100000)"

definition sample_backend :: Backend where
  "sample_backend = \<lparr>be_TxStatus = (\<lambda>t. Ok \<lparr>tx_Confirmations = 6, tx_BlockHash = Some [1]\<rparr>),
     be_BlockTxIDs = (\<lambda>h. Ok (5, [replicate 32 9, replicate 32 7])),
     be_BlockHeader = (\<lambda>n. Ok \<lparr>bh_Height = n, bh_Hash = ''aa'', bh_MerkleRoot = replicate 32 7, bh_Time = 100\<rparr>),
     be_SendOpReturn = (\<lambda>d f. Ok (replicate 32 7, [1] @ d @ [2])), be_HashString = (\<lambda>h. ''aa'')\<rparr>"

definition sample_world :: "bytes world" where
  "sample_world = \<lparr>w_btc = (\<lambda>k. sample_backend), w_order = (\<lambda>k xs. xs), w_now = 0, w_sentAt = 0, w_lastTx = 0,
     w_tx_Deserialize = Ok, w_tx_SerializeNoWitness = Ok\<rparr>"

lemma sample_journal_ok: "journal_of sample_journal [replicate 44 1]"
  by (simp add: journal_of_def sample_journal_def JournalRecordSize_def)

lemma const_sha256: "sha256_Sum256 const_hashes m = replicate 32 7"
  by (simp add: const_hashes_def)

lemma sample_tx_index:
  "bytes_Index ([1] @ replicate 32 7 @ [2]) (replicate 32 7) = Some 1"
  "bytes_Index (drop (1 + 1) ([1] @ replicate 32 7 @ [2])) (replicate 32 7) = None"
  by code_simp+

text \<open>The transaction that the sample node sends for the record of the sample journal, and its proof in a block of two.\<close>

definition sample_utx :: unconfirmedTx where
  "sample_utx = \<lparr>u_txid = replicate 32 7, u_rawTx = [1] @ replicate 32 7 @ [2], u_tip = 1, u_leaves = [(replicate 44 1, 0)], u_sentAt = 0,
     u_heap = [\<lparr>n_Msg = replicate 44 1, n_Attestations = [], n_Ops = [(SHA256Op, 1)]\<rparr>, fresh_node (replicate 32 7)]\<rparr>"

definition sample_ids :: "bytes list" where
  "sample_ids = [replicate 32 9, replicate 32 7]"

lemma sample_root: "block_root const_hashes sample_ids = replicate 32 7"
  by code_simp

lemma sample_sent:
  "maybeSendTx const_hashes sample_world 0 (sample_stamper\<lparr>sm_pending := [replicate 44 1], sm_cursor := n\<rparr>) =
     (sample_stamper\<lparr>sm_cursor := n, sm_pending := [], sm_unconfirmed := [sample_utx], sm_lastTxTime := Some 0\<rparr>, Ok ())"
  and sample_anchored: "anchored const_hashes sample_utx"
proof -
  let ?s = "sample_stamper\<lparr>sm_pending := [replicate 44 1], sm_cursor := n\<rparr>"
  have un: "sm_unconfirmed sample_stamper = []" by (simp add: sample_stamper_def NewStamper_def)
  have "due sample_world ?s" by (simp add: due_def sample_stamper_def NewStamper_def)
  from maybeSendTx_outcome [OF hash_sizes_const _ _ _ _ this refl refl, of 0, THEN conjunct2, THEN conjunct2] obtain utx where
    u: "maybeSendTx const_hashes sample_world 0 ?s = (?s\<lparr>sm_pending := [], sm_unconfirmed := [utx], sm_lastTxTime := Some 0\<rparr>, Ok ())"
      "anchored const_hashes utx"
    by (auto simp: sample_world_def sample_backend_def StripWitness_def const_sha256 JournalRecordSize_def un)
  have "sm_unconfirmed (fst (maybeSendTx const_hashes sample_world 0 ?s)) = [sample_utx]" by code_simp
  then have "utx = sample_utx" by (simp add: u(1))
  with u show "maybeSendTx const_hashes sample_world 0 ?s =
     (sample_stamper\<lparr>sm_cursor := n, sm_pending := [], sm_unconfirmed := [sample_utx], sm_lastTxTime := Some 0\<rparr>, Ok ())"
    "anchored const_hashes sample_utx" by simp_all
qed

lemma sample_proof:
  obtains h ts where "MakeTimestampFromBlock const_hashes (u_heap sample_utx) (u_tip sample_utx) (u_rawTx sample_utx) 1 sample_ids (replicate 32 7) = (h, Ok 10)"
    and "unfold (length h) (add_pending h 10 (BitcoinBlockHeaderAttestation 5)) 0 = Ok ts" and "stamp_ok const_hashes (replicate 44 1) ts"
    and "length (ts_enc ts) = 56"
proof -
  obtain h r where m: "MakeTimestampFromBlock const_hashes (u_heap sample_utx) (u_tip sample_utx) (u_rawTx sample_utx) 1 sample_ids (replicate 32 7) = (h, r)"
    by fastforce
  have "case MakeTimestampFromBlock const_hashes (u_heap sample_utx) (u_tip sample_utx) (u_rawTx sample_utx) 1 sample_ids (replicate 32 7) of
      (h, r) \<Rightarrow> r = Ok 10 \<and> (case unfold (length h) (add_pending h 10 (BitcoinBlockHeaderAttestation 5)) 0 of
         Ok ts \<Rightarrow> stamp_ok const_hashes (replicate 44 1) ts \<and> length (ts_enc ts) = 56 | _ \<Rightarrow> False)"
    by code_simp
  with m that show thesis by (cases "unfold (length h) (add_pending h 10 (BitcoinBlockHeaderAttestation 5)) 0") auto
qed

lemma sample_puts_taken:
  assumes "be_BlockTxIDs btc bh = Ok (5, sample_ids)" and "be_BlockHeader btc 5 = Ok header" and "bh_MerkleRoot header = replicate 32 7"
    and "sm_store s = ref_storage sample_db" and "ord [replicate 44 1] = [replicate 44 1]"
  shows "puts_taken const_hashes btc ord s sample_utx bh"
proof -
  obtain h ts where m: "MakeTimestampFromBlock const_hashes (u_heap sample_utx) (u_tip sample_utx) (u_rawTx sample_utx) 1 sample_ids (replicate 32 7) = (h, Ok 10)"
    and t: "unfold (length h) (add_pending h 10 (BitcoinBlockHeaderAttestation 5)) 0 = Ok ts" "stamp_ok const_hashes (replicate 44 1) ts"
      "length (ts_enc ts) = 56" by (rule sample_proof)
  have len: "length (add_pending h 10 att) = length h" for att by (simp add: add_pending_def)
  have "bs_Put const_hashes ref_bolt sample_db (replicate 44 1) ts = (Some [replicate 44 1 \<mapsto> ts_enc ts], Ok ())"
    by (rule ref_put_stores [OF t(2)]) (simp_all add: t(3))
  then have "snd (put_leaves (add_pending h 10 (BitcoinBlockHeaderAttestation 5)) [(replicate 44 1, 0)] (ref_storage sample_db)) = Ok ()"
    using t(1) by (simp add: len storage_of_def del: unfold.simps)
  moreover have "index_of (u_txid sample_utx) sample_ids = Some 1" by code_simp
  moreover have "range_leaves ord (u_leaves sample_utx) = [(replicate 44 1, 0)]"
    using assms(5) by (simp add: range_leaves_def sample_utx_def)
  ultimately show ?thesis using assms(1-4) m by (auto simp: puts_taken_def)
qed

theorem finalize_correct_witness:
  "\<exists>s' utx' x' A. anchored const_hashes sample_utx \<and> map fst (u_leaves sample_utx) = [replicate 44 1] \<and>
     finalize const_hashes sample_backend (\<lambda>xs. xs) sample_stamper sample_utx [1] = (s', utx', Ok ()) \<and>
     sm_store s' = ref_storage x' \<and> content_held const_hashes x' (replicate 44 1) = Some A \<and>
     (replicate 32 7, BitcoinBlockHeaderAttestation 5) \<in> A"
proof -
  obtain s' u' r where run: "finalize const_hashes sample_backend (\<lambda>xs. xs) sample_stamper sample_utx [1] = (s', u', r)" by (metis prod.exhaust)
  have st: "sm_store sample_stamper = ref_storage sample_db" by (simp add: sample_stamper_def NewStamper_def)
  have u: "u_leaves sample_utx = [(replicate 44 1, 0)]" "n_Msg (u_heap sample_utx ! u_tip sample_utx) = replicate 32 7"
    "u_rawTx sample_utx = [1] @ replicate 32 7 @ [2]" by (simp_all add: sample_utx_def fresh_node_def)
  have lv: "levels (Suc 0) = 0" "levels (length sample_ids) = 1" by code_simp+
  have depth: "2 * levels (length (u_leaves sample_utx)) + 3 * levels (length sample_ids) + 6 \<le> recursionLimit"
    unfolding u(1) lv by (simp add: lv recursionLimit_def)
  have block: "be_BlockTxIDs sample_backend [1] = Ok (5, sample_ids)" "index_of (u_txid sample_utx) sample_ids = Some 1"
    "u_txid sample_utx = sha256d const_hashes (u_rawTx sample_utx)" "\<forall>t \<in> set sample_ids. length t = 32"
    by (simp_all add: sample_backend_def sample_ids_def sample_utx_def sha256d_def const_sha256)
  have header: "be_BlockHeader sample_backend (word_of_int 5) = Ok \<lparr>bh_Height = 5, bh_Hash = ''aa'', bh_MerkleRoot = replicate 32 7, bh_Time = 100\<rparr>"
    by (simp add: sample_backend_def)
  have once: "bytes_Index (u_rawTx sample_utx) (n_Msg (u_heap sample_utx ! u_tip sample_utx)) = Some 1"
    "bytes_Index (drop (1 + 1) (u_rawTx sample_utx)) (n_Msg (u_heap sample_utx ! u_tip sample_utx)) = None"
    "length (u_rawTx sample_utx) \<le> MaxMsgLength"
    unfolding u(2,3) by (rule sample_tx_index, rule sample_tx_index) (simp add: MaxMsgLength_def)
  have h: "be_BlockHeader sample_backend 5 = Ok \<lparr>bh_Height = 5, bh_Hash = ''aa'', bh_MerkleRoot = replicate 32 7, bh_Time = 100\<rparr>"
    by (simp add: sample_backend_def)
  have "puts_taken const_hashes sample_backend (\<lambda>xs. xs) sample_stamper sample_utx [1]"
    by (rule sample_puts_taken [OF block(1) h _ st]) simp_all
  then have r: "r = Ok ()"
    using finalize_outcome [OF ref.bs.storage_axioms hash_sizes_const sample_anchored st sample_db_ok refl block header once depth run] sample_root
    by auto
  from finalize_correct [OF ref.bs.storage_axioms hash_sizes_const sample_anchored st sample_db_ok refl block header once depth run] sample_root r
  obtain x' where x': "sm_store s' = ref_storage x'"
    "\<forall>c \<in> fst ` set (u_leaves sample_utx). \<exists>A. content_held const_hashes x' c = Some A \<and> (replicate 32 7, BitcoinBlockHeaderAttestation 5) \<in> A"
    by auto
  then show ?thesis using sample_anchored run r u(1)
    by (intro exI [of _ s'] exI [of _ u'] exI [of _ x']) auto
qed

theorem maybeSendTx_correct_witness:
  "\<exists>utx. maybeSendTx const_hashes sample_world 0 (sample_stamper\<lparr>sm_pending := [replicate 44 1]\<rparr>) =
     (sample_stamper\<lparr>sm_pending := [], sm_unconfirmed := [utx], sm_lastTxTime := Some 0\<rparr>, Ok ()) \<and>
     u_rawTx utx = [1] @ replicate 32 7 @ [2] \<and> map fst (u_leaves utx) = [replicate 44 1] \<and> anchored const_hashes utx"
proof -
  let ?s = "sample_stamper\<lparr>sm_pending := [replicate 44 1]\<rparr>"
  have un: "sm_unconfirmed sample_stamper = []" by (simp add: sample_stamper_def NewStamper_def)
  have "due sample_world ?s" by (simp add: due_def sample_stamper_def NewStamper_def)
  from maybeSendTx_correct [OF hash_sizes_const _ _ _ _ this refl refl, of 0, THEN conjunct2]
  show ?thesis
    by (auto simp: sample_world_def sample_backend_def StripWitness_def const_sha256 JournalRecordSize_def un)
qed

end
