(* ===== verification/Batch_Proofs.thy ===== *)
theory Batch_Proofs
  imports Aggregator Stamper
begin

text \<open>
  What the callers of the aggregator get: at the moment their batch is committed, the timestamp each of
  them holds is a tree that can be serialized and that carries the pending attestation. The invariant of
  \<^verbatim>\<open>Aggregator.thy\<close> is extended by the ways from the callers' timestamps to their nonced digests, which are
  all of them and end there.
\<close>

section \<open>What a commit does to the heap\<close>

lemma Service_Submit_grown:
  assumes f: "commit_fits h a" and H: "hash_sizes H" and run: "Service_Submit H now d s h a = (s', h', r)"
  shows "grown h h' \<and> (atts_in att_ok h \<longrightarrow> atts_in att_ok h')"
proof -
  let ?c = "commit_store H (s_hmacKey s) (word_of_int now) h a"
  let ?s = "submit_store H (s_hmacKey s) (word_of_int now) h a"
  have a: "a < length h" using f by (simp add: commit_fits_def)
  have cases: "h' = ?c \<or> (\<exists>p. NewPendingAttestation (s_uri s) = Ok p \<and> h' = ?s p)"
    using run commit_ops_eq [OF f H, of "s_hmacKey s" "word_of_int now"]
    by (auto simp: Service_Submit_def Let_def submit_store_def split: result.splits prod.splits)
  have "grown h ?c" using submit_store_grown [OF f, of H "s_hmacKey s" "word_of_int now" undefined]
    by (simp add: submit_store_def grown_def add_pending_ops)
  then have g: "grown h h'" using cases submit_store_grown [OF f] by blast
  have c: "atts_in att_ok ?c" if "atts_in att_ok h"
    using that atts_in_ops [OF that, of a] by (auto simp: commit_store_def Let_def atts_in_def fresh_node_def)
  have s: "atts_in att_ok (?s p)" if "atts_in att_ok h" "NewPendingAttestation (s_uri s) = Ok p" for p
  proof -
    have "att_ok p" using pending_stamp_ok [OF that(2), of "[]" H] by (simp add: stamp_ok_def pending_stamp_def)
    then have "\<forall>n \<in> set (?c[k := (?c ! k)\<lparr>n_Attestations := n_Attestations (?c ! k) @ [p]\<rparr>]). list_all att_ok (n_Attestations n)" for k
      using c [OF that(1)] set_update_subset_insert [of ?c k]
      by (cases "k < length ?c") (fastforce simp: atts_in_def list_update_beyond)+
    then show ?thesis by (simp add: submit_store_def add_pending_def atts_in_def)
  qed
  show ?thesis using g c s cases by blast
qed

lemma flush_grown:
  assumes i: "agg_inv H s" and H: "hash_sizes H" and run: "flush H now d (st_heap s) (st_agg s) = (h, a, Ok ())"
  shows "grown (st_heap s) h \<and> (atts_in att_ok (st_heap s) \<longrightarrow> atts_in att_ok h)"
proof (cases "ag_batch (st_agg s) = []")
  case True
  then show ?thesis using run by (simp add: flush_def)
next
  case False
  let ?a = "st_agg s" and ?h = "st_heap s"
  from i have w: "store_ok H ?h" "distinct (map sr_digest (waiting ?a))"
    "\<forall>r \<in> set (waiting ?a). digest_ok ?h (sr_digest r)" by (auto simp: agg_inv_def)
  from batch_root [OF w(1) H False w(2,3)] obtain h1 root where
    mk: "MakeMerkleTree H ?h (map sr_digest (ag_batch ?a)) = (h1, Ok (Some root))"
    and m: "commit_fits h1 root" "grown ?h h1" by blast
  obtain svc h2 r where sub: "Service_Submit H now d (ag_calendar ?a) h1 root = (svc, h2, r)" by (metis prod.exhaust)
  have "h = h2" using run False mk sub by (auto simp: flush_def flush_commit_def split: result.splits prod.splits)
  moreover have "atts_in att_ok ?h \<longrightarrow> atts_in att_ok h1" using atts_in_MakeMerkleTree [of att_ok ?h H] mk by (metis fst_conv)
  ultimately show ?thesis using Service_Submit_grown [OF m(1) H sub] grown_trans [OF m(2)] by blast
qed

section \<open>The callers' timestamps\<close>

definition callers_ready :: "'s agg_state \<Rightarrow> bool" where
  "callers_ready s \<longleftrightarrow> atts_in att_ok (st_heap s) \<and> (st_callers s \<noteq> [] \<longrightarrow> 3 \<le> length (st_heap s)) \<and>
     (\<forall>(ts, q) \<in> set (st_callers s). q \<in> set (waiting (st_agg s)) \<longrightarrow> leads (st_heap s) (sr_digest q) 2 ts)"

lemma callers_ready_heap:
  assumes "callers_ready s" and "grown (st_heap s) h" and "atts_in att_ok h"
    and "\<forall>q \<in> set ws. digest_ok h (sr_digest q)" and "set ws \<subseteq> set (waiting (st_agg s))"
    and "(ts, q) \<in> set (st_callers s)" and "q \<in> set ws"
  shows "leads h (sr_digest q) 2 ts"
proof -
  have "leads (st_heap s) (sr_digest q) 2 ts" using assms(1,5-7) by (auto simp: callers_ready_def)
  moreover have "leads h (sr_digest q) 0 (sr_digest q)" using assms(4,7) by (intro leads_here) (auto simp: digest_ok_def leaf_def)
  ultimately show ?thesis using leads_trans [OF _ assms(2)] by fastforce
qed

lemma prepare_atts:
  assumes "store_ok H h" and "hash_sizes H" and "Submit_prepare H h msg rand = (h', r)" and "atts_in att_ok h"
  shows "grown h h' \<and> atts_in att_ok h'"
proof -
  note p = Submit_prepare_ok [OF assms(1-3)]
  then have "grown h h'" by (simp add: grown_def)
  moreover have "list_all att_ok (n_Attestations (h' ! b))" if "b < length h'" for b
  proof (cases "b < length h")
    case True
    then show ?thesis using p assms(4) by (simp add: atts_in_def)
  next
    case False
    with that p have "n_Attestations (h' ! b) = []" by simp
    then show ?thesis by simp
  qed
  ultimately show ?thesis by (auto simp: atts_in_def in_set_conv_nth)
qed

lemma callers_ready_flush:
  assumes i: "agg_inv H s" and H: "hash_sizes H" and r: "callers_ready s"
    and run: "flush H now d (st_heap s) (st_agg s) = (h, a, Ok ())"
  shows "callers_ready (s\<lparr>st_heap := h, st_agg := a\<rparr>)"
proof -
  note f = flush_inv [OF i H run] and g = flush_grown [OF i H run]
  have at: "atts_in att_ok h" using g r by (simp add: callers_ready_def)
  have sub: "set (waiting a) \<subseteq> set (waiting (st_agg s))" using f by (auto simp: waiting_def)
  have ok: "\<forall>q \<in> set (waiting a). digest_ok h (sr_digest q)" using f by (auto simp: agg_inv_def)
  have "length (st_heap s) \<le> length h" using g by (simp add: grown_def)
  then show ?thesis using at r callers_ready_heap [OF r conjunct1 [OF g] at ok sub] by (auto simp: callers_ready_def)
qed

lemma callers_ready_step:
  assumes i: "agg_inv H s" and H: "hash_sizes H" and r: "callers_ready s" and st: "agg_step H s s'"
  shows "callers_ready s'"
proof -
  note i' = agg_inv_step [OF i H st]
  have h: "store_ok H (st_heap s)" and at: "atts_in att_ok (st_heap s)" using i r by (simp_all add: agg_inv_def callers_ready_def)
  from st show ?thesis
  proof cases
    case (send msg rand h' ts nonced req a)
    note p = Submit_prepare_ok [OF h H send(2)] and g = prepare_atts [OF h H send(2) at]
    have w: "set (waiting a) = insert req (set (waiting (st_agg s)))"
      using send(5) by (auto simp: Submit_send_def waiting_def split: if_splits)
    have ok: "\<forall>q \<in> set (waiting (st_agg s)). digest_ok h' (sr_digest q)" using i' w by (simp add: send(1) agg_inv_def)
    have new: "leads h' (sr_digest req) 2 ts" "3 \<le> length h'" using p send(3) by auto
    have fresh: "q \<noteq> req" if "(t, q) \<in> set (st_callers s)" for t q
    proof -
      have "map (\<lambda>c. sr_done (snd c)) (st_callers s) = [0..<length (st_callers s)]" using i by (simp add: agg_inv_def)
      then have "sr_done q \<in> set [0..<length (st_callers s)]" using that by (metis (no_types, lifting) image_eqI list.set_map snd_conv)
      then show ?thesis using send(3) by auto
    qed
    have "leads h' (sr_digest q) 2 t" if "(t, q) \<in> set (st_callers s)" "q \<in> set (waiting a)" for t q
      using callers_ready_heap [OF r _ _ ok subset_refl that(1)] g that fresh w by blast
    then show ?thesis using g new by (auto simp: callers_ready_def send(1))
  next
    case (give_up msg rand h' r')
    note g = prepare_atts [OF h H give_up(2) at]
    have ok: "\<forall>q \<in> set (waiting (st_agg s)). digest_ok h' (sr_digest q)" using i' by (simp add: give_up(1) agg_inv_def)
    have "length (st_heap s) \<le> length h'" using g by (simp add: grown_def)
    then show ?thesis using r g callers_ready_heap [OF r _ _ ok subset_refl] by (auto simp: callers_ready_def give_up(1))
  next
    case receive
    then show ?thesis using r by (auto simp: callers_ready_def loop_receive_def waiting_def split: list.splits)
  next
    case (tick now d h' a)
    then show ?thesis using callers_ready_flush [OF i H r] by blast
  next
    case (close a)
    then show ?thesis using r by (auto simp: callers_ready_def Aggregator_Close_def split: if_splits)
  next
    case (exit now d h' a)
    then obtain a1 where "flush H now d (st_heap s) (st_agg s) = (h', a1, Ok ())" "a = a1\<lparr>ag_running := False\<rparr>"
      by (auto simp: loop_closed_def split: prod.splits result.splits)
    with callers_ready_flush [OF i H r] exit show ?thesis by (fastforce simp: callers_ready_def)
  qed
qed

lemma agg_reach_ready: "agg_reach H svc interval s \<Longrightarrow> hash_sizes H \<Longrightarrow> callers_ready s"
proof (induction rule: agg_reach.induct)
  case (step s s')
  then show ?case using callers_ready_step agg_reach_inv by blast
qed (simp add: callers_ready_def)

section \<open>What a call of Submit returns\<close>

text \<open>The wait of \<open>Aggregator.Submit\<close> and the tree that its result is at that moment.\<close>

definition Submit_returns :: "store \<Rightarrow> 's Aggregator \<Rightarrow> submitRequest \<Rightarrow> nat \<Rightarrow> go_error option \<Rightarrow> Timestamp result option" where
  "Submit_returns h a req ts ctx = map_option (\<lambda>r. andThen r (unfold (length h) h)) (Submit_wait a req ts ctx)"

lemma batch_returns:
  assumes r: "callers_ready s" and i: "agg_inv H s" and H: "hash_sizes H"
    and f: "flush H now d (st_heap s) (st_agg s) = (h, a, Ok ())" and h: "store_ok H h"
    and k: "k \<le> 2 * levels (length (ag_batch (st_agg s))) + 2" "k + length (st_heap s) \<le> length h"
      "\<forall>q \<in> set (ag_batch (st_agg s)). leads h x k (sr_digest q)"
    and x: "n_Attestations (h ! x) = [pending]" and size: "length (ag_batch (st_agg s)) \<le> 2 ^ 120"
    and c: "(ts, q) \<in> set (st_callers s)" "q \<in> set (ag_batch (st_agg s))"
  shows "\<exists>t. Submit_returns h a q ts None = Some (Ok t) \<and> stamp_ok H (n_Msg (st_heap s ! ts)) t \<and>
    (n_Msg (h ! x), pending) \<in> set (AllAttestations t)"
proof -
  note g = flush_grown [OF i H f] and inv = flush_inv [OF i H f]
  have "leads (st_heap s) (sr_digest q) 2 ts" using r c by (auto simp: callers_ready_def waiting_def)
  then have ld: "leads h x (2 + k) ts" using leads_trans [of "st_heap s" "sr_digest q" 2 ts h x k] g k(3) c(2) by blast
  have fuel: "2 + k < length h" using r c(1) k(2) by (auto simp: callers_ready_def)
  have at: "atts_ok h" using g r by (simp add: callers_ready_def atts_ok_def atts_in_def)
  have "n_Attestations (h ! x) \<noteq> []" using x by simp
  from leads_unfold [OF ld h at this fuel] obtain t where t: "unfold (length h) h ts = Ok t" "proof_of H h x (2 + k) ts t" by blast
  have "ts < length (st_heap s)" using i c(1) by (auto simp: agg_inv_def elim: reach.cases)
  then have msg: "n_Msg (h ! ts) = n_Msg (st_heap s ! ts)" using inv by (simp add: extends_msg)
  have "levels (length (ag_batch (st_agg s))) \<le> 120" by (rule levels_power [OF size])
  then have "Suc (2 + k) \<le> recursionLimit" using k(1) by (simp add: recursionLimit_def)
  with t(2) msg have "stamp_ok H (n_Msg (st_heap s ! ts)) t" by (auto simp: proof_of_def stamp_ok_def)
  moreover have "sr_done q \<in> set (ag_closed a)" using inv c(2) by simp
  ultimately show ?thesis using t x by (simp add: Submit_returns_def Submit_wait_def proof_of_def)
qed

end
