(* ===== verification/Stamper_History.thy ===== *)
theory Stamper_History
  imports Stamper
begin

text \<open>
  The stamper over time: the states it reaches from a start, through ticks at which the node, the journal and
  the store are in any condition, and the invariant that every commitment it has read stays accounted for.
\<close>

section \<open>Commitments are not lost\<close>

text \<open>
  The interface to the store: a put that succeeds records the commitment, no put makes the store forget one, and
  a commitment whose proof has a Bitcoin attestation is recorded.
\<close>

locale record_keeping =
  fixes recorded :: "'s \<Rightarrow> bytes \<Rightarrow> bool"
    and put :: "'s \<Rightarrow> bytes \<Rightarrow> Timestamp \<Rightarrow> 's \<times> unit result"
    and get :: "'s \<Rightarrow> bytes \<Rightarrow> Timestamp result"
  assumes put_records: "put x c t = (x', Ok ()) \<Longrightarrow> recorded x' c"
    and put_remembers: "put x c t = (x', r) \<Longrightarrow> recorded x d \<Longrightarrow> recorded x' d"
    and get_recorded: "get x c = Ok t \<Longrightarrow> (m, att) \<in> set (AllAttestations t) \<Longrightarrow> is_bitcoin att \<Longrightarrow> recorded x c"

definition leaf_keys :: "unconfirmedTx list \<Rightarrow> bytes set" where
  "leaf_keys us = (\<Union>u \<in> set us. fst ` set (u_leaves u))"

definition waiting_in :: "'s Stamper \<Rightarrow> bytes set" where
  "waiting_in s = set (sm_pending s) \<union> leaf_keys (sm_unconfirmed s)"

lemma leaf_keys_simps [simp]:
  "leaf_keys [] = {}" "leaf_keys (u # us) = fst ` set (u_leaves u) \<union> leaf_keys us" "leaf_keys (us @ vs) = leaf_keys us \<union> leaf_keys vs"
  by (auto simp: leaf_keys_def)

lemma IsPending_iff: "IsPending s c \<longleftrightarrow> c \<in> waiting_in s"
  by (auto simp: IsPending_def waiting_in_def leaf_keys_def list_ex_iff map_of_eq_None_iff)

lemma set_pending_sel [simp]:
  "set (sm_pending (set_pending c s)) = insert c (set (sm_pending s))" "distinct (sm_pending (set_pending c s)) = distinct (sm_pending s)"
  "sm_unconfirmed (set_pending c s) = sm_unconfirmed s" "sm_store (set_pending c s) = sm_store s" "sm_journal (set_pending c s) = sm_journal s"
  "sm_cursor (set_pending c s) = sm_cursor s" "sm_cfg (set_pending c s) = sm_cfg s" "sm_lastTxTime (set_pending c s) = sm_lastTxTime s"
  by (auto simp: set_pending_def)

lemma requeue_sel [simp]:
  "set (sm_pending (requeue cs s)) = set cs \<union> set (sm_pending s)" "distinct (sm_pending (requeue cs s)) = distinct (sm_pending s)"
  "sm_unconfirmed (requeue cs s) = sm_unconfirmed s" "sm_store (requeue cs s) = sm_store s" "sm_journal (requeue cs s) = sm_journal s"
  "sm_cursor (requeue cs s) = sm_cursor s" "sm_cfg (requeue cs s) = sm_cfg s"
  by (induction cs arbitrary: s) auto

definition world_ok :: "'tx world \<Rightarrow> bool" where
  "world_ok w \<longleftrightarrow> (\<forall>k xs. mset (w_order w k xs) = mset xs)"

text \<open>The journal and the fields that only \<open>ingestJournal\<close> and \<open>maybeSendTx\<close> change.\<close>

definition frame :: "'s Stamper \<Rightarrow> 's Stamper \<Rightarrow> bool" where
  "frame s s' \<longleftrightarrow> sm_journal s' = sm_journal s \<and> sm_cursor s' = sm_cursor s \<and> sm_cfg s' = sm_cfg s"

definition uses :: "('s \<Rightarrow> bytes \<Rightarrow> Timestamp \<Rightarrow> 's \<times> unit result) \<Rightarrow> ('s \<Rightarrow> bytes \<Rightarrow> Timestamp result) \<Rightarrow>
    ('s \<Rightarrow> bytes \<Rightarrow> bool result) \<Rightarrow> 's Stamper \<Rightarrow> bool" where
  "uses put get has s \<longleftrightarrow> (\<exists>x. sm_store s = storage_of put get has x)"

abbreviation in_store :: "'s Stamper \<Rightarrow> 's" where
  "in_store s \<equiv> so_state (sm_store s)"

lemma finalize_cases:
  assumes run: "finalize H btc ord s utx blockHash = (s', utx', r)"
  obtains (stays) "s' = s" "u_leaves utx' = u_leaves utx" "r \<noteq> Ok ()"
    | (puts) h st where "put_leaves h (range_leaves ord (u_leaves utx)) (sm_store s) = (st, r)" "s' = s\<lparr>sm_store := st\<rparr>"
        "u_leaves utx' = u_leaves utx"
proof (cases "be_BlockTxIDs btc blockHash")
  case (Ok b)
  obtain height txids where b: "b = (height, txids)" by (cases b)
  show ?thesis
  proof (cases "index_of (u_txid utx) txids")
    case None
    then show ?thesis using run Ok b stays by (auto simp: finalize_def)
  next
    case (Some i)
    show ?thesis
    proof (cases "be_BlockHeader btc (word_of_int height)")
      case header: (Ok header)
      obtain h x where m: "MakeTimestampFromBlock H (u_heap utx) (u_tip utx) (u_rawTx utx) (int i) txids (bh_MerkleRoot header) = (h, x)"
        by fastforce
      show ?thesis
      proof (cases x)
        case (Ok root)
        obtain st q where "put_leaves (add_pending h root (BitcoinBlockHeaderAttestation (word_of_int height)))
            (range_leaves ord (u_leaves utx)) (sm_store s) = (st, q)" by fastforce
        then show ?thesis using run b Some header m Ok \<open>be_BlockTxIDs btc blockHash = Ok b\<close> puts
          by (auto simp: finalize_def Let_def)
      qed (use run b Some header m \<open>be_BlockTxIDs btc blockHash = Ok b\<close> stays in \<open>auto simp: finalize_def\<close>)
    qed (use run Ok b Some stays in \<open>auto simp: finalize_def\<close>)
  qed
next
  case (Err e)
  then have "s' = s" "utx' = utx" "r = Err e" using run by (simp_all add: finalize_def)
  then show ?thesis using stays by simp
next
  case (Panic p)
  then have "s' = s" "utx' = utx" "r = Panic p" using run by (simp_all add: finalize_def)
  then show ?thesis using stays by simp
qed

context record_keeping
begin

lemma put_leaves_records:
  assumes "put_leaves h ls (storage_of put get has x) = (st', r)"
  shows "\<exists>x'. st' = storage_of put get has x' \<and> (\<forall>c. recorded x c \<longrightarrow> recorded x' c) \<and>
    (r = Ok () \<longrightarrow> (\<forall>c \<in> fst ` set ls. recorded x' c))"
  using assms
proof (induction ls arbitrary: x)
  case (Cons l ls)
  obtain c a where l: "l = (c, a)" by (cases l)
  have sel: "so_Put (storage_of put get has x) = put" "so_state (storage_of put get has x) = x"
    "storage_of put get has x\<lparr>so_state := y\<rparr> = storage_of put get has y" for y by (simp_all add: storage_of_def)
  show ?case
  proof (cases "unfold (length h) h a")
    case (Ok ts)
    obtain y p where y: "put x c ts = (y, p)" by fastforce
    show ?thesis
    proof (cases "p = Ok ()")
      case True
      then have "put_leaves h ls (storage_of put get has y) = (st', r)" using Cons.prems y Ok by (simp add: l sel)
      from Cons.IH [OF this] put_records [of x c ts y] put_remembers [OF y] y True show ?thesis by (auto simp: l)
    next
      case False
      then have "st' = storage_of put get has y" "r = p" using Cons.prems y Ok by (auto simp: l sel split: result.splits)
      then show ?thesis using put_remembers [OF y] False by auto
    qed
  qed (use Cons.prems l in auto)
qed auto

lemma finalize_records:
  assumes "uses put get has s" and "distinct (map fst (u_leaves utx))"
    and ord: "mset (ord (map fst (u_leaves utx))) = mset (map fst (u_leaves utx))"
    and run: "finalize H btc ord s utx blockHash = (s', utx', r)"
  shows "uses put get has s' \<and> frame s s' \<and> sm_pending s' = sm_pending s \<and> u_leaves utx' = u_leaves utx \<and>
    (\<forall>c. recorded (in_store s) c \<longrightarrow> recorded (in_store s') c) \<and> (r = Ok () \<longrightarrow> (\<forall>c \<in> fst ` set (u_leaves utx). recorded (in_store s') c))"
proof -
  from assms(1) obtain x where x: "sm_store s = storage_of put get has x" by (auto simp: uses_def)
  have keys: "fst ` set (range_leaves ord (u_leaves utx)) = fst ` set (u_leaves utx)"
    using range_leaves_set(1) [of ord, OF ord assms(2)] by simp
  from run show ?thesis
  proof (cases rule: finalize_cases)
    case stays
    then show ?thesis using assms(1) by (simp add: frame_def)
  next
    case (puts h st)
    from put_leaves_records [OF puts(1) [unfolded x], unfolded keys] obtain x' where x': "st = storage_of put get has x'"
      "\<forall>c. recorded x c \<longrightarrow> recorded x' c" "r = Ok () \<longrightarrow> (\<forall>c \<in> fst ` set (u_leaves utx). recorded x' c)"
      by blast
    then show ?thesis using puts x by (auto simp: uses_def frame_def storage_of_def)
  qed
qed

text \<open>
  The loop over the unconfirmed transactions: a commitment of one of them is requeued, stays in a remaining
  transaction, or is recorded.
\<close>

lemma track_loop_keeps:
  assumes "uses put get has s" and "\<forall>u \<in> set us. distinct (map fst (u_leaves u))" and "world_ok w"
    and "track_loop H w k us s = (s', Ok rem)"
  shows "uses put get has s' \<and> frame s s' \<and> set (sm_pending s) \<subseteq> set (sm_pending s') \<and>
    set (sm_pending s') \<subseteq> set (sm_pending s) \<union> leaf_keys us \<and> (distinct (sm_pending s) \<longrightarrow> distinct (sm_pending s')) \<and>
    leaf_keys rem \<subseteq> leaf_keys us \<and> (\<forall>u \<in> set rem. distinct (map fst (u_leaves u))) \<and>
    (\<forall>c. recorded (in_store s) c \<longrightarrow> recorded (in_store s') c) \<and>
    (\<forall>c \<in> leaf_keys us. c \<in> set (sm_pending s') \<or> c \<in> leaf_keys rem \<or> recorded (in_store s') c)"
  using assms(1,2,4)
proof (induction us arbitrary: k s rem)
  case Nil
  then show ?case by (simp add: frame_def)
next
  case (Cons u us)
  let ?L = "fst ` set (u_leaves u)"
  have d: "distinct (map fst (u_leaves u))" and ds: "\<forall>u \<in> set us. distinct (map fst (u_leaves u))" using Cons.prems(2) by simp_all
  have keys: "set (w_order w k (map fst (u_leaves u))) = ?L"
    using assms(3) mset_eq_setD [of "w_order w k (map fst (u_leaves u))" "map fst (u_leaves u)"] by (simp add: world_ok_def)
  have ord: "mset (w_order w k (map fst (u_leaves u))) = mset (map fst (u_leaves u))" using assms(3) by (simp add: world_ok_def)
  consider (keep) s1 u1 rest where "track_loop H w (Suc k) us s1 = (s', Ok rest)" "rem = u1 # rest" "uses put get has s1" "frame s s1"
        "sm_pending s1 = sm_pending s" "u_leaves u1 = u_leaves u" "\<forall>c. recorded (in_store s) c \<longrightarrow> recorded (in_store s1) c"
    | (conflict) "track_loop H w (Suc k) us (requeue (w_order w k (map fst (u_leaves u))) s) = (s', Ok rem)"
    | (final) s1 where "track_loop H w (Suc k) us s1 = (s', Ok rem)" "uses put get has s1" "frame s s1"
        "sm_pending s1 = sm_pending s" "\<forall>c. recorded (in_store s) c \<longrightarrow> recorded (in_store s1) c" "\<forall>c \<in> ?L. recorded (in_store s1) c"
  proof (cases "be_TxStatus (w_btc w k) (u_txid u)")
    case (Ok st)
    show ?thesis
    proof (cases "tx_Confirmations st < 0")
      case True
      then show ?thesis using Cons.prems(3) Ok conflict by simp
    next
      case pos: False
      show ?thesis
      proof (cases "tx_Confirmations st \<ge> sc_MinConfirmations (sm_cfg s) \<and> tx_BlockHash st \<noteq> None")
        case True
        obtain s1 u1 r where f: "finalize H (w_btc w k) (w_order w k) s u (the (tx_BlockHash st)) = (s1, u1, r)"
          by (metis prod.exhaust)
        note k1 = finalize_records [OF Cons.prems(1) d ord f]
        show ?thesis using Cons.prems(3) Ok pos True f k1 final keep [of s1 _ u1]
          by (cases r) (auto simp: andThen_eq_Ok split: prod.splits)
      next
        case False
        then show ?thesis using Cons.prems(1,3) Ok pos keep [of s _ u]
          by (auto simp: andThen_eq_Ok frame_def split: prod.splits)
      qed
    qed
  next
    case (Err e)
    then show ?thesis using Cons.prems(1,3) keep [of s _ u] by (auto simp: andThen_eq_Ok frame_def split: prod.splits)
  qed (use Cons.prems(3) in simp)
  then show ?case
  proof cases
    case keep
    from Cons.IH [OF keep(3) ds keep(1)] keep d show ?thesis by (auto simp: frame_def)
  next
    case conflict
    have "uses put get has (requeue (w_order w k (map fst (u_leaves u))) s)" using Cons.prems(1) by (simp add: uses_def)
    from Cons.IH [OF this ds conflict] show ?thesis by (auto simp: frame_def keys)
  next
    case final
    from Cons.IH [OF final(2) ds final(1)] final show ?thesis by (auto simp: frame_def)
  qed
qed

end

section \<open>Reading the journal\<close>

lemma Read_cursor:
  assumes "journal_of j rs" and "unat i < length rs"
  shows "Read j i = Ok (rs ! unat i)"
  using Read_journal_of(1) [OF assms] by simp

lemma Len_journal: "journal_of j rs \<Longrightarrow> Len j = word_of_nat (length rs) \<and> unat (Len j) = length rs"
  using unat_count [of "length rs"] by (auto simp: journal_of_def Len_def JournalRecordSize_def)

lemma journal_records: "journal_of j rs \<Longrightarrow> c \<in> set rs \<Longrightarrow> length c = JournalRecordSize"
  by (simp add: journal_of_def)

definition pool_ok :: "'s Stamper \<Rightarrow> bool" where
  "pool_ok s \<longleftrightarrow> distinct (sm_pending s) \<and> (\<forall>c \<in> waiting_in s. length c = JournalRecordSize) \<and>
     (\<forall>u \<in> set (sm_unconfirmed s). distinct (map fst (u_leaves u)))"

lemma ingest_loop_reads:
  assumes "journal_of (sm_journal s) rs" and "unat (sm_cursor s) \<le> length rs" and "n = Len (sm_journal s)"
  shows "\<exists>s'. ingest_loop n s = (s', Ok ()) \<and> sm_journal s' = sm_journal s \<and> sm_cfg s' = sm_cfg s \<and> sm_store s' = sm_store s \<and>
    sm_unconfirmed s' = sm_unconfirmed s \<and> unat (sm_cursor s) \<le> unat (sm_cursor s') \<and> unat (sm_cursor s') \<le> length rs \<and>
    set (sm_pending s') = set (sm_pending s) \<union> {rs ! i | i. unat (sm_cursor s) \<le> i \<and> i < unat (sm_cursor s')} \<and>
    (distinct (sm_pending s) \<longrightarrow> distinct (sm_pending s')) \<and>
    (unat (sm_cursor s') = length rs \<or> sc_MaxPending (sm_cfg s) \<le> int (length (sm_pending s')))"
  using assms
proof (induction n s rule: ingest_loop.induct)
  case (1 n s)
  note n = Len_journal [OF "1.prems"(1)]
  show ?case
  proof (cases "sm_cursor s < n \<and> \<not> sc_MaxPending (sm_cfg s) \<le> int (length (sm_pending s))")
    case False
    then have "ingest_loop n s = (s, Ok ())" by (auto simp: ingest_loop.simps [of n s])
    moreover have "unat (sm_cursor s) = length rs \<or> sc_MaxPending (sm_cfg s) \<le> int (length (sm_pending s))"
      using False "1.prems"(2,3) n by (auto simp: word_less_nat_alt)
    ultimately show ?thesis using "1.prems"(2) by auto
  next
    case True
    let ?i = "unat (sm_cursor s)"
    have i: "?i < length rs" using True "1.prems"(3) n by (auto simp: word_less_nat_alt)
    have rd: "Read (sm_journal s) (sm_cursor s) = Ok (rs ! ?i)" using Read_cursor [OF "1.prems"(1) i] .
    define s1 where "s1 = (set_pending (rs ! ?i) s)\<lparr>sm_cursor := sm_cursor s + 1\<rparr>"
    have suc: "unat (sm_cursor s + 1) = Suc ?i" using unat_succ True by blast
    have run: "ingest_loop n s = ingest_loop n s1" using True rd by (simp add: ingest_loop.simps [of n s] s1_def)
    have pend: "set (sm_pending s1) = insert (rs ! ?i) (set (sm_pending s))" "distinct (sm_pending s1) = distinct (sm_pending s)"
      using set_pending_sel(1,2) [of "rs ! ?i" s] by (simp_all add: s1_def)
    from "1.IH" [OF _ _ rd, folded s1_def] True "1.prems" i suc obtain s' where
      s': "ingest_loop n s1 = (s', Ok ())" "sm_journal s' = sm_journal s" "sm_cfg s' = sm_cfg s" "sm_store s' = sm_store s"
        "sm_unconfirmed s' = sm_unconfirmed s" "Suc ?i \<le> unat (sm_cursor s')" "unat (sm_cursor s') \<le> length rs"
        "set (sm_pending s') = set (sm_pending s1) \<union> {rs ! i | i. Suc ?i \<le> i \<and> i < unat (sm_cursor s')}"
        "distinct (sm_pending s1) \<longrightarrow> distinct (sm_pending s')"
        "unat (sm_cursor s') = length rs \<or> sc_MaxPending (sm_cfg s) \<le> int (length (sm_pending s'))"
      by (auto simp: s1_def)
    have "{rs ! i | i. ?i \<le> i \<and> i < unat (sm_cursor s')} = insert (rs ! ?i) {rs ! i | i. Suc ?i \<le> i \<and> i < unat (sm_cursor s')}"
      using s'(6) by (force simp: Suc_le_eq le_less)
    then show ?thesis using s' run pend by (intro exI [of _ s']) auto
  qed
qed

section \<open>The invariant\<close>

definition accounted :: "('s \<Rightarrow> bytes \<Rightarrow> bool) \<Rightarrow> bytes list \<Rightarrow> 's Stamper \<Rightarrow> bool" where
  "accounted recorded rs s \<longleftrightarrow> unat (sm_cursor s) \<le> length rs \<and>
     (\<forall>i < unat (sm_cursor s). rs ! i \<in> waiting_in s \<or> recorded (in_store s) (rs ! i))"

lemma maybeSendTx_keeps:
  assumes H: "hash_sizes H" and p: "pool_ok s" and w: "world_ok w" and run: "maybeSendTx H w k s = (s', Ok ())"
  shows "frame s s' \<and> sm_store s' = sm_store s \<and> pool_ok s' \<and> waiting_in s' = waiting_in s"
proof (cases "sm_pending s = [] \<or> \<not> due w s")
  case True
  then have "s' = s" using run by (auto simp: maybeSendTx_def due_def not_le split: if_splits)
  then show ?thesis using p by (simp add: frame_def)
next
  case False
  define ans where "ans = be_SendOpReturn (w_btc w k) (merkle_root H (map (sha256_Sum256 H) (w_order w k (sm_pending s)))) (sc_MaxFee (sm_cfg s))"
  have ord: "mset (w_order w k (sm_pending s)) = mset (sm_pending s)" using w by (simp add: world_ok_def)
  from p have pend: "distinct (sm_pending s)" "\<forall>c \<in> set (sm_pending s). length c = JournalRecordSize"
    by (auto simp: pool_ok_def waiting_in_def)
  note sends = maybeSendTx_outcome [OF H _ pend ord _ refl ans_def]
  show ?thesis
  proof (cases ans)
    case (Err e)
    then have "s' = s" using sends False run by simp
    then show ?thesis using p by (simp add: frame_def)
  next
    case (Panic q)
    then show ?thesis using sends False run by simp
  next
    case (Ok tr)
    obtain txid rawTx where tr: "tr = (txid, rawTx)" by (cases tr)
    show ?thesis
    proof (cases "StripWitness (w_tx_Deserialize w) (w_tx_SerializeNoWitness w) rawTx")
      case strip: (Ok stripped)
      from sends False Ok tr strip obtain utx where
        u: "maybeSendTx H w k s = (s\<lparr>sm_pending := [], sm_unconfirmed := sm_unconfirmed s @ [utx], sm_lastTxTime := Some (w_lastTx w)\<rparr>, Ok ())"
          "map fst (u_leaves utx) = w_order w k (sm_pending s)" by auto
      have keys: "fst ` set (u_leaves utx) = set (sm_pending s)" "distinct (map fst (u_leaves utx))"
        using u(2) mset_eq_setD [OF ord] mset_eq_imp_distinct_iff [OF ord] pend(1) by (metis list.set_map, simp)
      then have "waiting_in s' = waiting_in s" using u(1) run by (auto simp: waiting_in_def)
      then show ?thesis using u(1) run p keys by (auto simp: pool_ok_def frame_def)
    qed (use sends False Ok tr run p in \<open>auto simp: frame_def\<close>)
  qed
qed

context record_keeping
begin

lemma step_keeps:
  assumes H: "hash_sizes H" and w: "world_ok w" and j: "journal_of (sm_journal s) rs" and u: "uses put get has s"
    and p: "pool_ok s" and a: "accounted recorded rs s" and run: "stamper_step H w s = (s', Ok ())"
  shows "journal_of (sm_journal s') rs \<and> uses put get has s' \<and> pool_ok s' \<and> accounted recorded rs s' \<and>
    (\<forall>c. c \<in> waiting_in s \<or> recorded (in_store s) c \<longrightarrow> c \<in> waiting_in s' \<or> recorded (in_store s') c)"
proof -
  from ingest_loop_reads [OF j _ refl] a obtain s1 where s1: "ingestJournal s = (s1, Ok ())" "sm_journal s1 = sm_journal s"
    "sm_store s1 = sm_store s" "sm_unconfirmed s1 = sm_unconfirmed s" "unat (sm_cursor s) \<le> unat (sm_cursor s1)" "unat (sm_cursor s1) \<le> length rs"
    "set (sm_pending s1) = set (sm_pending s) \<union> {rs ! i | i. unat (sm_cursor s) \<le> i \<and> i < unat (sm_cursor s1)}"
    "distinct (sm_pending s) \<longrightarrow> distinct (sm_pending s1)" by (auto simp: accounted_def ingestJournal_def)
  have wait1: "waiting_in s1 = waiting_in s \<union> {rs ! i | i. unat (sm_cursor s) \<le> i \<and> i < unat (sm_cursor s1)}"
    using s1(4,7) by (auto simp: waiting_in_def)
  have p1: "pool_ok s1" using p s1(4,6,8) wait1 journal_records [OF j] by (auto simp: pool_ok_def)
  have u1: "uses put get has s1" using u s1(3) by (simp add: uses_def)
  have a1: "accounted recorded rs s1"
    unfolding accounted_def
  proof (intro conjI allI impI)
    fix i assume "i < unat (sm_cursor s1)"
    then show "rs ! i \<in> waiting_in s1 \<or> recorded (in_store s1) (rs ! i)"
      using a s1(3) wait1 by (cases "i < unat (sm_cursor s)") (auto simp: accounted_def)
  qed (rule s1(6))
  from run s1(1) obtain s2 where t: "trackConfirmations H w s1 = (s2, Ok ())"
    and send: "maybeSendTx H w (length (sm_unconfirmed s1)) s2 = (s', Ok ())"
    by (auto simp: stamper_step_def split: prod.splits result.splits)
  from t obtain s1' rem where l: "track_loop H w 0 (sm_unconfirmed s1) s1 = (s1', Ok rem)" and s2: "s2 = s1'\<lparr>sm_unconfirmed := rem\<rparr>"
    by (auto simp: trackConfirmations_def split: prod.splits result.splits)
  have d1: "\<forall>u \<in> set (sm_unconfirmed s1). distinct (map fst (u_leaves u))" using p1 by (simp add: pool_ok_def)
  note k = track_loop_keeps [OF u1 d1 w l]
  have p2: "pool_ok s2" using k p1 s2 by (auto simp: pool_ok_def waiting_in_def)
  have kept: "c \<in> waiting_in s2 \<or> recorded (in_store s2) c" if "c \<in> waiting_in s1 \<or> recorded (in_store s1) c" for c
    using that k s2 by (auto simp: waiting_in_def)
  have "frame s1 s2" "uses put get has s2" using k s2 by (auto simp: frame_def uses_def)
  note m = maybeSendTx_keeps [OF H p2 w send]
  have kept': "c \<in> waiting_in s' \<or> recorded (in_store s') c" if "c \<in> waiting_in s1 \<or> recorded (in_store s1) c" for c
    using kept [OF that] m by auto
  have "accounted recorded rs s'" using a1 kept' \<open>frame s1 s2\<close> m by (simp add: accounted_def frame_def)
  then show ?thesis
    using kept' m \<open>frame s1 s2\<close> \<open>uses put get has s2\<close> s1(2,3) j wait1 by (auto simp: frame_def uses_def)
qed

lemma recover_loop_keeps:
  assumes "uses put get has s" and "recover_loop s is = (s', r)" and "\<forall>i \<in> set is. Read (sm_journal s) i = Ok (f i)"
  shows "sm_journal s' = sm_journal s \<and> sm_cfg s' = sm_cfg s \<and> sm_store s' = sm_store s \<and> sm_unconfirmed s' = sm_unconfirmed s \<and>
    (distinct (sm_pending s) \<longrightarrow> distinct (sm_pending s')) \<and> set (sm_pending s') \<subseteq> set (sm_pending s) \<union> f ` set is \<and>
    (r = Ok () \<longrightarrow> set (sm_pending s) \<subseteq> set (sm_pending s') \<and> (\<forall>i \<in> set is. f i \<in> set (sm_pending s') \<or> recorded (in_store s) (f i)))"
  using assms
proof (induction "is" arbitrary: s)
  case (Cons i "is")
  have rd: "Read (sm_journal s) i = Ok (f i)" using Cons.prems(3) by simp
  show ?case
  proof (cases "isConfirmed s (f i)")
    case (Ok b)
    define s1 where "s1 = (if b then s else set_pending (f i) s)"
    have "recover_loop s1 is = (s', r)" using Cons.prems(2) rd Ok by (simp add: s1_def)
    moreover have "uses put get has s1" "\<forall>i \<in> set is. Read (sm_journal s1) i = Ok (f i)"
      using Cons.prems(1,3) by (simp_all add: s1_def uses_def)
    ultimately have IH: "sm_journal s' = sm_journal s1 \<and> sm_cfg s' = sm_cfg s1 \<and> sm_store s' = sm_store s1 \<and> sm_unconfirmed s' = sm_unconfirmed s1 \<and>
      (distinct (sm_pending s1) \<longrightarrow> distinct (sm_pending s')) \<and> set (sm_pending s') \<subseteq> set (sm_pending s1) \<union> f ` set is \<and>
      (r = Ok () \<longrightarrow> set (sm_pending s1) \<subseteq> set (sm_pending s') \<and> (\<forall>i \<in> set is. f i \<in> set (sm_pending s') \<or> recorded (in_store s1) (f i)))"
      by (intro Cons.IH)
    have "f i \<in> set (sm_pending s1) \<or> recorded (in_store s) (f i)"
    proof (cases b)
      case True
      then obtain ts m att where "so_Get (sm_store s) (in_store s) (f i) = Ok ts" "(m, att) \<in> set (AllAttestations ts)" "is_bitcoin att"
        using Ok by (auto simp: isConfirmed_def list_ex_iff split: result.splits)
      then show ?thesis using Cons.prems(1) get_recorded by (auto simp: uses_def storage_of_def)
    qed (simp add: s1_def)
    then show ?thesis using IH by (auto simp: s1_def split: if_splits)
  qed (use Cons.prems(2) rd in auto)
qed auto

end

section \<open>Histories\<close>

text \<open>What the other users of the store do between two steps of the stamper: puts.\<close>

inductive put_star :: "('s \<Rightarrow> bytes \<Rightarrow> Timestamp \<Rightarrow> 's \<times> unit result) \<Rightarrow> 's \<Rightarrow> 's \<Rightarrow> bool" for put where
  put_none: "put_star put x x"
| put_more: "put_star put x y \<Longrightarrow> put y c t = (z, r) \<Longrightarrow> put_star put x z"

text \<open>
  The states the stamper reaches, with the records of the journal at that time: after recovery, and from tick
  to tick, between which the journal may have grown.
\<close>

inductive stamper_reach ::
  "hashes \<Rightarrow> ('s \<Rightarrow> bytes \<Rightarrow> Timestamp \<Rightarrow> 's \<times> unit result) \<Rightarrow> ('s \<Rightarrow> bytes \<Rightarrow> Timestamp result) \<Rightarrow> ('s \<Rightarrow> bytes \<Rightarrow> bool result) \<Rightarrow>
   'tx itself \<Rightarrow> bytes list \<Rightarrow> 's Stamper \<Rightarrow> bool"
  for H put get has tx
where
  start: "journal_of j rs \<Longrightarrow> Recover (NewStamper j (storage_of put get has x) cfg) = (s, Ok ()) \<Longrightarrow>
    stamper_reach H put get has tx rs s"
| tick: "stamper_reach H put get has tx rs s \<Longrightarrow> journal_of j (rs @ new) \<Longrightarrow> put_star put (in_store s) x \<Longrightarrow>
    world_ok (w :: 'tx world) \<Longrightarrow> stamper_step H w (s\<lparr>sm_journal := j, sm_store := storage_of put get has x\<rparr>) = (s', Ok ()) \<Longrightarrow>
    stamper_reach H put get has tx (rs @ new) s'"

context record_keeping
begin

lemma put_star_remembers: "put_star put x y \<Longrightarrow> recorded x c \<Longrightarrow> recorded y c"
  by (induction rule: put_star.induct) (use put_remembers in blast)+

lemma recover_accounts:
  assumes "journal_of j rs" and "Recover (NewStamper j (storage_of put get has x) cfg) = (s, Ok ())"
  shows "journal_of (sm_journal s) rs \<and> uses put get has s \<and> pool_ok s \<and> accounted recorded rs s"
proof -
  let ?s = "NewStamper j (storage_of put get has x) cfg"
  note n = Len_journal [OF assms(1), THEN conjunct2]
  have sel: "sm_journal ?s = j" "sm_store ?s = storage_of put get has x" "sm_pending ?s = []" "sm_unconfirmed ?s = []"
    by (simp_all add: NewStamper_def)
  have small: "length rs < 2 ^ 63" using assms(1) by (auto simp: journal_of_def JournalRecordSize_def)
  from assms(2) n obtain s1 where l: "recover_loop ?s (map word_of_nat [0..<length rs]) = (s1, Ok ())" and s: "s = s1\<lparr>sm_cursor := Len j\<rparr>"
    by (auto simp: Recover_def sel Let_def split: prod.splits result.splits)
  have un: "unat (word_of_nat i :: u64) = i" if "i < length rs" for i using unat_count that small by simp
  have rd: "\<forall>i \<in> set (map word_of_nat [0..<length rs]). Read (sm_journal ?s) i = Ok (rs ! unat i)"
    using Read_cursor [OF assms(1)] un by (auto simp: sel)
  have u: "uses put get has ?s" by (auto simp: uses_def sel)
  note k = recover_loop_keeps [OF u l rd]
  have idx: "(\<lambda>i :: u64. rs ! unat i) ` set (map word_of_nat [0..<length rs]) = set rs"
    using un by (force simp: image_iff in_set_conv_nth)
  have acc: "rs ! i \<in> set (sm_pending s1) \<or> recorded x (rs ! i)" if "i < length rs" for i
  proof -
    have "word_of_nat i \<in> set (map word_of_nat [0..<length rs] :: u64 list)" using that by simp
    then have "rs ! unat (word_of_nat i :: u64) \<in> set (sm_pending s1) \<or> recorded x (rs ! unat (word_of_nat i :: u64))"
      using k by (metis sel(2) storage_of_def Storage.select_convs(1))
    then show ?thesis using un [OF that] by simp
  qed
  have "set (sm_pending s1) \<subseteq> set rs" using k idx sel(3) by auto
  then have "pool_ok s" using k s sel(3,4) journal_records [OF assms(1)] by (auto simp: pool_ok_def waiting_in_def)
  moreover have "accounted recorded rs s" 
    unfolding accounted_def
  proof (intro conjI allI impI)
    have "in_store s = x" using k s sel(2) by (simp add: storage_of_def)
    then show "rs ! i \<in> waiting_in s \<or> recorded (in_store s) (rs ! i)" if "i < unat (sm_cursor s)" for i
      using acc [of i] that n s by (auto simp: waiting_in_def)
  qed (use n s in simp)
  ultimately show ?thesis using k s sel assms(1) u by (auto simp: uses_def)
qed

lemma stamper_invariant:
  assumes "stamper_reach H put get has tx rs s" and "hash_sizes H"
  shows "journal_of (sm_journal s) rs \<and> uses put get has s \<and> pool_ok s \<and> accounted recorded rs s"
  using assms(1)
proof (induction rule: stamper_reach.induct)
  case (start j rs x cfg s)
  then show ?case by (rule recover_accounts)
next
  case (tick rs s j new x w s')
  let ?s = "s\<lparr>sm_journal := j, sm_store := storage_of put get has x\<rparr>"
  have "pool_ok ?s" using tick.IH by (simp add: pool_ok_def waiting_in_def)
  moreover have "accounted recorded (rs @ new) ?s"
    using tick.IH put_star_remembers [OF tick.hyps(3)]
    by (fastforce simp: accounted_def waiting_in_def nth_append storage_of_def)
  moreover have "uses put get has ?s" by (auto simp: uses_def)
  ultimately show ?case using step_keeps [OF assms(2) tick.hyps(4) _ _ _ _ tick.hyps(5)] tick.hyps(2) by simp
qed

end

text \<open>The stores of the program keep records.\<close>

definition db_key :: "(bytes \<rightharpoonup> bytes) option \<Rightarrow> bytes \<Rightarrow> bool" where
  "db_key d c \<longleftrightarrow> (\<exists>m. d = Some m \<and> c \<in> dom m)"

context bolt_db
begin

lemma put_tx_key:
  "put_tx H B c t tx = Ok tx' \<Longrightarrow> \<exists>m v. content tx = Some m \<and> content tx' = Some (m(c \<mapsto> v))"
  using Put_Ok by (auto simp: put_tx_def bucket_Get_def andThen_eq_Ok Bucket_iff split: if_splits)

end

sublocale bolt_db \<subseteq> rk: record_keeping "\<lambda>db. db_key (committed db)" "bs_Put H B" "bs_Get H B" for H
proof
  show put: "db_key (committed x') c" if "bs_Put H B x c t = (x', Ok ())" for x c t x'
    using that Update_Ok put_tx_key unfolding bs_Put_def db_key_def by fastforce
  show "db_key (committed x') d" if "bs_Put H B x c t = (x', r)" "db_key (committed x) d" for x c t x' r d
  proof (cases "r = Ok ()")
    case True
    with that Update_Ok put_tx_key show ?thesis unfolding bs_Put_def db_key_def by fastforce
  next
    case False
    with that Update_fails show ?thesis unfolding bs_Put_def by metis
  qed
  show "db_key (committed x) c" if "bs_Get H B x c = Ok t" for x c t
    using that View_Ok Get_eq Bucket_iff
    by (fastforce simp: bs_Get_def bucket_Get_def andThen_eq_Ok db_key_def split: if_splits option.splits)
qed

interpretation ms_rk: record_keeping "\<lambda>s c. ms_Has s c" "ms_Put H" "ms_Get H" for H
  by unfold_locales (auto simp: ms_Put_def ms_Get_def ms_Has_def split: result.splits option.splits)

text \<open>Recovery starts no transaction.\<close>

lemma Recover_unconfirmed: "sm_unconfirmed (fst (Recover s)) = sm_unconfirmed s"
proof -
  have "sm_unconfirmed (fst (recover_loop s is)) = sm_unconfirmed s" for s :: "'a Stamper" and "is"
  proof (induction "is" arbitrary: s)
    case (Cons i "is")
    have "sm_unconfirmed (if b then s else set_pending c s) = sm_unconfirmed s" for b c by (simp add: set_pending_def)
    with Cons.IH show ?case by (simp split: result.split)
  qed simp
  from this [of s] show ?thesis unfolding Recover_def Let_def by (auto split: prod.splits result.splits) (metis fst_conv)+
qed

section \<open>Properties\<close>

text \<open>
  C11. No commitment is lost: in every state the stamper reaches, over any sequence of ticks with whatever the
  node answers, a growing journal and other writers to the store, each record of the journal up to the cursor
  is pending (in the pool or in an unconfirmed transaction, as \<open>IsPending\<close> reports) or recorded in the store.
\<close>

theorem stamper_no_commitment_lost:
  assumes "record_keeping recorded put get" and "hash_sizes H" and "stamper_reach H put get has tx rs s"
  shows "unat (sm_cursor s) \<le> length rs \<and>
    (\<forall>i < unat (sm_cursor s). IsPending s (rs ! i) \<or> recorded (so_state (sm_store s)) (rs ! i))"
  using record_keeping.stamper_invariant [OF assms(1,3,2)] by (auto simp: accounted_def IsPending_iff)

definition confirmed_in :: "'s Storage \<Rightarrow> bytes \<Rightarrow> bool" where
  "confirmed_in st c \<longleftrightarrow> (\<exists>t m h. so_Get st (so_state st) c = Ok t \<and> (m, BitcoinBlockHeaderAttestation h) \<in> set (AllAttestations t))"

lemma isConfirmed_iff:
  "\<not> is_panic (so_Get (sm_store s) (in_store s) c) \<Longrightarrow> isConfirmed s c = Ok (confirmed_in (sm_store s) c)"
  by (cases "so_Get (sm_store s) (in_store s) c")
    (force simp: isConfirmed_def confirmed_in_def list_ex_iff is_bitcoin_def split: attestation.splits)+

lemma recover_loop_exact:
  assumes "\<And>c. \<not> is_panic (so_Get (sm_store s) (in_store s) c)" and "\<forall>i \<in> set is. Read (sm_journal s) i = Ok (f i)"
  shows "\<exists>s'. recover_loop s is = (s', Ok ()) \<and> s' = s\<lparr>sm_pending := sm_pending s'\<rparr> \<and>
    set (sm_pending s') = set (sm_pending s) \<union> {c \<in> f ` set is. \<not> confirmed_in (sm_store s) c}"
  using assms
proof (induction "is" arbitrary: s)
  case (Cons i "is")
  let ?b = "confirmed_in (sm_store s) (f i)"
  define s1 where "s1 = (if ?b then s else set_pending (f i) s)"
  have s1: "sm_store s1 = sm_store s" "sm_journal s1 = sm_journal s" by (simp_all add: s1_def)
  have run: "recover_loop s (i # is) = recover_loop s1 is"
    using Cons.prems(2) isConfirmed_iff [OF Cons.prems(1)] by (simp add: s1_def)
  from Cons.IH [of s1] Cons.prems s1 obtain s' where s': "recover_loop s1 is = (s', Ok ())" "s' = s1\<lparr>sm_pending := sm_pending s'\<rparr>"
    "set (sm_pending s') = set (sm_pending s1) \<union> {c \<in> f ` set is. \<not> confirmed_in (sm_store s) c}" by auto
  have "s' = s\<lparr>sm_pending := sm_pending s'\<rparr>" using s'(2) by (cases ?b) (simp_all add: s1_def set_pending_def)
  moreover have "set (sm_pending s1) = set (sm_pending s) \<union> (if ?b then {} else {f i})" by (simp add: s1_def)
  ultimately show ?case using run s'(1,3) by (intro exI [of _ s']) auto
qed auto

text \<open>
  Recovery: it reads the whole journal and puts into the pool exactly the commitments whose stored proof
  has no Bitcoin attestation or that have none.
\<close>

theorem Recover_correct:
  assumes "journal_of (sm_journal s) rs" and "\<And>c. \<not> is_panic (so_Get (sm_store s) (so_state (sm_store s)) c)"
  shows "\<exists>s'. Recover s = (s', Ok ()) \<and> unat (sm_cursor s') = length rs \<and>
    set (sm_pending s') = set (sm_pending s) \<union> {c \<in> set rs. \<not> confirmed_in (sm_store s) c}"
proof -
  note n = Len_journal [OF assms(1), THEN conjunct2]
  have small: "length rs < 2 ^ 63" using assms(1) by (auto simp: journal_of_def JournalRecordSize_def)
  have un: "unat (word_of_nat i :: u64) = i" if "i < length rs" for i using unat_count that small by simp
  let ?is = "map word_of_nat [0..<length rs] :: u64 list"
  have "\<forall>i \<in> set ?is. Read (sm_journal s) i = Ok (rs ! unat i)" using Read_cursor [OF assms(1)] un by auto
  from recover_loop_exact [OF assms(2) this] obtain s' where s': "recover_loop s ?is = (s', Ok ())"
    "set (sm_pending s') = set (sm_pending s) \<union> {c \<in> (\<lambda>i. rs ! unat i) ` set ?is. \<not> confirmed_in (sm_store s) c}" by blast
  moreover have "(\<lambda>i :: u64. rs ! unat i) ` set ?is = set rs" using un by (force simp: image_iff in_set_conv_nth)
  ultimately show ?thesis using n by (simp add: Recover_def Let_def)
qed

lemma sample_Recover: "snd (Recover sample_stamper) = Ok ()" "sm_cursor (fst (Recover sample_stamper)) = 1"
  by code_simp+

theorem stamper_no_commitment_lost_witness:
  "IsPending (fst (Recover sample_stamper)) (replicate 44 1) \<or> db_key (so_state (sm_store (fst (Recover sample_stamper)))) (replicate 44 1)"
proof -
  have "Recover (NewStamper sample_journal (ref_storage sample_db) (DefaultConfig 100000)) = (fst (Recover sample_stamper), Ok ())"
    using sample_Recover(1) by (simp add: sample_stamper_def prod_eq_iff)
  from stamper_no_commitment_lost [OF ref.rk.record_keeping_axioms hash_sizes_const
      stamper_reach.start [OF sample_journal_ok this, where tx = "TYPE(bytes)"]]
  show ?thesis using sample_Recover(2) by simp
qed

end
