(* ===== verification/Calendar_Server.thy ===== *)
theory Calendar_Server
  imports Relay_Server Batch_Proofs Stamper_History
begin

text \<open>
  The HTTP handlers of the calendar, \<^verbatim>\<open>api/calendarserver\<close>: they submit to the aggregator and look up in the
  calendar service itself. Several of them repeat the relay's; these are written out here as they are in
  the source and proved to answer as the relay's do.
\<close>

section \<open>The limits and the types\<close>

text \<open>
  The package repeats the constants of \<^verbatim>\<open>api/server/handler.go\<close> and most of its types; what is declared here is
  translated from \<^verbatim>\<open>handler.go\<close> and \<^verbatim>\<open>types.go\<close> of the calendar's package.
\<close>

definition cal_maxDigestLength :: nat where "cal_maxDigestLength = 64"
definition cal_maxUploadBytes :: nat where "cal_maxUploadBytes = 128 * 2 ^ 20"
definition cal_maxProofBytes :: nat where "cal_maxProofBytes = 2 ^ 20"
definition cal_otsAccept :: string where "cal_otsAccept = ''application/vnd.opentimestamps.v1''"

record cal_CreateTimestampRequest =
  cctr_Digest :: string

record cal_CreateTimestampResponse =
  ccts_Proof :: string
  ccts_Commitment :: string

definition json_cal_CreateTimestampResponse :: "cal_CreateTimestampResponse \<Rightarrow> jvalue" where
  "json_cal_CreateTimestampResponse r =
     JvObject [(''proof'', JvText (ccts_Proof r)), (''commitment'', JvText (ccts_Commitment r))]"

record cal_VerifyRequest =
  cvq_Digest :: string
  cvq_Proof :: string

record cal_AttestationInfoJSON =
  caj_Kind :: string
  caj_Detail :: string
  caj_Status :: string

definition json_cal_AttestationInfoJSON :: "cal_AttestationInfoJSON \<Rightarrow> jvalue" where
  "json_cal_AttestationInfoJSON a =
     JvObject [(''kind'', JvText (caj_Kind a)), (''detail'', JvText (caj_Detail a)), (''status'', JvText (caj_Status a))]"

record cal_VerifyResponse =
  cvr_Valid :: bool
  cvr_Status :: string
  cvr_Reason :: string
  cvr_VerifiedAt :: string
  cvr_BlockHeight :: u64
  cvr_BlockHash :: string
  cvr_Attestations :: "cal_AttestationInfoJSON list"

definition json_cal_VerifyResponse :: "cal_VerifyResponse \<Rightarrow> jvalue" where
  "json_cal_VerifyResponse r =
     JvObject ([(''valid'', JvBool (cvr_Valid r)), (''status'', JvText (cvr_Status r))] @
       omitempty (cvr_Reason r = '''') ''reason'' (JvText (cvr_Reason r)) @
       omitempty (cvr_VerifiedAt r = '''') ''verified_at'' (JvText (cvr_VerifiedAt r)) @
       omitempty (cvr_BlockHeight r = 0) ''block_height'' (jv_uint (cvr_BlockHeight r)) @
       omitempty (cvr_BlockHash r = '''') ''block_hash'' (JvText (cvr_BlockHash r)) @
       [(''attestations'', jv_slice (map json_cal_AttestationInfoJSON (cvr_Attestations r)))])"

record cal_UpgradeRequest =
  cuq_Digest :: string
  cuq_Proof :: string

record cal_UpgradeResponse =
  cur_Proof :: string
  cur_Upgraded :: bool
  cur_Complete :: bool

definition json_cal_UpgradeResponse :: "cal_UpgradeResponse \<Rightarrow> jvalue" where
  "json_cal_UpgradeResponse r =
     JvObject [(''proof'', JvText (cur_Proof r)), (''upgraded'', JvBool (cur_Upgraded r)), (''complete'', JvBool (cur_Complete r))]"

record cal_ErrorResponse =
  cer_Error :: string

definition json_cal_ErrorResponse :: "cal_ErrorResponse \<Rightarrow> jvalue" where
  "json_cal_ErrorResponse r = JvObject [(''error'', JvText (cer_Error r))]"

section \<open>The handler\<close>

text \<open>
  \<open>ch_aggregator\<close> is what \<open>Aggregator.Submit\<close> returns to the call of this request: the timestamp, read off
  the heap at that moment (\<open>Submit_returns\<close>). \<open>ch_ToBTC\<close> is the JSON text of \<open>Amount.ToBTC\<close>.
\<close>

record ('s, 'j) CalHandler =
  ch_aggregator :: "bytes \<Rightarrow> Timestamp result"
  ch_calendar :: "'s Service"
  ch_version :: string
  ch_headers :: "HeaderSource option"
  ch_btc :: "'j BtcClient option"
  ch_stamper :: "'s Stamper option"

definition cal_NewHandler :: "(bytes \<Rightarrow> Timestamp result) \<Rightarrow> 's Service \<Rightarrow> string \<Rightarrow> ('s, 'j) CalHandler" where
  "cal_NewHandler aggregator cal version =
     \<lparr>ch_aggregator = aggregator, ch_calendar = cal, ch_version = version, ch_headers = None, ch_btc = None, ch_stamper = None\<rparr>"

definition cal_WithBitcoin :: "('s, 'j) CalHandler \<Rightarrow> 'j BtcClient option \<Rightarrow> 's Stamper option \<Rightarrow> ('s, 'j) CalHandler" where
  "cal_WithBitcoin h btc st =
     (let h = h\<lparr>ch_btc := btc\<rparr>;
          h = (case btc of None \<Rightarrow> h | Some c \<Rightarrow> h\<lparr>ch_headers := Some (\<lambda>_. btc_BlockHeader c)\<rparr>)
      in h\<lparr>ch_stamper := st\<rparr>)"

record cs_StatusResponse =
  cs_Version :: string
  cs_CalendarURI :: string
  cs_StamperEnabled :: bool
  cs_PendingCommitments :: int
  cs_UnconfirmedTxs :: int
  cs_LastTxTime :: string
  cs_BestBlockHeight :: int
  cs_WalletBalanceBTC :: string
  cs_BitcoinNetwork :: string

definition json_cs_StatusResponse :: "cs_StatusResponse \<Rightarrow> jvalue" where
  "json_cs_StatusResponse r =
     JvObject ([(''version'', JvText (cs_Version r)), (''calendar_uri'', JvText (cs_CalendarURI r)),
                (''stamper_enabled'', JvBool (cs_StamperEnabled r)),
                (''pending_commitments'', JvNumber (dec_int (cs_PendingCommitments r))),
                (''unconfirmed_txs'', JvNumber (dec_int (cs_UnconfirmedTxs r)))] @
       omitempty (cs_LastTxTime r = '''') ''last_tx_time'' (JvText (cs_LastTxTime r)) @
       omitempty (cs_BestBlockHeight r = 0) ''best_block_height'' (JvNumber (dec_int (cs_BestBlockHeight r))) @
       omitempty (cs_WalletBalanceBTC r = ''0'') ''wallet_balance_btc'' (JvNumber (cs_WalletBalanceBTC r)) @
       omitempty (cs_BitcoinNetwork r = '''') ''bitcoin_network'' (JvText (cs_BitcoinNetwork r)))"

record cs_HealthResponse =
  cs_Status :: string
  cs_Bitcoin :: string

definition json_cs_HealthResponse :: "cs_HealthResponse \<Rightarrow> jvalue" where
  "json_cs_HealthResponse r =
     JvObject ([(''status'', JvText (cs_Status r))] @ omitempty (cs_Bitcoin r = '''') ''bitcoin'' (JvText (cs_Bitcoin r)))"

definition cal_setOTSHeaders :: "ResponseWriter \<Rightarrow> ResponseWriter" where
  "cal_setOTSHeaders w = Header_Set ''Accept'' cal_otsAccept w"

definition cal_writeJSON :: "int \<Rightarrow> jvalue \<Rightarrow> ResponseWriter \<Rightarrow> ResponseWriter" where
  "cal_writeJSON status v w = Write (Encode v) (WriteHeader status (Header_Set ''Content-Type'' ''application/json'' w))"

definition cal_writeJSONError :: "int \<Rightarrow> string \<Rightarrow> ResponseWriter \<Rightarrow> ResponseWriter" where
  "cal_writeJSONError status msg w = cal_writeJSON status (json_cal_ErrorResponse \<lparr>cer_Error = msg\<rparr>) w"

section \<open>Submitting digests\<close>

definition cal_postDigest :: "('s, 'j) CalHandler \<Rightarrow> Request \<Rightarrow> ResponseWriter \<Rightarrow> ResponseWriter result" where
  "cal_postDigest h r w =
     (let w = cal_setOTSHeaders w in
      if q_ContentLength r < 0 then Ok (http_Error ''invalid Content-Length'' 400 w)
      else
        check (ReadAll_limited (cal_maxDigestLength + 1) [] (q_Body r)) (\<lambda>_. Ok (http_Error ''failed to read body'' 400 w)) (\<lambda>body.
        if length body = 0 \<or> length body > cal_maxDigestLength then Ok (http_Error ''digest too long'' 400 w)
        else
          check (ch_aggregator h body) (\<lambda>e. Ok (http_Error (error_string e) 500 w)) (\<lambda>ts.
          check (ts_SerializeBytes ts) (\<lambda>e. Ok (http_Error (error_string e) 500 w)) (\<lambda>data.
          Ok (Write data (WriteHeader 200 (Header_Set ''Content-Type'' ''application/octet-stream'' w)))))))"

definition cal_postCreateJSON :: "('s, 'j) CalHandler \<Rightarrow> cal_CreateTimestampRequest result \<Rightarrow> ResponseWriter \<Rightarrow> ResponseWriter result" where
  "cal_postCreateJSON h decoded w =
     check decoded (\<lambda>_. Ok (cal_writeJSONError 400 ''invalid JSON body'' w)) (\<lambda>req.
     check (hex_DecodeString (cctr_Digest req)) (\<lambda>_. Ok (cal_writeJSONError 400 ''digest must be hex-encoded'' w)) (\<lambda>digest.
     if length digest = 0 \<or> length digest > cal_maxDigestLength then Ok (cal_writeJSONError 400 ''invalid digest length'' w)
     else
       check (ch_aggregator h digest) (\<lambda>e. Ok (cal_writeJSONError 500 (error_string e) w)) (\<lambda>ts.
       check (ts_SerializeBytes ts) (\<lambda>e. Ok (cal_writeJSONError 500 (error_string e) w)) (\<lambda>proof.
       Ok (cal_writeJSON 200 (json_cal_CreateTimestampResponse
         \<lparr>ccts_Proof = hex_EncodeToString proof, ccts_Commitment = hex_EncodeToString (ts_Msg ts)\<rparr>) w)))))"

section \<open>Looking up proofs\<close>

definition cal_getTimestamp :: "('s, 'j) CalHandler \<Rightarrow> Request \<Rightarrow> ResponseWriter \<Rightarrow> ResponseWriter result" where
  "cal_getTimestamp h r w =
     (let w = cal_setOTSHeaders w in
      check (hex_DecodeString (q_PathValue r ''commitment''))
        (\<lambda>_. Ok (http_Error ''commitment must be hex-encoded bytes'' 400 w)) (\<lambda>commitment.
      check (Service_Get (ch_calendar h) commitment)
        (\<lambda>_. let w = Header_Set ''Cache-Control'' ''public, max-age=60'' w in
              if (case ch_stamper h of None \<Rightarrow> False | Some st \<Rightarrow> IsPending st commitment)
              then Ok (http_Error ''Pending confirmation in Bitcoin blockchain'' 404 w)
              else Ok (http_Error ''Commitment not found'' 404 w)) (\<lambda>ts.
      check (ts_SerializeBytes ts) (\<lambda>e. Ok (http_Error (error_string e) 500 w)) (\<lambda>data.
      Ok (Write data (WriteHeader 200 (Header_Set ''Cache-Control'' ''public, max-age=31536000''
        (Header_Set ''Content-Type'' ''application/octet-stream'' w))))))))"

definition cal_getHealth :: "('s, 'j) CalHandler \<Rightarrow> ResponseWriter \<Rightarrow> ResponseWriter result" where
  "cal_getHealth h w =
     (case ch_btc h of
        None \<Rightarrow> Ok (cal_writeJSON 200 (json_cs_HealthResponse \<lparr>cs_Status = ''ok'', cs_Bitcoin = ''''\<rparr>) w)
      | Some btc \<Rightarrow>
          check (BlockCount btc)
            (\<lambda>e. Ok (cal_writeJSON 503 (json_cs_HealthResponse
               \<lparr>cs_Status = ''degraded'', cs_Bitcoin = ''unreachable: '' @ error_string e\<rparr>) w))
            (\<lambda>_. Ok (cal_writeJSON 200 (json_cs_HealthResponse \<lparr>cs_Status = ''ok'', cs_Bitcoin = ''ok''\<rparr>) w)))"

text \<open>The first two parts of \<open>getStatus\<close> fill the response from the calendar, the stamper and the node.\<close>

definition status_stamper :: "'s Stamper option \<Rightarrow> cs_StatusResponse \<Rightarrow> cs_StatusResponse" where
  "status_stamper stamper resp =
     (case stamper of
        None \<Rightarrow> resp
      | Some s \<Rightarrow>
          let st = Status s;
              resp = resp\<lparr>cs_StamperEnabled := True, cs_PendingCommitments := int (ss_Pending st),
                          cs_UnconfirmedTxs := int (ss_UnconfirmedTxs st)\<rparr>
          in case ss_LastTxTime st of
               None \<Rightarrow> resp
             | Some t \<Rightarrow> resp\<lparr>cs_LastTxTime := format_RFC3339 (t div 1000000000)\<rparr>)"

definition status_btc :: "(int \<Rightarrow> string) \<Rightarrow> 'j BtcClient option \<Rightarrow> cs_StatusResponse \<Rightarrow> cs_StatusResponse result" where
  "status_btc ToBTC client resp =
     (case client of
        None \<Rightarrow> Ok resp
      | Some btc \<Rightarrow>
          let resp = resp\<lparr>cs_BitcoinNetwork := Network btc\<rparr> in
          andThen (check (BlockCount btc) (\<lambda>_. Ok resp) (\<lambda>height. Ok (resp\<lparr>cs_BestBlockHeight := height\<rparr>))) (\<lambda>resp.
          check (WalletBalance btc) (\<lambda>_. Ok resp) (\<lambda>bal. Ok (resp\<lparr>cs_WalletBalanceBTC := ToBTC bal\<rparr>))))"

definition cal_getStatus :: "(int \<Rightarrow> string) \<Rightarrow> ('s, 'j) CalHandler \<Rightarrow> ResponseWriter \<Rightarrow> ResponseWriter result" where
  "cal_getStatus ToBTC h w =
     (let resp = \<lparr>cs_Version = ch_version h, cs_CalendarURI = URI (ch_calendar h), cs_StamperEnabled = False,
            cs_PendingCommitments = 0, cs_UnconfirmedTxs = 0, cs_LastTxTime = '''', cs_BestBlockHeight = 0,
            cs_WalletBalanceBTC = ''0'', cs_BitcoinNetwork = ''''\<rparr>
      in andThen (status_btc ToBTC (ch_btc h) (status_stamper (ch_stamper h) resp)) (\<lambda>resp.
         Ok (cal_writeJSON 200 (json_cs_StatusResponse resp) w)))"

section \<open>Verifying, upgrading\<close>

definition calendarUpgrader_GetTimestamp :: "('s, 'j) CalHandler \<Rightarrow> Upgrader" where
  "calendarUpgrader_GetTimestamp h k uri commitment = Service_Get (ch_calendar h) commitment"

definition cal_verifyOptions :: "('s, 'j) CalHandler \<Rightarrow> Options" where
  "cal_verifyOptions h = \<lparr>o_Upgrader = Some (calendarUpgrader_GetTimestamp h), o_Headers = ch_headers h\<rparr>"

definition cal_verifyResponseFrom :: "Result \<Rightarrow> cal_VerifyResponse" where
  "cal_verifyResponseFrom result =
     (let resp = \<lparr>cvr_Valid = r_Valid result, cvr_Status = r_Status result, cvr_Reason = r_Reason result,
            cvr_VerifiedAt = '''', cvr_BlockHeight = r_BlockHeight result, cvr_BlockHash = r_BlockHash result,
            cvr_Attestations = []\<rparr>;
          resp = (case r_VerifiedAt result of None \<Rightarrow> resp | Some t \<Rightarrow> resp\<lparr>cvr_VerifiedAt := format_RFC3339 t\<rparr>)
      in fold (\<lambda>att resp. resp\<lparr>cvr_Attestations := cvr_Attestations resp @
                 [\<lparr>caj_Kind = ai_Kind att, caj_Detail = ai_Detail att, caj_Status = ai_Status att\<rparr>]\<rparr>)
           (r_Attestations result) resp)"

definition cal_postVerifyJSON :: "hashes \<Rightarrow> ('s, 'j) CalHandler \<Rightarrow> cal_VerifyRequest result \<Rightarrow> ResponseWriter \<Rightarrow> ResponseWriter result" where
  "cal_postVerifyJSON H h decoded w =
     check decoded (\<lambda>_. Ok (cal_writeJSONError 400 ''invalid JSON body'' w)) (\<lambda>req.
     check (hex_DecodeString (cvq_Digest req)) (\<lambda>_. Ok (cal_writeJSONError 400 ''digest must be hex-encoded'' w)) (\<lambda>digest.
     check (hex_DecodeString (cvq_Proof req)) (\<lambda>_. Ok (cal_writeJSONError 400 ''proof must be hex-encoded'' w)) (\<lambda>proofBytes.
     check (ts_DeserializeBytes H proofBytes digest) (\<lambda>_. Ok (cal_writeJSONError 400 ''invalid proof'' w)) (\<lambda>ts.
     check (snd (VerifyProof H (cal_verifyOptions h) ts digest)) (\<lambda>e. Ok (cal_writeJSONError 500 (error_string e) w)) (\<lambda>result.
     Ok (cal_writeJSON 200 (json_cal_VerifyResponse (cal_verifyResponseFrom result)) w))))))"

definition cal_postUpgradeJSON :: "hashes \<Rightarrow> ('s, 'j) CalHandler \<Rightarrow> cal_UpgradeRequest result \<Rightarrow> ResponseWriter \<Rightarrow> ResponseWriter result" where
  "cal_postUpgradeJSON H h decoded w =
     check decoded (\<lambda>_. Ok (cal_writeJSONError 400 ''invalid JSON body'' w)) (\<lambda>req.
     check (hex_DecodeString (cuq_Digest req)) (\<lambda>_. Ok (cal_writeJSONError 400 ''digest must be hex-encoded'' w)) (\<lambda>digest.
     check (hex_DecodeString (cuq_Proof req)) (\<lambda>_. Ok (cal_writeJSONError 400 ''proof must be hex-encoded'' w)) (\<lambda>proofBytes.
     check (ts_DeserializeBytes H proofBytes digest) (\<lambda>_. Ok (cal_writeJSONError 400 ''invalid proof'' w)) (\<lambda>ts.
     case Upgrade H (calendarUpgrader_GetTimestamp h) ts of (ts', upgraded) \<Rightarrow>
     check upgraded (\<lambda>e. Ok (cal_writeJSONError 500 (error_string e) w)) (\<lambda>upgraded.
     check (ts_SerializeBytes ts') (\<lambda>e. Ok (cal_writeJSONError 500 (error_string e) w)) (\<lambda>data.
     Ok (cal_writeJSON 200 (json_cal_UpgradeResponse
       \<lparr>cur_Proof = hex_EncodeToString data, cur_Upgraded = upgraded, cur_Complete = IsComplete ts'\<rparr>) w)))))))"

section \<open>Files\<close>

definition cal_postStampFile :: "hashes \<Rightarrow> ('s, 'j) CalHandler \<Rightarrow> Request \<Rightarrow> ResponseWriter \<Rightarrow> ResponseWriter result" where
  "cal_postStampFile H h r w =
     check (FormFile cal_maxUploadBytes r ''file'') (\<lambda>_. Ok (cal_writeJSONError 400 (''multipart field '' @ quote_string ''file'' @ '' required'') w)) (\<lambda>(filename, file).
     check (FromReader H file) (\<lambda>e. Ok (cal_writeJSONError 400 (''hash file: '' @ error_string e) w)) (\<lambda>det.
     check (ch_aggregator h (FileDigest det)) (\<lambda>e. Ok (cal_writeJSONError 500 (error_string e) w)) (\<lambda>proof.
     check (merge_into H det proof) (\<lambda>e. Ok (cal_writeJSONError 500 (error_string e) w)) (\<lambda>det.
     check (df_SerializeBytes det) (\<lambda>e. Ok (cal_writeJSONError 500 (error_string e) w)) (\<lambda>data.
     let name = Base filename;
         name = (if name = '''' \<or> name = ''.'' \<or> name = ''/'' then ''file'' else name)
     in Ok (Write data (WriteHeader 200
          (Header_Set ''Content-Disposition'' (''attachment; filename='' @ [CHR 0x22] @ name @ ''.ots'' @ [CHR 0x22])
            (Header_Set ''Content-Type'' ''application/octet-stream'' w)))))))))"

fun cal_read_proof :: "bytes \<Rightarrow> reader \<Rightarrow> bytes" where
  "cal_read_proof otsData [] = otsData"
| "cal_read_proof otsData ((buf, rerr) # r) =
     (if length otsData \<le> cal_maxProofBytes then
        (if rerr \<noteq> None then otsData @ buf else cal_read_proof (otsData @ buf) r)
      else otsData)"

definition cal_postVerifyFile :: "hashes \<Rightarrow> ('s, 'j) CalHandler \<Rightarrow> Request \<Rightarrow> ResponseWriter \<Rightarrow> ResponseWriter result" where
  "cal_postVerifyFile H h r w =
     check (FormFile cal_maxUploadBytes r ''file'') (\<lambda>_. Ok (cal_writeJSONError 400 (''multipart field '' @ quote_string ''file'' @ '' required'') w)) (\<lambda>(_, file).
     check (FormFile cal_maxUploadBytes r ''ots'') (\<lambda>_. Ok (cal_writeJSONError 400 (''multipart field '' @ quote_string ''ots'' @ '' required'') w)) (\<lambda>(_, otsFile).
     let otsData = cal_read_proof [] otsFile in
     if length otsData > cal_maxProofBytes then Ok (cal_writeJSONError 400 ''proof too large'' w)
     else
       check (DeserializeDetachedBytes H otsData) (\<lambda>e. Ok (cal_writeJSONError 400 (''invalid .ots proof: '' @ error_string e) w)) (\<lambda>det.
       check (snd (VerifyDetached H (cal_verifyOptions h) file (df_Timestamp det))) (\<lambda>e. Ok (cal_writeJSONError 500 (error_string e) w)) (\<lambda>result.
       Ok (cal_writeJSON 200 (json_cal_VerifyResponse (cal_verifyResponseFrom result)) w)))))"

section \<open>Routes\<close>

definition cal_Register :: "(string \<times> endpoint) list" where
  "cal_Register =
     [(''POST /digest'', EpDigest), (''GET /timestamp/{commitment}'', EpTimestamp),
      (''POST /api/v1/timestamps'', EpCreate), (''POST /api/v1/verify'', EpVerify), (''POST /api/v1/upgrade'', EpUpgrade),
      (''POST /api/v1/stamp-file'', EpStampFile), (''POST /api/v1/verify-file'', EpVerifyFile),
      (''GET /api/v1/status'', EpStatus), (''GET /api/v1/health'', EpHealth)]"

section \<open>The calendar answers as the relay does\<close>

text \<open>The calendar's own parts as a backend of the relay.\<close>

definition calendar_backend :: "hashes \<Rightarrow> ('s, 'j) CalHandler \<Rightarrow> RelayBackend" where
  "calendar_backend H h =
     \<lparr>rb_Stamp = ch_aggregator h, rb_GetTimestamp = calendarUpgrader_GetTimestamp h,
      rb_GetTimestampAny = Service_Get (ch_calendar h), rb_Upgrade = Upgrade H (calendarUpgrader_GetTimestamp h),
      rb_URLs = [], rb_Ping = \<lambda>_ _. Ok ()\<rparr>"

definition as_relay :: "hashes \<Rightarrow> ('s, 'j) CalHandler \<Rightarrow> Handler" where
  "as_relay H h = \<lparr>h_backend = calendar_backend H h, h_version = ch_version h, h_headers = ch_headers h\<rparr>"

lemma as_relay_sel [simp]:
  "h_backend (as_relay H h) = calendar_backend H h" "h_headers (as_relay H h) = ch_headers h"
  "verifyOptions (as_relay H h) = cal_verifyOptions h"
  "rb_Stamp (calendar_backend H h) = ch_aggregator h" "rb_GetTimestampAny (calendar_backend H h) = Service_Get (ch_calendar h)"
  "rb_Upgrade (calendar_backend H h) = Upgrade H (calendarUpgrader_GetTimestamp h)"
  "rb_GetTimestamp (calendar_backend H h) = calendarUpgrader_GetTimestamp h"
  by (simp_all add: as_relay_def calendar_backend_def verifyOptions_def cal_verifyOptions_def)

text \<open>The requests and the answers of the two packages, converted field by field.\<close>

definition retype :: "('a \<Rightarrow> 'b) \<Rightarrow> 'a result \<Rightarrow> 'b result" where
  "retype f r = andThen r (\<lambda>x. Ok (f x))"

definition relay_create :: "cal_CreateTimestampRequest \<Rightarrow> CreateTimestampRequest" where
  "relay_create r = \<lparr>ctr_Digest = cctr_Digest r\<rparr>"

definition relay_verify :: "cal_VerifyRequest \<Rightarrow> VerifyRequest" where
  "relay_verify r = \<lparr>vq_Digest = cvq_Digest r, vq_Proof = cvq_Proof r\<rparr>"

definition relay_upgrade :: "cal_UpgradeRequest \<Rightarrow> UpgradeRequest" where
  "relay_upgrade r = \<lparr>uq_Digest = cuq_Digest r, uq_Proof = cuq_Proof r\<rparr>"

definition relay_answer :: "cal_VerifyResponse \<Rightarrow> VerifyResponse" where
  "relay_answer r = \<lparr>vr_Valid = cvr_Valid r, vr_Status = cvr_Status r, vr_Reason = cvr_Reason r, vr_VerifiedAt = cvr_VerifiedAt r,
     vr_BlockHeight = cvr_BlockHeight r, vr_BlockHash = cvr_BlockHash r,
     vr_Attestations = map (\<lambda>a. \<lparr>aj_Kind = caj_Kind a, aj_Detail = caj_Detail a, aj_Status = caj_Status a\<rparr>) (cvr_Attestations r)\<rparr>"

lemma check_retype: "check (retype f r) g k = check r g (\<lambda>x. k (f x))"
  by (cases r) (simp_all add: retype_def)

lemma relay_sel [simp]:
  "ctr_Digest (relay_create c) = cctr_Digest c" "vq_Digest (relay_verify v) = cvq_Digest v" "vq_Proof (relay_verify v) = cvq_Proof v"
  "uq_Digest (relay_upgrade u) = cuq_Digest u" "uq_Proof (relay_upgrade u) = cuq_Proof u"
  by (simp_all add: relay_create_def relay_verify_def relay_upgrade_def)

text \<open>The limits are the same, and so is the JSON text of the answers.\<close>

lemma cal_limits [simp]:
  "cal_maxDigestLength = maxDigestLength" "cal_maxUploadBytes = maxUploadBytes" "cal_maxProofBytes = maxProofBytes" "cal_otsAccept = otsAccept"
  by (simp_all add: cal_maxDigestLength_def maxDigestLength_def cal_maxUploadBytes_def maxUploadBytes_def cal_maxProofBytes_def
    maxProofBytes_def cal_otsAccept_def otsAccept_def)

lemma json_relay_answer: "json_cal_VerifyResponse r = json_VerifyResponse (relay_answer r)"
  by (simp add: json_cal_VerifyResponse_def json_VerifyResponse_def relay_answer_def json_cal_AttestationInfoJSON_def [abs_def]
    json_AttestationInfoJSON_def comp_def)

lemma relay_answer_from: "relay_answer (cal_verifyResponseFrom result) = verifyResponseFrom result"
proof -
  let ?c = "\<lambda>att resp. resp\<lparr>cvr_Attestations := cvr_Attestations resp @ [\<lparr>caj_Kind = ai_Kind att, caj_Detail = ai_Detail att, caj_Status = ai_Status att\<rparr>]\<rparr>"
  let ?r = "\<lambda>att resp. resp\<lparr>vr_Attestations := vr_Attestations resp @ [\<lparr>aj_Kind = ai_Kind att, aj_Detail = ai_Detail att, aj_Status = ai_Status att\<rparr>]\<rparr>"
  have f: "relay_answer (fold ?c atts resp) = fold ?r atts (relay_answer resp)" for atts resp
    by (induction atts arbitrary: resp) (simp_all add: relay_answer_def)
  then show ?thesis
    by (simp add: cal_verifyResponseFrom_def verifyResponseFrom_def Let_def f split: option.split) (simp add: relay_answer_def)
qed

lemma cal_answers [simp]:
  "json_cal_VerifyResponse (cal_verifyResponseFrom result) = json_VerifyResponse (verifyResponseFrom result)"
  "json_cal_CreateTimestampResponse \<lparr>ccts_Proof = a, ccts_Commitment = b\<rparr> = json_CreateTimestampResponse \<lparr>cts_Proof = a, cts_Commitment = b\<rparr>"
  "json_cal_UpgradeResponse \<lparr>cur_Proof = a, cur_Upgraded = c, cur_Complete = d\<rparr> =
     json_UpgradeResponse \<lparr>ur_Proof = a, ur_Upgraded = c, ur_Complete = d\<rparr>"
  by (simp_all add: json_relay_answer relay_answer_from json_cal_CreateTimestampResponse_def json_CreateTimestampResponse_def
    json_cal_UpgradeResponse_def json_UpgradeResponse_def)

lemma cal_helpers [simp]:
  "cal_writeJSON = writeJSON" "cal_writeJSONError = writeJSONError" "cal_setOTSHeaders = setOTSHeaders" "cal_read_proof = read_proof"
proof -
  show w: "cal_writeJSON = writeJSON" by (intro ext) (simp add: cal_writeJSON_def writeJSON_def)
  show "cal_writeJSONError = writeJSONError"
    by (intro ext) (simp add: cal_writeJSONError_def writeJSONError_def w json_cal_ErrorResponse_def json_ErrorResponse_def)
  show "cal_setOTSHeaders = setOTSHeaders" by (intro ext) (simp add: cal_setOTSHeaders_def setOTSHeaders_def)
  have "cal_read_proof d r = read_proof d r" for d r by (induction d r rule: read_proof.induct) simp_all
  then show "cal_read_proof = read_proof" by (intro ext)
qed

lemma calendar_as_relay:
  "cal_postVerifyJSON H h v w = postVerifyJSON H (as_relay H h) (retype relay_verify v) w"
  "cal_postUpgradeJSON H h u w = postUpgradeJSON H (as_relay H h) (retype relay_upgrade u) w"
  "cal_postVerifyFile H h r w = postVerifyFile H (as_relay H h) r w"
  unfolding cal_postVerifyJSON_def postVerifyJSON_def cal_postUpgradeJSON_def postUpgradeJSON_def
    cal_postVerifyFile_def postVerifyFile_def cal_helpers cal_limits cal_answers as_relay_sel check_retype relay_sel by (rule refl)+

lemma calendar_stamps_as_relay:
  assumes "\<And>d e. ch_aggregator h d \<noteq> Err e"
  shows "cal_postDigest h r w = postDigest (as_relay H h) r w"
    and "cal_postCreateJSON h c w = postCreateJSON (as_relay H h) (retype relay_create c) w"
    and "cal_postStampFile H h r w = postStampFile H (as_relay H h) r w"
proof -
  have err: "check (ch_aggregator h d) f g = check (ch_aggregator h d) f' g" for d and f f' :: "go_error \<Rightarrow> ResponseWriter result" and g
  proof (cases "ch_aggregator h d")
    case (Err e)
    with assms [of d e] show ?thesis by simp
  qed simp_all
  show "cal_postDigest h r w = postDigest (as_relay H h) r w"
    unfolding cal_postDigest_def postDigest_def cal_helpers cal_limits as_relay_sel Let_def
      err [where f = "\<lambda>e. Ok (http_Error (error_string e) 500 (setOTSHeaders w))" and f' = "\<lambda>e. Ok (http_Error (error_string e) 502 (setOTSHeaders w))"] ..
  show "cal_postCreateJSON h c w = postCreateJSON (as_relay H h) (retype relay_create c) w"
    unfolding cal_postCreateJSON_def postCreateJSON_def cal_helpers cal_limits cal_answers as_relay_sel check_retype relay_sel
      err [where f = "\<lambda>e. Ok (writeJSONError 500 (error_string e) w)" and f' = "\<lambda>e. Ok (writeJSONError 502 (error_string e) w)"] ..
  show "cal_postStampFile H h r w = postStampFile H (as_relay H h) r w"
    unfolding cal_postStampFile_def postStampFile_def cal_helpers cal_limits as_relay_sel
      err [where f = "\<lambda>e. Ok (writeJSONError 500 (error_string e) w)" and f' = "\<lambda>e. Ok (writeJSONError 502 (error_string e) w)"] ..
qed

text \<open>Its laws, from those of the storage and of the aggregator.\<close>

context storage
begin

lemma Service_Get_ok:
  assumes "s_store s = storage_of put get has st" and "inv st" and "Service_Get s c = Ok t"
  shows "stamp_ok H c t" and "held st c = Some (set (AllAttestations t))"
  using get_Ok [OF assms(2), of c t] assms(1,3) by (simp_all add: Service_Get_def storage_of_def)

lemma calendar_relay:
  assumes "s_store (ch_calendar h) = storage_of put get has st" and "inv st"
    and "\<And>d t. ch_aggregator h d = Ok t \<Longrightarrow> stamp_ok H d t"
  shows "relay_backend H (calendar_backend H h)"
  by unfold_locales (auto simp: calendarUpgrader_GetTimestamp_def intro: Service_Get_ok [OF assms(1,2)] assms(3))

end

lemma cal_postDigest_Ok:
  assumes "ch_aggregator h digest = Ok t" and t: "stamp_ok H digest t" and "0 \<le> q_ContentLength r"
    and "ReadAll_limited 65 [] (q_Body r) = Ok digest" and "digest \<noteq> []" and "length digest \<le> 64"
  shows "\<exists>w. cal_postDigest h r new_writer = Ok w \<and> status_of w = 200 \<and> ts_DeserializeBytes H (rw_body w) digest = Ok (normal t)"
proof -
  have "ReadAll_limited (Suc maxDigestLength) [] (q_Body r) = Ok digest" "\<not> (length digest = 0 \<or> length digest > maxDigestLength)"
    using assms(4-6) by (simp_all add: maxDigestLength_def)
  then show ?thesis using assms(1,3) stamp_ok_codec [OF t]
    by (simp add: cal_postDigest_def Let_def response setOTSHeaders_def)
qed

lemma cal_getTimestamp_found:
  assumes "hex_DecodeString (q_PathValue r ''commitment'') = Ok c" and "Service_Get (ch_calendar h) c = Ok t" and "stamp_ok H c t"
  shows "\<exists>w. cal_getTimestamp h r new_writer = Ok w \<and> status_of w = 200 \<and>
    header_of w ''Cache-Control'' = Some ''public, max-age=31536000'' \<and> ts_DeserializeBytes H (rw_body w) c = Ok (normal t)"
proof (intro exI conjI)
  let ?w = "Write (ts_enc t) (WriteHeader 200 (Header_Set ''Cache-Control'' ''public, max-age=31536000''
        (Header_Set ''Content-Type'' ''application/octet-stream'' (setOTSHeaders new_writer))))"
  show "cal_getTimestamp h r new_writer = Ok ?w"
    using assms stamp_ok_codec(1) [OF assms(3)] by (simp add: cal_getTimestamp_def Let_def)
  show "status_of ?w = 200" "header_of ?w ''Cache-Control'' = Some ''public, max-age=31536000''"
    "ts_DeserializeBytes H (rw_body ?w) c = Ok (normal t)"
    using stamp_ok_codec(2) [OF assms(3)] by (simp_all add: response setOTSHeaders_def)
qed

definition missing_text :: "bool \<Rightarrow> string" where
  "missing_text pending = (if pending then ''Pending confirmation in Bitcoin blockchain'' else ''Commitment not found'')"

lemma cal_getTimestamp_missing:
  assumes "hex_DecodeString (q_PathValue r ''commitment'') = Ok c" and "Service_Get (ch_calendar h) c = Err e"
  shows "\<exists>w. cal_getTimestamp h r new_writer = Ok w \<and> status_of w = 404 \<and>
    header_of w ''Cache-Control'' = Some ''public, max-age=60'' \<and>
    rw_body w = bytes_of_string (missing_text (\<exists>s. ch_stamper h = Some s \<and> IsPending s c) @ [CHR 0x0A])"
proof (intro exI conjI)
  have p: "(case ch_stamper h of None \<Rightarrow> False | Some st \<Rightarrow> IsPending st c) \<longleftrightarrow> (\<exists>s. ch_stamper h = Some s \<and> IsPending s c)"
    by (cases "ch_stamper h") auto
  let ?w = "http_Error (missing_text (\<exists>s. ch_stamper h = Some s \<and> IsPending s c)) 404
      (Header_Set ''Cache-Control'' ''public, max-age=60'' (setOTSHeaders new_writer))"
  show "cal_getTimestamp h r new_writer = Ok ?w" using assms by (auto simp: cal_getTimestamp_def Let_def p missing_text_def)
  show "status_of ?w = 404" "header_of ?w ''Cache-Control'' = Some ''public, max-age=60''"
    "rw_body ?w = bytes_of_string (missing_text (\<exists>s. ch_stamper h = Some s \<and> IsPending s c) @ [CHR 0x0A])"
    by (simp_all add: response setOTSHeaders_def)
qed

section \<open>Properties\<close>


definition sample_cal :: "(ref_db, string) CalHandler" where
  "sample_cal = cal_NewHandler (\<lambda>d. if length d \<le> MaxMsgLength then Ok (Timestamp d [PendingAttestation ''a''] []) else Panic ''nil'')
     sample_service ''0.2.0''"


text \<open>
  C18. From the aggregator to the HTTP client. When a reachable aggregator commits a batch, the disk accepts the record and
  the store the put of a 44-byte commitment with the pending attestation, every caller of the batch returns from \<open>Submit\<close>, and the handler of a
  digest of 1 to 64 bytes answers 200 with a body in which the client reads, for its digest, a proof that
  carries the pending attestation of the calendar on the new 44-byte commitment; the store then holds
  that attestation for the commitment. This holds for batches of up to \<open>2 ^ 120\<close> requests.
\<close>

theorem calendar_postDigest_correct:
  assumes "agg_reach H svc interval s" and "hash_sizes H" and "storage H I held put get has"
    and "NewPendingAttestation (s_uri (ag_calendar (st_agg s))) = Ok pending"
    and "s_store (ag_calendar (st_agg s)) = storage_of put get has st" and "I st"
    and "s_journal (ag_calendar (st_agg s)) = Some j" and "journal_of j rs" and "JournalRecordSize * Suc (length rs) < 2 ^ 63"
    and "\<forall>c. length c = JournalRecordSize \<longrightarrow> snd (put st c (pending_stamp pending c)) = Ok ()" and "length (ag_batch (st_agg s)) \<le> 2 ^ 120"
    and "(ts, q) \<in> set (st_callers s)" and "q \<in> set (ag_batch (st_agg s))"
    and "n_Msg (st_heap s ! ts) = digest" and "digest \<noteq> []" and "length digest \<le> 64"
  shows "\<exists>h a st' c t. flush H now (Written, Ok ()) (st_heap s) (st_agg s) = (h, a, Ok ()) \<and>
    Submit_returns h a q ts None = Some (Ok t) \<and> length c = 44 \<and>
    s_store (ag_calendar a) = storage_of put get has st' \<and> I st' \<and> (\<exists>A. held st' = (held st)(c \<mapsto> A) \<and> (c, pending) \<in> A) \<and>
    (\<forall>(hd :: ('s, 'j) CalHandler) r. ch_aggregator hd digest = Ok t \<and> 0 \<le> q_ContentLength r \<and> ReadAll_limited 65 [] (q_Body r) = Ok digest \<longrightarrow>
       (\<exists>w proof. cal_postDigest hd r new_writer = Ok w \<and> status_of w = 200 \<and>
          ts_DeserializeBytes H (rw_body w) digest = Ok proof \<and> (c, pending) \<in> set (AllAttestations proof)))"
proof -
  note i = agg_reach_inv [OF assms(1,2)] and r = agg_reach_ready [OF assms(1,2)]
  have ne: "ag_batch (st_agg s) \<noteq> []" using assms(13) by auto
  have "\<not> is_panic (snd (Written, Ok () :: unit result))" by simp
  from storage.flush_run [OF assms(3) i assms(2) ne assms(4-9) this, of now] assms(10) [unfolded JournalRecordSize_def]
  obtain h a st' j' x c k where f: "flush H now (Written, Ok ()) (st_heap s) (st_agg s) = (h, a, Ok ())"
    and st': "s_store (ag_calendar a) = storage_of put get has st'" "I st'" "\<exists>A. held st' = (held st)(c \<mapsto> A) \<and> (c, pending) \<in> A" "length c = 44"
    and x: "n_Msg (h ! x) = c" "n_Attestations (h ! x) = [pending]" "store_ok H h"
    and k: "k \<le> 2 * levels (length (ag_batch (st_agg s))) + 2" "k + length (st_heap s) \<le> length h"
      "\<forall>q \<in> set (ag_batch (st_agg s)). leads h x k (sr_digest q)" by blast
  from batch_returns [OF r i assms(2) f x(3) k x(2) assms(11-13)] assms(14) x(1) obtain t where
    t: "Submit_returns h a q ts None = Some (Ok t)" "stamp_ok H digest t" "(c, pending) \<in> set (AllAttestations t)" by auto
  have "\<exists>w proof. cal_postDigest hd r new_writer = Ok w \<and> status_of w = 200 \<and>
      ts_DeserializeBytes H (rw_body w) digest = Ok proof \<and> (c, pending) \<in> set (AllAttestations proof)"
    if "ch_aggregator hd digest = Ok t \<and> 0 \<le> q_ContentLength r \<and> ReadAll_limited 65 [] (q_Body r) = Ok digest"
    for hd :: "('s, 'j) CalHandler" and r
    using cal_postDigest_Ok [of hd digest t H r] that t(2,3) assms(15,16) AllAttestations_normal [of t] by metis
  with f st' t(1) show ?thesis by blast
qed

theorem calendar_postDigest_correct_witness:
  "\<exists>h a t. flush const_hashes 1700000000 (Written, Ok ()) (st_heap sample_agg) (st_agg sample_agg) = (h, a, Ok ()) \<and>
     Submit_returns h a \<lparr>sr_digest = 2, sr_done = 0\<rparr> 0 None = Some (Ok t)"
proof -
  have put: "\<forall>c. length c = JournalRecordSize \<longrightarrow>
      snd (bs_Put const_hashes ref_bolt sample_db c (pending_stamp (PendingAttestation ''a'') c)) = Ok ()"
    by (simp add: sample_db_put JournalRecordSize_def)
  have c: "(0, \<lparr>sr_digest = 2, sr_done = 0\<rparr>) \<in> set (st_callers sample_agg)" "\<lparr>sr_digest = 2, sr_done = 0\<rparr> \<in> set (ag_batch (st_agg sample_agg))"
    "length (ag_batch (st_agg sample_agg)) \<le> 2 ^ 120" by (simp_all add: sample_agg_def)
  have m: "n_Msg (st_heap sample_agg ! 0) = [1]" "([1] :: bytes) \<noteq> []" "length ([1] :: bytes) \<le> 64"
    by code_simp+
  from calendar_postDigest_correct [OF sample_agg_reach hash_sizes_const ref.bs.storage_axioms sample_agg_service(2-7) put c(3,1,2) m,
      of 1700000000, where 'j = string] show ?thesis by blast
qed

text \<open>
  C19. Looking up a commitment in the calendar. If the store returns a proof, the answer is 200 and the
  client reads from it exactly the attestations the store holds; the answer may be cached for a year,
  also when it has no Bitcoin attestation yet and the stamper still has the commitment pending. If the store
  has nothing for it, the answer is 404, to be cached for a minute, and says whether the stamper has it
  pending; since a commitment is stored when it is submitted, that is not so for a submitted one.
\<close>

theorem calendar_getTimestamp_correct:
  assumes "storage H I held put get has" and "s_store (ch_calendar h) = storage_of put get has st" and "I st"
    and "hex_DecodeString (q_PathValue r ''commitment'') = Ok c"
  shows "(\<forall>t. get st c = Ok t \<longrightarrow>
      (\<exists>w A proof. cal_getTimestamp h r new_writer = Ok w \<and> status_of w = 200 \<and>
         header_of w ''Cache-Control'' = Some ''public, max-age=31536000'' \<and>
         ts_DeserializeBytes H (rw_body w) c = Ok proof \<and> held st c = Some A \<and> set (AllAttestations proof) = A \<and>
         (IsComplete proof \<longleftrightarrow> (\<exists>m height. (m, BitcoinBlockHeaderAttestation height) \<in> A)))) \<and>
    (held st c = None \<longrightarrow>
      (\<exists>w. cal_getTimestamp h r new_writer = Ok w \<and> status_of w = 404 \<and>
         header_of w ''Cache-Control'' = Some ''public, max-age=60'' \<and>
         rw_body w = bytes_of_string (missing_text (\<exists>s. ch_stamper h = Some s \<and> IsPending s c) @ [CHR 0x0A])))"
proof (intro conjI allI impI)
  fix t assume get: "get st c = Ok t"
  then have g: "Service_Get (ch_calendar h) c = Ok t" by (simp add: Service_Get_def assms(2) storage_of_def)
  note ok = storage.Service_Get_ok [OF assms(1-3) g]
  have "set (AllAttestations (normal t)) = set (AllAttestations t)" by (rule AllAttestations_normal)
  with cal_getTimestamp_found [OF assms(4) g ok(1)] ok(2)
  show "\<exists>w A proof. cal_getTimestamp h r new_writer = Ok w \<and> status_of w = 200 \<and>
         header_of w ''Cache-Control'' = Some ''public, max-age=31536000'' \<and>
         ts_DeserializeBytes H (rw_body w) c = Ok proof \<and> held st c = Some A \<and> set (AllAttestations proof) = A \<and>
         (IsComplete proof \<longleftrightarrow> (\<exists>m height. (m, BitcoinBlockHeaderAttestation height) \<in> A))"
    by (metis IsComplete_iff)
next
  assume "held st c = None"
  then obtain e where "get st c = Err e" using storage.get_missing [OF assms(1,3)] by blast
  then have g: "Service_Get (ch_calendar h) c = Err e" by (simp add: Service_Get_def assms(2) storage_of_def)
  show "\<exists>w. cal_getTimestamp h r new_writer = Ok w \<and> status_of w = 404 \<and>
         header_of w ''Cache-Control'' = Some ''public, max-age=60'' \<and>
         rw_body w = bytes_of_string (missing_text (\<exists>s. ch_stamper h = Some s \<and> IsPending s c) @ [CHR 0x0A])"
    by (rule cal_getTimestamp_missing [OF assms(4) g])
qed

definition sample_held :: ref_db where
  "sample_held = Some [[1] \<mapsto> ts_enc (pending_stamp (PendingAttestation ''a'') [1])]"

lemma sample_held_ok: "content_ok const_hashes sample_held"
  "bs_Get const_hashes ref_bolt sample_held [1] = Ok (pending_stamp (PendingAttestation ''a'') [1])"
proof -
  have t: "stamp_ok const_hashes [1] (pending_stamp (PendingAttestation ''a'') [1])" by code_simp
  have n: "normal (pending_stamp (PendingAttestation ''a'') [1]) = pending_stamp (PendingAttestation ''a'') [1]" by code_simp
  show "content_ok const_hashes sample_held" using stamp_ok_codec(2) [OF t] by (simp add: content_ok_def sample_held_def)
  show "bs_Get const_hashes ref_bolt sample_held [1] = Ok (pending_stamp (PendingAttestation ''a'') [1])"
    using stamp_ok_codec(2) [OF t] n by (simp add: bs_Get_def ref_bolt_def bucket_Get_def sample_held_def)
qed

theorem calendar_getTimestamp_correct_witness:
  "\<exists>w. cal_getTimestamp (sample_cal\<lparr>ch_calendar := sample_service\<lparr>s_store := ref_storage sample_held\<rparr>\<rparr>) (sample_request []) new_writer = Ok w \<and>
     status_of w = 200 \<and> header_of w ''Cache-Control'' = Some ''public, max-age=31536000''"
proof -
  let ?h = "sample_cal\<lparr>ch_calendar := sample_service\<lparr>s_store := ref_storage sample_held\<rparr>\<rparr>"
  have "s_store (ch_calendar ?h) = ref_storage sample_held" by simp
  moreover have "hex_DecodeString (q_PathValue (sample_request []) ''commitment'') = Ok [1]" by (simp add: sample_request_def) code_simp
  ultimately show ?thesis
    using calendar_getTimestamp_correct [OF ref.bs.storage_axioms _ sample_held_ok(1), of ?h] sample_held_ok(2) by blast
qed

end
