(* ===== verification/Commands.thy ===== *)
theory Commands
  imports Data_Directory Calendar_Server
begin

text \<open>
  Starting the two servers, \<^verbatim>\<open>cmd/server\<close> and \<^verbatim>\<open>cmd/calendar\<close>: what \<open>main\<close> decides between parsing the
  flags and listening. The flags, the environment variable, the network, the data directory and the
  Bitcoin node are arguments. A start ends with a server, with \<open>os.Exit(1)\<close> after a logged message and
  its error, or with a panic.
\<close>

section \<open>Outcomes of a start\<close>

datatype 'a boot = Started 'a | Exit string "go_error option" | Crashed string

text \<open>\<open>if err != nil { log.Error(msg, "err", err); os.Exit(1) }\<close>.\<close>

definition or_exit :: "string \<Rightarrow> 'a result \<Rightarrow> ('a \<Rightarrow> 'b boot) \<Rightarrow> 'b boot" where
  "or_exit msg r f = (case r of Ok x \<Rightarrow> f x | Err e \<Rightarrow> Exit msg (Some e) | Panic p \<Rightarrow> Crashed p)"

primrec boot_map :: "('a \<Rightarrow> 'b) \<Rightarrow> 'a boot \<Rightarrow> 'b boot" where
  "boot_map f (Started x) = Started (f x)"
| "boot_map f (Exit msg e) = Exit msg e"
| "boot_map f (Crashed p) = Crashed p"

lemma or_exit_Started [simp]: "or_exit msg r f = Started y \<longleftrightarrow> (\<exists>x. r = Ok x \<and> f x = Started y)"
  by (cases r) (auto simp: or_exit_def)

lemma boot_map_Started [simp]: "boot_map f b = Started y \<longleftrightarrow> (\<exists>x. b = Started x \<and> y = f x)"
  by (cases b) auto

lemma or_exit_Ok [simp]: "or_exit msg (Ok x) f = f x"
  by (simp add: or_exit_def)

section \<open>Flags\<close>

text \<open>\<open>strings.Split\<close> with a separator of one byte.\<close>

fun Split :: "char \<Rightarrow> string \<Rightarrow> string list" where
  "Split sep [] = [[]]"
| "Split sep (c # s) =
     (if c = sep then [] # Split sep s
      else (case Split sep s of [] \<Rightarrow> [[c]] | part # parts \<Rightarrow> (c # part) # parts))"

fun parse_urls :: "string list \<Rightarrow> string list \<Rightarrow> string list" where
  "parse_urls urls [] = urls"
| "parse_urls urls (part # parts) =
     (let u = TrimSpace part in parse_urls (if u \<noteq> '''' then urls @ [u] else urls) parts)"

definition parseCalendars :: "string \<Rightarrow> string \<Rightarrow> string list" where
  "parseCalendars OTS_CALENDARS flagVal =
     (let env = TrimSpace OTS_CALENDARS; flagVal = (if env \<noteq> '''' then env else flagVal) in
      if TrimSpace flagVal = '''' then DefaultCalendars else parse_urls [] (Split (CHR '','') flagVal))"

definition trimAddr :: "string \<Rightarrow> string" where
  "trimAddr addr = (if length addr > 0 \<and> addr ! 0 = CHR '':'' then ''127.0.0.1'' @ addr else addr)"

text \<open>
  \<open>filepath.Clean\<close> and \<open>filepath.Join\<close> on Unix: empty and \<open>.\<close> elements are dropped, \<open>..\<close> removes the
  element before it, where there is one.
\<close>

fun clean_elements :: "bool \<Rightarrow> string list \<Rightarrow> string list \<Rightarrow> string list" where
  "clean_elements rooted out [] = out"
| "clean_elements rooted out (e # es) =
     clean_elements rooted
       (if e = '''' \<or> e = ''.'' then out
        else if e = ''..'' then
          (if out \<noteq> [] \<and> last out \<noteq> ''..'' then butlast out else if rooted then out else out @ [''..''])
        else out @ [e]) es"

fun join_slash :: "string list \<Rightarrow> string" where
  "join_slash [] = ''''"
| "join_slash [e] = e"
| "join_slash (e # f # es) = e @ ''/'' @ join_slash (f # es)"

definition Clean :: "string \<Rightarrow> string" where
  "Clean path =
     (let rooted = (path \<noteq> '''' \<and> hd path = CHR ''/'');
          p = (if rooted then ''/'' else '''') @ join_slash (clean_elements rooted [] (Split (CHR ''/'') path))
      in if p = '''' then ''.'' else p)"

definition Join :: "string list \<Rightarrow> string" where
  "Join elems = (let es = filter (\<lambda>e. e \<noteq> '''') elems in if es = [] then '''' else Clean (join_slash es))"

definition defaultDataDir :: "string result \<Rightarrow> string result" where
  "defaultDataDir home =
     (case home of Err _ \<Rightarrow> Ok ''.otsd/calendar'' | Panic p \<Rightarrow> Panic p | Ok home \<Rightarrow> Ok (Join [home, ''.otsd'', ''calendar'']))"

section \<open>The relay\<close>

record relay_flags =
  rf_calendars :: string
  rf_timeout :: int
  rf_btc :: Config

text \<open>The flags of a command line that sets none.\<close>

definition relay_default_flags :: relay_flags where
  "relay_default_flags =
     \<lparr>rf_calendars = '''', rf_timeout = 30 * second,
      rf_btc = \<lparr>cfg_Host = '''', cfg_User = '''', cfg_Pass = '''', cfg_Network = ''mainnet''\<rparr>\<rparr>"

text \<open>Call \<open>k\<close> to \<open>Ping\<close> meets the network \<open>net k\<close>.\<close>

fun ping_loop :: "(nat \<Rightarrow> http) \<Rightarrow> Pool \<Rightarrow> nat \<Rightarrow> string list \<Rightarrow> nat \<Rightarrow> nat boot" where
  "ping_loop net pool k [] reachable = Started reachable"
| "ping_loop net pool k (u # us) reachable =
     (case Ping (net k) pool u of
        Panic p \<Rightarrow> Crashed p
      | Err e \<Rightarrow> ping_loop net pool (Suc k) us reachable
      | Ok _ \<Rightarrow> ping_loop net pool (Suc k) us (reachable + 1))"

definition relay_version :: string where "relay_version = ''0.3.0''"

definition relay_main ::
  "(nat \<Rightarrow> http) \<Rightarrow> (Config \<Rightarrow> 'j node result) \<Rightarrow> (Pool \<Rightarrow> RelayBackend) \<Rightarrow> string \<Rightarrow> relay_flags \<Rightarrow> Handler boot"
where
  "relay_main net connect backend OTS_CALENDARS flags =
     (let urls = parseCalendars OTS_CALENDARS (rf_calendars flags) in
      or_exit ''create calendar pool'' (NewPoolWithTimeout urls (rf_timeout flags)) (\<lambda>pool.
      case ping_loop net pool 0 (URLs pool) 0 of
        Crashed p \<Rightarrow> Crashed p
      | Exit msg e \<Rightarrow> Exit msg e
      | Started reachable \<Rightarrow>
          if reachable = 0 then Exit ''no upstream calendars reachable; refusing to start'' None
          else
            let h = NewHandler (backend pool) relay_version in
            if cfg_Host (rf_btc flags) \<noteq> '''' then
              or_exit ''bitcoin rpc client'' (NewBtcClient connect (rf_btc flags)) (\<lambda>btc.
              or_exit ''bitcoin network check'' (CheckNetwork btc) (\<lambda>_.
              Started (WithBitcoin h (\<lambda>_. btc_BlockHeader btc))))
            else Started h))"

section \<open>The calendar\<close>

text \<open>\<open>cf_maxFee\<close> is what \<open>btcutil.NewAmount\<close> returns for the flag. The key of \<open>memory\<close> is what \<open>rand.Read\<close> yields.\<close>

record cal_flags =
  cf_uri :: string
  cf_dataDir :: string
  cf_btc :: Config
  cf_minConf :: int
  cf_minTxInterval :: int
  cf_maxFee :: "int result"
  cf_maxPending :: int

text \<open>\<open>maxFee\<close> is what \<open>btcutil.NewAmount\<close> returns for the default of 0.001.\<close>

definition cal_default_flags :: "string result \<Rightarrow> int result \<Rightarrow> cal_flags result" where
  "cal_default_flags home maxFee =
     andThen (defaultDataDir home) (\<lambda>dataDir.
     Ok \<lparr>cf_uri = ''http://127.0.0.1:14788'', cf_dataDir = dataDir,
         cf_btc = \<lparr>cfg_Host = '''', cfg_User = '''', cfg_Pass = '''', cfg_Network = ''mainnet''\<rparr>,
         cf_minConf = 6, cf_minTxInterval = 6 * 3600 * second, cf_maxFee = maxFee, cf_maxPending = 100000\<rparr>)"

definition cal_version :: string where "cal_version = ''0.2.0''"

text \<open>
  The server that starts: its aggregator and its handler. Go shares the service between the two by a
  pointer; here both hold its value at the start. \<open>submit\<close> is what the call of \<open>Submit\<close> returns.
\<close>

record ('s, 'j) CalServer =
  cv_aggregator :: "'s Aggregator"
  cv_handler :: "('s, 'j) CalHandler"

definition stamper_config :: "cal_flags \<Rightarrow> int \<Rightarrow> StamperConfig" where
  "stamper_config flags maxFee =
     \<lparr>sc_MinConfirmations = cf_minConf flags, sc_MinTxInterval = cf_minTxInterval flags, sc_MaxFee = maxFee,
      sc_MaxPending = cf_maxPending flags, sc_Tick = 5 * second\<rparr>"

definition start_calendar ::
  "(Config \<Rightarrow> 'j node result) \<Rightarrow> (bytes \<Rightarrow> Timestamp result) \<Rightarrow> cal_flags \<Rightarrow> string \<Rightarrow> bytes \<Rightarrow> 's Storage \<Rightarrow> Journal option \<Rightarrow>
   ('s, 'j) CalServer boot"
where
  "start_calendar connect submit flags uri hmacKey st journal =
     or_exit '''' (NewService uri hmacKey st) (\<lambda>cal.
     let cal = (case journal of None \<Rightarrow> cal | Some j \<Rightarrow> WithJournal cal j);
         agg = NewAggregator cal second;
         h = cal_NewHandler submit cal cal_version
     in if cfg_Host (cf_btc flags) \<noteq> '''' then
          or_exit ''bitcoin rpc client'' (NewBtcClient connect (cf_btc flags)) (\<lambda>btc.
          or_exit ''bitcoin network check'' (CheckNetwork btc) (\<lambda>_.
          case journal of
            None \<Rightarrow> Exit ''the stamper requires a persistent --data-dir (journal); refusing to anchor from memory'' None
          | Some j \<Rightarrow>
              or_exit ''invalid --btc-max-fee'' (cf_maxFee flags) (\<lambda>maxFee.
              case Recover (NewStamper j st (stamper_config flags maxFee)) of
                (s, r) \<Rightarrow> or_exit ''stamper recovery'' r (\<lambda>_.
                  Started \<lparr>cv_aggregator = agg, cv_handler = cal_WithBitcoin h (Some btc) (Some s)\<rparr>))))
        else Started \<lparr>cv_aggregator = agg, cv_handler = cal_WithBitcoin h None None\<rparr>)"

definition memory_storage :: "hashes \<Rightarrow> MemoryStore Storage" where
  "memory_storage H = storage_of (ms_Put H) (ms_Get H) (\<lambda>s c. Ok (ms_Has s c)) NewMemoryStore"

definition bolt_storage :: "hashes \<Rightarrow> ('db, 'tx) bolt \<Rightarrow> 'db \<Rightarrow> 'db Storage" where
  "bolt_storage H B db = storage_of (bs_Put H B) (bs_Get H B) (bs_Has B) db"

definition calendar_main ::
  "hashes \<Rightarrow> dir_env \<Rightarrow> ('db, 'tx) bolt \<Rightarrow> (Config \<Rightarrow> 'j node result) \<Rightarrow> (bytes \<Rightarrow> Timestamp result) \<Rightarrow> bytes result \<Rightarrow>
   cal_flags \<Rightarrow> files \<Rightarrow> files \<times> ((MemoryStore, 'j) CalServer + ('db, 'j) CalServer) boot"
where
  "calendar_main H env B connect submit rand_key flags fs =
     (if cf_dataDir flags = ''memory'' then
        (fs, or_exit ''generate hmac key'' rand_key (\<lambda>hmacKey.
               boot_map Inl (start_calendar connect submit flags (cf_uri flags) hmacKey (memory_storage H) None)))
      else
        (case OpenDataDir env B fs (cf_dataDir flags) (cf_uri flags) of
           (fs', r) \<Rightarrow>
             (fs', or_exit ''open data dir'' r (\<lambda>dd.
                boot_map Inr (start_calendar connect submit flags (dd_URI dd) (dd_HMACKey dd)
                  (bolt_storage H B (dd_Store dd)) (Some (dd_Journal dd)))))))"

section \<open>Parsing the list of calendars\<close>

lemma parse_loop_filter: "parse_urls urls parts = urls @ filter (\<lambda>u. u \<noteq> '''') (map TrimSpace parts)"
  by (induction urls parts rule: parse_urls.induct) (simp_all add: Let_def)

lemma trim_left_suffix: "\<exists>q. s = q @ trim_left ps s"
proof (induction ps s rule: trim_left.induct)
  case (1 ps s)
  show ?case
  proof (cases "strip_prefix ps s")
    case None
    then show ?thesis by (simp add: trim_left_id)
  next
    case (Some s')
    then have "\<exists>n. s' = drop n s" unfolding strip_prefix_def by (auto split: list.splits)
    then obtain n where "s' = drop n s" by blast
    then have "s = take n s @ s'" by simp
    moreover from 1 [OF Some] obtain q where "s' = q @ trim_left ps s'" by blast
    ultimately have "s = (take n s @ q) @ trim_left ps s'" by simp
    moreover have "trim_left ps s = trim_left ps s'" using Some by (simp add: trim_left.simps [of ps s])
    ultimately show ?thesis by metis
  qed
qed

lemma TrimSpace_idem [simp]: "TrimSpace (TrimSpace s) = TrimSpace s"
proof -
  let ?l = "trim_left space_runes s" and ?R = "map rev space_runes"
  obtain q where q: "rev ?l = q @ rev (TrimSpace s)"
    using trim_left_suffix [of "rev ?l" ?R] by (auto simp: TrimSpace_def trim_right_def)
  then have l: "?l = TrimSpace s @ rev q" by (metis rev_append rev_rev_ident)
  have "strip_prefix space_runes (TrimSpace s) = None"
    unfolding strip_prefix_None
  proof (intro ballI impI notI)
    fix p assume p: "p \<in> set space_runes" "p \<noteq> []" and t: "take (length p) (TrimSpace s) = p"
    then have "take (length p) ?l = p" unfolding l by (metis take_append length_take min.absorb2 nat_le_linear take_all append_Nil2 diff_is_0_eq take0)
    then show False using p trim_left_fixed [of space_runes s] by (auto simp: strip_prefix_None)
  qed
  moreover have "trim_left ?R (rev (TrimSpace s)) = rev (TrimSpace s)"
    unfolding TrimSpace_def trim_right_def rev_rev_ident by (rule trim_left_id [OF trim_left_fixed])
  ultimately show ?thesis by (simp add: TrimSpace_def [of "TrimSpace s"] trim_left_id trim_right_def)
qed

definition calendar_list :: "string \<Rightarrow> string \<Rightarrow> string list" where
  "calendar_list env flagVal =
     (let text = (if TrimSpace env \<noteq> '''' then TrimSpace env else flagVal)
      in if TrimSpace text = '''' then DefaultCalendars else Split (CHR '','') text)"

lemma TrimSpace_empty [simp]: "TrimSpace '''' = ''''"
  by code_simp

lemma normal_url_parse:
  "normal_url ` set (parseCalendars env flagVal) - {''''} = normal_url ` set (calendar_list env flagVal) - {''''}"
proof -
  have e: "normal_url u = ''''" if "TrimSpace u = ''''" for u
    using that by (simp add: normal_url_def TrimRight_slash_def trim_right_def trim_left_id strip_prefix_def)
  have t: "normal_url (TrimSpace u) = normal_url u" for u by (simp add: normal_url_def)
  have "normal_url ` set (filter (\<lambda>u. u \<noteq> []) (map TrimSpace us)) - {[]} = normal_url ` set us - {[]}" for us
    using e t by (force simp: image_iff)
  then show ?thesis by (simp add: parseCalendars_def calendar_list_def parse_loop_filter Let_def)
qed

lemma Split_parts: "sep \<notin> set s \<Longrightarrow> Split sep (s @ sep # r) = s # Split sep r"
  by (induction s) auto

lemma Split_last: "sep \<notin> set s \<Longrightarrow> Split sep s = [s]"
  by (induction s) auto

section \<open>Pinging\<close>

lemma ping_loop_run:
  assumes "\<forall>i < length us. \<not> is_panic (Ping (net (k + i)) pool (us ! i))"
  shows "\<exists>n. ping_loop net pool k us r = Started n \<and> (n = 0 \<longleftrightarrow> r = 0 \<and> (\<forall>i < length us. \<not> is_ok (Ping (net (k + i)) pool (us ! i))))"
  using assms
proof (induction us arbitrary: k r)
  case (Cons u us)
  have IH: "\<exists>n. ping_loop net pool (Suc k) us r' = Started n \<and>
      (n = 0 \<longleftrightarrow> r' = 0 \<and> (\<forall>i < length us. \<not> is_ok (Ping (net (Suc k + i)) pool (us ! i))))" for r'
    using Cons.IH [of "Suc k" r'] Cons.prems by force
  have all: "(\<forall>i < length (u # us). P (net (k + i)) ((u # us) ! i)) \<longleftrightarrow> P (net k) u \<and> (\<forall>i < length us. P (net (Suc k + i)) (us ! i))" for P
    by (auto simp: less_Suc_eq_0_disj)
  have np: "\<not> is_panic (Ping (net k) pool u)" using Cons.prems by force
  show ?case
  proof (cases "Ping (net k) pool u")
    case (Ok x)
    from IH [of "r + 1"] obtain n where n: "ping_loop net pool (Suc k) us (r + 1) = Started n" "n \<noteq> 0" by (metis add_is_0 one_neq_zero)
    have "ping_loop net pool k (u # us) r = Started n" using n(1) Ok by (simp del: add_0_right)
    moreover have "\<not> (\<forall>i < length (u # us). \<not> is_ok (Ping (net (k + i)) pool ((u # us) ! i)))" using Ok by force
    ultimately show ?thesis using n(2) by blast
  next
    case (Err e)
    with IH [of r] all [of "\<lambda>n u. \<not> is_ok (Ping n pool u)"] show ?thesis by simp
  next
    case (Panic p)
    with np show ?thesis by simp
  qed
qed simp

lemma ping_loop_Started:
  "ping_loop net pool k us r = Started n \<Longrightarrow> n > r \<Longrightarrow> \<exists>i < length us. Ping (net (k + i)) pool (us ! i) = Ok ()"
proof (induction us arbitrary: k r)
  case (Cons u us)
  show ?case
  proof (cases "Ping (net k) pool u")
    case (Ok x)
    then show ?thesis by (intro exI [of _ 0]) simp
  next
    case (Err e)
    with Cons.prems Cons.IH [of "Suc k" r] obtain i where "i < length us" "Ping (net (Suc k + i)) pool (us ! i) = Ok ()" by auto
    then show ?thesis by (intro exI [of _ "Suc i"]) simp
  qed (use Cons.prems in simp)
qed simp

section \<open>The node\<close>

lemma NewBtcClient_OkD:
  "NewBtcClient connect cfg = Ok btc \<Longrightarrow> cfg_Network cfg \<in> {''mainnet'', ''testnet'', ''regtest''} \<and>
   connect cfg = Ok (bc_rpc btc) \<and> bc_network btc = cfg_Network cfg"
  by (auto simp: NewBtcClient_def Validate_def andThen_eq_Ok split: if_splits)

lemma CheckNetwork_OkD:
  "CheckNetwork btc = Ok () \<Longrightarrow> \<exists>res. RawRequest (bc_rpc btc) (''getblockchaininfo'', []) = Ok res \<and>
   as_chain (bc_rpc btc) res = Ok (chain_name (bc_network btc))"
  by (auto simp: CheckNetwork_def andThen_eq_Ok split: if_splits)

definition node_matches :: "(Config \<Rightarrow> 'j node result) \<Rightarrow> Config \<Rightarrow> 'j BtcClient \<Rightarrow> bool" where
  "node_matches connect cfg btc \<longleftrightarrow>
     cfg_Network cfg \<in> {''mainnet'', ''testnet'', ''regtest''} \<and> connect cfg = Ok (bc_rpc btc) \<and> bc_network btc = cfg_Network cfg \<and>
     (\<exists>res. RawRequest (bc_rpc btc) (''getblockchaininfo'', []) = Ok res \<and> as_chain (bc_rpc btc) res = Ok (chain_name (cfg_Network cfg)))"

lemma node_matches_iff: "NewBtcClient connect cfg = Ok btc \<and> CheckNetwork btc = Ok () \<longleftrightarrow> node_matches connect cfg btc"
proof
  show "node_matches connect cfg btc" if "NewBtcClient connect cfg = Ok btc \<and> CheckNetwork btc = Ok ()"
    using that NewBtcClient_OkD [of connect cfg btc] CheckNetwork_OkD [of btc] unfolding node_matches_def by metis
  show "NewBtcClient connect cfg = Ok btc \<and> CheckNetwork btc = Ok ()" if "node_matches connect cfg btc"
    using that by (auto simp: node_matches_def NewBtcClient_def Validate_def CheckNetwork_def)
qed

section \<open>The default directory\<close>

lemma Split_not_Nil [simp]: "Split sep s \<noteq> []"
  by (induction s) (auto split: list.splits)

lemma Split_append: "Split sep (s @ sep # r) = Split sep s @ Split sep r"
  by (induction s) (auto split: list.splits)

lemma clean_elements_append:
  "clean_elements rooted out (es @ fs) = clean_elements rooted (clean_elements rooted out es) fs"
  by (induction rooted out es rule: clean_elements.induct) simp_all

lemma join_slash_append: "es \<noteq> [] \<Longrightarrow> fs \<noteq> [] \<Longrightarrow> join_slash (es @ fs) = join_slash es @ ''/'' @ join_slash fs"
proof (induction es rule: join_slash.induct)
  case (2 e)
  then show ?case by (cases fs) simp_all
qed simp_all

lemma defaultDataDir_suffix:
  assumes "defaultDataDir home = Ok d"
  shows "\<exists>parent. d = parent @ ''.otsd/calendar''"
proof (cases home)
  case (Ok dir)
  have suffix: "\<exists>q. join_slash (es @ [''.otsd'', ''calendar'']) = q @ ''.otsd/calendar''" for es
    using join_slash_append [of es "[''.otsd'', ''calendar'']"] by (cases "es = []") auto
  have tail: "Split (CHR ''/'') ''.otsd/calendar'' = [''.otsd'', ''calendar'']" by simp
  have clean: "\<exists>q. Clean (p @ ''/.otsd/calendar'') = q @ ''.otsd/calendar''" for p
  proof -
    let ?r = "p @ ''/.otsd/calendar'' \<noteq> '''' \<and> hd (p @ ''/.otsd/calendar'') = CHR ''/''"
    have "Split (CHR ''/'') (p @ ''/.otsd/calendar'') = Split (CHR ''/'') p @ [''.otsd'', ''calendar'']"
      using Split_append [of "CHR ''/''" p "''.otsd/calendar''"] tail by simp
    then have c: "clean_elements ?r [] (Split (CHR ''/'') (p @ ''/.otsd/calendar'')) =
        clean_elements ?r [] (Split (CHR ''/'') p) @ [''.otsd'', ''calendar'']"
      by (simp only: clean_elements_append) simp
    obtain q where "join_slash (clean_elements ?r [] (Split (CHR ''/'') p) @ [''.otsd'', ''calendar'']) = q @ ''.otsd/calendar''"
      using suffix by blast
    then have "join_slash (clean_elements ?r [] (Split (CHR ''/'') (p @ ''/.otsd/calendar''))) = q @ ''.otsd/calendar''"
      by (simp only: c)
    then show ?thesis unfolding Clean_def Let_def by (simp only:) (auto intro: exI [of _ "''/'' @ q"] exI [of _ q])
  qed
  show ?thesis
  proof (cases "dir = ''''")
    case True
    then have "d = Clean ''.otsd/calendar''" using assms Ok by (simp add: defaultDataDir_def Join_def)
    moreover have "Clean ''.otsd/calendar'' = ''.otsd/calendar''" by code_simp
    ultimately show ?thesis by simp
  next
    case False
    then have "d = Clean (dir @ ''/.otsd/calendar'')" using assms Ok by (simp add: defaultDataDir_def Join_def)
    then show ?thesis using clean by simp
  qed
qed (use assms in \<open>simp_all add: defaultDataDir_def\<close>)

section \<open>Starting the relay\<close>

lemma relay_main_StartedD:
  assumes "relay_main net connect backend env flags = Started h"
  shows "\<exists>pool. NewPool (parseCalendars env (rf_calendars flags)) = Ok pool \<and> h_backend h = backend pool \<and>
    (\<exists>i < length (URLs pool). Ping (net i) pool (URLs pool ! i) = Ok ()) \<and>
    (if cfg_Host (rf_btc flags) = '''' then h_headers h = None
     else \<exists>btc. node_matches connect (rf_btc flags) btc \<and> h_headers h = Some (\<lambda>_. btc_BlockHeader btc))"
proof -
  let ?bitcoin = "\<lambda>h. if cfg_Host (rf_btc flags) \<noteq> [] then
        or_exit ''bitcoin rpc client'' (NewBtcClient connect (rf_btc flags)) (\<lambda>btc.
        or_exit ''bitcoin network check'' (CheckNetwork btc) (\<lambda>_. Started (WithBitcoin h (\<lambda>_. btc_BlockHeader btc))))
      else Started h"
  obtain pool where p1: "NewPool (parseCalendars env (rf_calendars flags)) = Ok pool"
    and run: "(case ping_loop net pool 0 (URLs pool) 0 of Crashed p \<Rightarrow> Crashed p | Exit msg e \<Rightarrow> Exit msg e
      | Started n \<Rightarrow> if n = 0 then Exit ''no upstream calendars reachable; refusing to start'' None
          else ?bitcoin (NewHandler (backend pool) relay_version)) = Started h"
    using assms unfolding relay_main_def Let_def NewPoolWithTimeout_def or_exit_Started by blast
  then obtain n where p: "ping_loop net pool 0 (URLs pool) 0 = Started n" "n > 0"
    and h: "?bitcoin (NewHandler (backend pool) relay_version) = Started h"
    by (cases "ping_loop net pool 0 (URLs pool) 0") (simp_all split: if_split_asm)
  from ping_loop_Started [OF p] have "\<exists>i < length (URLs pool). Ping (net i) pool (URLs pool ! i) = Ok ()" by simp
  with p1 h show ?thesis by (auto simp: NewHandler_def WithBitcoin_def node_matches_iff [symmetric] split: if_splits)
qed

lemma relay_main_run:
  assumes "NewPool (parseCalendars env (rf_calendars flags)) = Ok pool"
    and "\<forall>i < length (URLs pool). \<not> is_panic (Ping (net i) pool (URLs pool ! i))"
  shows "(\<forall>i < length (URLs pool). \<not> is_ok (Ping (net i) pool (URLs pool ! i))) \<Longrightarrow>
      relay_main net connect backend env flags = Exit ''no upstream calendars reachable; refusing to start'' None"
    and "\<not> (\<forall>i < length (URLs pool). \<not> is_ok (Ping (net i) pool (URLs pool ! i))) \<Longrightarrow>
      cfg_Host (rf_btc flags) = '''' \<or> node_matches connect (rf_btc flags) btc \<Longrightarrow>
      \<exists>h. relay_main net connect backend env flags = Started h"
proof -
  have "\<forall>i < length (URLs pool). \<not> is_panic (Ping (net (0 + i)) pool (URLs pool ! i))" using assms(2) by simp
  from ping_loop_run [OF this, of 0] obtain n where n: "ping_loop net pool 0 (URLs pool) 0 = Started n"
    "(n = 0) \<longleftrightarrow> (\<forall>i < length (URLs pool). \<not> is_ok (Ping (net i) pool (URLs pool ! i)))" by auto
  note run = relay_main_def NewPoolWithTimeout_def assms(1) Let_def n(1)
  show "relay_main net connect backend env flags = Exit ''no upstream calendars reachable; refusing to start'' None"
    if "\<forall>i < length (URLs pool). \<not> is_ok (Ping (net i) pool (URLs pool ! i))"
  proof -
    have "n = 0" using that n(2) by blast
    then show ?thesis by (simp add: run)
  qed
  show "\<exists>h. relay_main net connect backend env flags = Started h"
    if "\<not> (\<forall>i < length (URLs pool). \<not> is_ok (Ping (net i) pool (URLs pool ! i)))"
      "cfg_Host (rf_btc flags) = '''' \<or> node_matches connect (rf_btc flags) btc"
  proof -
    have "n \<noteq> 0" using that(1) n(2) by blast
    then show ?thesis using that(2) by (auto simp: run node_matches_iff [symmetric])
  qed
qed

section \<open>Starting the calendar\<close>

lemma start_calendar_StartedD:
  assumes "start_calendar connect submit flags uri key st journal = Started srv"
  shows "key \<noteq> [] \<and>
    ch_calendar (cv_handler srv) = \<lparr>s_uri = uri, s_hmacKey = key, s_store = st, s_journal = journal, s_idx = 0\<rparr> \<and>
    cv_aggregator srv = NewAggregator (ch_calendar (cv_handler srv)) second \<and> ch_aggregator (cv_handler srv) = submit \<and>
    (if cfg_Host (cf_btc flags) = '''' then ch_headers (cv_handler srv) = None \<and> ch_btc (cv_handler srv) = None \<and> ch_stamper (cv_handler srv) = None
     else \<exists>btc j maxFee s. node_matches connect (cf_btc flags) btc \<and> journal = Some j \<and> cf_maxFee flags = Ok maxFee \<and>
       Recover (NewStamper j st (stamper_config flags maxFee)) = (s, Ok ()) \<and>
       ch_headers (cv_handler srv) = Some (\<lambda>_. btc_BlockHeader btc) \<and> ch_btc (cv_handler srv) = Some btc \<and> ch_stamper (cv_handler srv) = Some s)"
proof -
  from assms have key: "key \<noteq> []" by (auto simp: start_calendar_def NewService_def split: if_splits)
  let ?cal = "\<lparr>s_uri = uri, s_hmacKey = key, s_store = st, s_journal = journal, s_idx = 0\<rparr>"
  have cal: "NewService uri key st = Ok \<lparr>s_uri = uri, s_hmacKey = key, s_store = st, s_journal = None, s_idx = 0\<rparr>"
    "(case journal of None \<Rightarrow> \<lparr>s_uri = uri, s_hmacKey = key, s_store = st, s_journal = None, s_idx = 0\<rparr>
      | Some j \<Rightarrow> WithJournal \<lparr>s_uri = uri, s_hmacKey = key, s_store = st, s_journal = None, s_idx = 0\<rparr> j) = ?cal"
    using key by (auto simp: NewService_def WithJournal_def split: option.splits)
  note run = assms [unfolded start_calendar_def cal(1) or_exit_Ok Let_def cal(2)]
  show ?thesis
  proof (cases "cfg_Host (cf_btc flags) = []")
    case True
    with run key show ?thesis by (auto simp: cal_WithBitcoin_def cal_NewHandler_def)
  next
    case False
    with run obtain btc where b: "NewBtcClient connect (cf_btc flags) = Ok btc" "CheckNetwork btc = Ok ()"
      and r: "(case journal of None \<Rightarrow> Exit ''the stamper requires a persistent --data-dir (journal); refusing to anchor from memory'' None
        | Some j \<Rightarrow> or_exit ''invalid --btc-max-fee'' (cf_maxFee flags) (\<lambda>maxFee.
            case Recover (NewStamper j st (stamper_config flags maxFee)) of
              (s, r) \<Rightarrow> or_exit ''stamper recovery'' r (\<lambda>_.
                Started \<lparr>cv_aggregator = NewAggregator ?cal second,
                  cv_handler = cal_WithBitcoin (cal_NewHandler submit ?cal cal_version) (Some btc) (Some s)\<rparr>))) = Started srv"
      by auto
    let ?srv = "\<lambda>s. \<lparr>cv_aggregator = NewAggregator ?cal second,
          cv_handler = cal_WithBitcoin (cal_NewHandler submit ?cal cal_version) (Some btc) (Some s)\<rparr>"
    from r obtain j maxFee where j: "journal = Some j" "cf_maxFee flags = Ok maxFee"
      and r: "(case Recover (NewStamper j st (stamper_config flags maxFee)) of
              (s, r) \<Rightarrow> or_exit ''stamper recovery'' r (\<lambda>_. Started (?srv s))) = Started srv"
      by (cases journal) auto
    from r obtain s where "Recover (NewStamper j st (stamper_config flags maxFee)) = (s, Ok ())" "srv = ?srv s"
      by (cases "Recover (NewStamper j st (stamper_config flags maxFee))") auto
    with b j False key show ?thesis by (auto simp: node_matches_iff [symmetric] cal_WithBitcoin_def cal_NewHandler_def Let_def)
  qed
qed

lemma start_calendar_run:
  assumes "key \<noteq> []" and "node_matches connect (cf_btc flags) btc" and "cf_maxFee flags = Ok maxFee"
    and "Recover (NewStamper j st (stamper_config flags maxFee)) = (s, Ok ())"
  shows "\<exists>srv. start_calendar connect submit flags uri key st (Some j) = Started srv"
proof -
  have "NewBtcClient connect (cf_btc flags) = Ok btc" "CheckNetwork btc = Ok ()" using assms(2) by (simp_all add: node_matches_iff [symmetric])
  then show ?thesis using assms(1,3,4) by (simp add: start_calendar_def NewService_def Let_def)
qed

lemma start_calendar_memory: "cfg_Host (cf_btc flags) \<noteq> '''' \<Longrightarrow> start_calendar connect submit flags uri key st None \<noteq> Started srv"
  using start_calendar_StartedD [of connect submit flags uri key st None srv] by auto

section \<open>A calendar on an existing data directory\<close>

text \<open>The files of a data directory after a crash: a key, an address, and records followed by a part of one.\<close>

definition dir_holds :: "files \<Rightarrow> bytes \<Rightarrow> string \<Rightarrow> bytes list \<Rightarrow> bool" where
  "dir_holds fs key uri rs \<longleftrightarrow>
     fs HmacKeyFile = Some key \<and> length key = 32 \<and>
     (\<exists>b. fs UriFile = Some b \<and> TrimSpace (string_of_bytes b) = uri) \<and> uri \<noteq> '''' \<and>
     (\<exists>part. fs JournalFile = Some (concat rs @ part) \<and> length part < JournalRecordSize) \<and>
     (\<forall>r \<in> set rs. length r = JournalRecordSize) \<and> JournalRecordSize * length rs < 2 ^ 63"

lemma OpenDataDir_existing:
  assumes env: "no_faults env" and "OpenBoltStore B (de_path env DbFile) = Ok db" and d: "dir_holds fs key uri rs"
  shows "\<exists>fs' dd. OpenDataDir env B fs dir defaultURI = (fs', Ok dd) \<and> fs' JournalFile = Some (concat rs) \<and>
    dd_URI dd = uri \<and> dd_HMACKey dd = key \<and> journal_of (dd_Journal dd) rs \<and> dd_Store dd = db"
proof -
  from d obtain b part where fs: "fs HmacKeyFile = Some key" "length key = 32" "fs UriFile = Some b" "TrimSpace (string_of_bytes b) = uri"
      "uri \<noteq> ''''" "fs JournalFile = Some (concat rs @ part)"
    and rs: "\<forall>r \<in> set rs. length r = JournalRecordSize" "length part < JournalRecordSize" "JournalRecordSize * length rs < 2 ^ 63"
    by (auto simp: dir_holds_def)
  obtain j where "OpenJournal \<lparr>e_open = Ok (concat rs @ part), e_stat = Ok (), e_truncate = Ok (), e_seek = Ok ()\<rparr> = Ok j" and j: "journal_of j rs"
    using OpenJournal_recovers [OF rs] by blast
  then have "OpenJournal (journal_env env fs) = Ok j" using env fs(6) by (simp add: journal_env_def no_faults_def)
  moreover have "de_mkdir env = Ok ()" using env by (simp add: no_faults_def)
  ultimately show ?thesis
    using HMACKey_again [of env fs, OF env fs(1,2)] Text_again [of env fs UriFile b defaultURI, OF env fs(3)] fs(4,5) j assms(2)
    by (simp add: OpenDataDir_def Let_def journal_of_def)
qed

context bolt_db
begin

lemma bs_Get_no_panic:
  assumes "content_ok H (committed db)"
  shows "\<not> is_panic (bs_Get H B db c)"
proof (cases "content_held H (committed db) c")
  case None
  from bs_Get_missing [OF assms this] show ?thesis by auto
next
  case (Some A)
  show ?thesis
  proof (cases "b_View B db")
    case (Ok tx)
    with bs_Get_view [OF assms Ok] Some assms show ?thesis
      by (auto simp: bs_Get_def content_held_def content_ok_def split: option.splits result.splits)
  qed (use View_no_panic [of db] in \<open>simp_all add: bs_Get_def\<close>)
qed

lemma bolt_confirmed:
  assumes "content_ok H (committed db)" and "confirmed_in (bolt_storage H B db) c"
  shows "\<exists>A m h. content_held H (committed db) c = Some A \<and> (m, BitcoinBlockHeaderAttestation h) \<in> A"
  using assms(2) bs_Get_Ok [OF assms(1)] by (fastforce simp: confirmed_in_def bolt_storage_def storage_of_def)

lemma calendar_answers:
  assumes "content_ok H (committed db)" and "s_store (ch_calendar h) = bolt_storage H B db"
    and "hex_DecodeString (q_PathValue r ''commitment'') = Ok c"
  shows "(\<exists>w proof. cal_getTimestamp h r new_writer = Ok w \<and> status_of w = 200 \<and> ts_DeserializeBytes H (rw_body w) c = Ok proof \<and>
       content_held H (committed db) c = Some (set (AllAttestations proof))) \<or>
     \<not> confirmed_in (bolt_storage H B db) c \<and>
     (\<exists>w. cal_getTimestamp h r new_writer = Ok w \<and> status_of w = 404 \<and>
        rw_body w = bytes_of_string (missing_text (\<exists>s. ch_stamper h = Some s \<and> IsPending s c) @ [CHR 0x0A]))"
proof (cases "bs_Get H B db c")
  case (Ok t)
  then have g: "Service_Get (ch_calendar h) c = Ok t" using assms(2) by (simp add: Service_Get_def bolt_storage_def storage_of_def)
  from bs_Get_Ok [OF assms(1) Ok] have "stamp_ok H c t" "content_held H (committed db) c = Some (set (AllAttestations t))" by simp_all
  with cal_getTimestamp_found [OF assms(3) g] AllAttestations_normal [of t] show ?thesis by metis
next
  case (Err e)
  then have g: "Service_Get (ch_calendar h) c = Err e" using assms(2) by (simp add: Service_Get_def bolt_storage_def storage_of_def)
  have "\<not> confirmed_in (bolt_storage H B db) c" using Err by (simp add: confirmed_in_def bolt_storage_def storage_of_def)
  with cal_getTimestamp_missing [OF assms(3) g] show ?thesis by blast
next
  case (Panic p)
  with bs_Get_no_panic [OF assms(1), of c] show ?thesis by simp
qed

end

lemma calendar_main_restart:
  assumes B: "bolt_db B content committed" "content_ok H (committed db)" and env: "no_faults env"
    and db: "OpenBoltStore B (de_path env DbFile) = Ok db" and d: "dir_holds fs key uri rs"
    and flags: "cf_dataDir flags \<noteq> ''memory''" "cfg_Host (cf_btc flags) \<noteq> ''''"
    and btc: "node_matches connect (cf_btc flags) btc" "cf_maxFee flags = Ok maxFee"
  shows "\<exists>fs' srv j s. calendar_main H env B connect submit rand_key flags fs = (fs', Started (Inr srv)) \<and>
    fs' JournalFile = Some (concat rs) \<and> journal_of j rs \<and>
    ch_calendar (cv_handler srv) = \<lparr>s_uri = uri, s_hmacKey = key, s_store = bolt_storage H B db, s_journal = Some j, s_idx = 0\<rparr> \<and>
    cv_aggregator srv = NewAggregator (ch_calendar (cv_handler srv)) second \<and>
    ch_stamper (cv_handler srv) = Some s \<and> Recover (NewStamper j (bolt_storage H B db) (stamper_config flags maxFee)) = (s, Ok ()) \<and>
    unat (sm_cursor s) = length rs \<and> (\<forall>c. IsPending s c \<longleftrightarrow> c \<in> set rs \<and> \<not> confirmed_in (bolt_storage H B db) c)"
proof -
  obtain fs' dd where dd: "OpenDataDir env B fs (cf_dataDir flags) (cf_uri flags) = (fs', Ok dd)" "fs' JournalFile = Some (concat rs)"
    "dd_URI dd = uri" "dd_HMACKey dd = key" "journal_of (dd_Journal dd) rs" "dd_Store dd = db"
    using OpenDataDir_existing [OF env db d] by blast
  let ?s = "NewStamper (dd_Journal dd) (bolt_storage H B db) (stamper_config flags maxFee)"
  have new: "sm_journal ?s = dd_Journal dd" "sm_store ?s = bolt_storage H B db" "sm_pending ?s = []" "sm_unconfirmed ?s = []"
    by (simp_all add: NewStamper_def)
  have "\<not> is_panic (so_Get (bolt_storage H B db) (so_state (bolt_storage H B db)) c)" for c
    using bolt_db.bs_Get_no_panic [OF B] by (simp add: bolt_storage_def storage_of_def)
  with Recover_correct [of ?s rs] dd(5) obtain s where s: "Recover ?s = (s, Ok ())" "unat (sm_cursor s) = length rs"
    "set (sm_pending s) = {c \<in> set rs. \<not> confirmed_in (bolt_storage H B db) c}" by (auto simp: new)
  have un: "sm_unconfirmed s = []" using Recover_unconfirmed [of ?s] s(1) new(4) by (simp only: fst_conv)
  have "key \<noteq> []" using d by (auto simp: dir_holds_def)
  from start_calendar_run [OF this btc s(1)] obtain srv where
    srv: "start_calendar connect submit flags uri key (bolt_storage H B db) (Some (dd_Journal dd)) = Started srv" by blast
  note parts = start_calendar_StartedD [OF srv]
  have st: "ch_stamper (cv_handler srv) = Some s" using parts flags(2) btc(2) s(1) by auto
  have "calendar_main H env B connect submit rand_key flags fs = (fs', Started (Inr srv))"
    using flags(1) dd srv by (simp add: calendar_main_def)
  moreover have "IsPending s c \<longleftrightarrow> c \<in> set rs \<and> \<not> confirmed_in (bolt_storage H B db) c" for c
    using s(3) un by (simp add: IsPending_def)
  ultimately show ?thesis using parts st s(1,2) dd(2,5) by blast
qed

section \<open>Properties\<close>

text \<open>
  C25. The relay starts exactly when it can serve: a started relay has the pool of the configured
  calendars (the environment variable before the flag, the public calendars if neither names one), without
  duplicates, at least one of which answered, and it verifies against Bitcoin headers only if a host is set,
  and then with a node that reports the chain of the configured network. With a pool whose calendars all
  fail to answer it refuses to start; with one that answers, and no host or a matching node, it starts.
\<close>

theorem relay_start_correct:
  assumes "\<forall>k pool url. \<not> is_panic (Ping (net k) pool url)"
  shows "(\<forall>h. relay_main net connect backend env flags = Started h \<longrightarrow>
      (\<exists>pool. NewPool (parseCalendars env (rf_calendars flags)) = Ok pool \<and> h_backend h = backend pool \<and>
         distinct (URLs pool) \<and> set (URLs pool) = normal_url ` set (calendar_list env (rf_calendars flags)) - {''''} \<and>
         (\<exists>i < length (URLs pool). Ping (net i) pool (URLs pool ! i) = Ok ()) \<and>
         (if cfg_Host (rf_btc flags) = '''' then h_headers h = None
          else \<exists>btc. node_matches connect (rf_btc flags) btc \<and> h_headers h = Some (\<lambda>_. btc_BlockHeader btc)))) \<and>
    (\<forall>pool. NewPool (parseCalendars env (rf_calendars flags)) = Ok pool \<longrightarrow>
       (if \<forall>i < length (URLs pool). \<not> is_ok (Ping (net i) pool (URLs pool ! i))
        then relay_main net connect backend env flags = Exit ''no upstream calendars reachable; refusing to start'' None
        else cfg_Host (rf_btc flags) = '''' \<or> (\<exists>btc. node_matches connect (rf_btc flags) btc) \<longrightarrow>
          (\<exists>h. relay_main net connect backend env flags = Started h)))"
proof (intro conjI allI impI)
  fix h assume "relay_main net connect backend env flags = Started h"
  from relay_main_StartedD [OF this] obtain pool where p: "NewPool (parseCalendars env (rf_calendars flags)) = Ok pool"
      "h_backend h = backend pool" "\<exists>i < length (URLs pool). Ping (net i) pool (URLs pool ! i) = Ok ()"
      "if cfg_Host (rf_btc flags) = '''' then h_headers h = None
       else \<exists>btc. node_matches connect (rf_btc flags) btc \<and> h_headers h = Some (\<lambda>_. btc_BlockHeader btc)" by blast
  from NewPool_OkD [OF p(1)] have "distinct (URLs pool)" "set (URLs pool) = normal_url ` set (calendar_list env (rf_calendars flags)) - {''''}"
    by (simp_all only: Client.pool_ok_def URLs_def normal_url_parse simp_thms)
  with p show "\<exists>pool. NewPool (parseCalendars env (rf_calendars flags)) = Ok pool \<and> h_backend h = backend pool \<and>
         distinct (URLs pool) \<and> set (URLs pool) = normal_url ` set (calendar_list env (rf_calendars flags)) - {''''} \<and>
         (\<exists>i < length (URLs pool). Ping (net i) pool (URLs pool ! i) = Ok ()) \<and>
         (if cfg_Host (rf_btc flags) = '''' then h_headers h = None
          else \<exists>btc. node_matches connect (rf_btc flags) btc \<and> h_headers h = Some (\<lambda>_. btc_BlockHeader btc))" by blast
next
  fix pool assume p: "NewPool (parseCalendars env (rf_calendars flags)) = Ok pool"
  have "\<forall>i < length (URLs pool). \<not> is_panic (Ping (net i) pool (URLs pool ! i))" using assms by blast
  note run = relay_main_run [OF p this, where connect = connect and backend = backend]
  show "if \<forall>i < length (URLs pool). \<not> is_ok (Ping (net i) pool (URLs pool ! i))
        then relay_main net connect backend env flags = Exit ''no upstream calendars reachable; refusing to start'' None
        else cfg_Host (rf_btc flags) = '''' \<or> (\<exists>btc. node_matches connect (rf_btc flags) btc) \<longrightarrow>
          (\<exists>h. relay_main net connect backend env flags = Started h)"
    by (rule iffD2 [OF if_bool_eq_conj]) (use run in blast)
qed

text \<open>Without flags and environment the pool has all default calendars.\<close>

lemma relay_default_pool:
  "\<exists>pool. NewPoolWithTimeout (parseCalendars '''' (rf_calendars relay_default_flags)) (rf_timeout relay_default_flags) = Ok pool \<and>
     URLs pool = DefaultCalendars"
proof -
  have "case NewPoolWithTimeout (parseCalendars '''' (rf_calendars relay_default_flags)) (rf_timeout relay_default_flags) of
      Ok pool \<Rightarrow> URLs pool = DefaultCalendars | _ \<Rightarrow> False"
    by code_simp
  then show ?thesis by (auto split: result.splits)
qed

definition sample_relay_flags :: relay_flags where
  "sample_relay_flags = \<lparr>rf_calendars = ''https://a, '', rf_timeout = 30,
     rf_btc = \<lparr>cfg_Host = ''h:8332'', cfg_User = ''u'', cfg_Pass = ''p'', cfg_Network = ''mainnet''\<rparr>\<rparr>"

definition mainnet_node :: "string node" where
  "mainnet_node = sample_node\<lparr>RawRequest := \<lambda>_. Ok ''main''\<rparr>"

lemma mainnet_node_matches:
  "cfg_Network cfg = ''mainnet'' \<Longrightarrow> node_matches (\<lambda>_. Ok mainnet_node) cfg \<lparr>bc_rpc = mainnet_node, bc_network = ''mainnet''\<rparr>"
  by (simp add: node_matches_def mainnet_node_def chain_name_def sample_node_def)

theorem relay_start_correct_witness:
  "\<exists>h. relay_main (\<lambda>k j q. Ok \<lparr>rs_StatusCode = 200, rs_Body = []\<rparr>) (\<lambda>_. Ok mainnet_node)
     (\<lambda>pool. pool_backend const_hashes (\<lambda>j q. Ok \<lparr>rs_StatusCode = 200, rs_Body = []\<rparr>) pool (URLs pool)) '''' sample_relay_flags = Started h"
proof -
  let ?net = "\<lambda>k j q. Ok \<lparr>rs_StatusCode = 200, rs_Body = []\<rparr> :: http_response result"
  have parse: "parseCalendars '''' (rf_calendars sample_relay_flags) = [''https://a'']" by code_simp
  have pool: "NewPool (parseCalendars '''' (rf_calendars sample_relay_flags)) = Ok sample_pool"
    unfolding parse by (rule sample_pool_new)
  have "\<forall>k pool url. \<not> is_panic (Ping (?net k) pool url)" by (simp add: Ping_def Let_def split: option.split)
  note start = relay_start_correct [OF this, THEN conjunct2, rule_format, OF pool]
  have "length (URLs sample_pool) = 1" "Ping (?net 0) sample_pool (URLs sample_pool ! 0) = Ok ()" by code_simp+
  then have "\<not> (\<forall>i < length (URLs sample_pool). \<not> is_ok (Ping (?net i) sample_pool (URLs sample_pool ! i)))" by auto
  moreover have "\<exists>btc. node_matches (\<lambda>_. Ok mainnet_node) (rf_btc sample_relay_flags) btc"
    using mainnet_node_matches [of "rf_btc sample_relay_flags"] by (auto simp: sample_relay_flags_def)
  ultimately show ?thesis
    using start [where backend = "\<lambda>pool. pool_backend const_hashes (?net 0) pool (URLs pool)" and connect = "\<lambda>_. Ok mainnet_node"]
    by (simp only: if_False simp_thms)
qed

lemma cal_default_flags_OkD:
  assumes "cal_default_flags home (Ok maxFee) = Ok f"
  shows "\<exists>parent. cf_dataDir f = parent @ ''.otsd/calendar''" "cfg_Host (cf_btc f) = ''''"
    "stamper_config f maxFee = DefaultConfig maxFee"
proof -
  from assms obtain d where d: "defaultDataDir home = Ok d" "cf_dataDir f = d" "cfg_Host (cf_btc f) = ''''"
    "stamper_config f maxFee = DefaultConfig maxFee"
    by (auto simp: cal_default_flags_def andThen_eq_Ok stamper_config_def DefaultConfig_def second_def)
  then show "\<exists>parent. cf_dataDir f = parent @ ''.otsd/calendar''" "cfg_Host (cf_btc f) = ''''"
    "stamper_config f maxFee = DefaultConfig maxFee"
    using defaultDataDir_suffix by blast+
qed

text \<open>
  C24. The calendar never anchors what it could lose. A server on \<open>memory\<close> runs without a Bitcoin host and
  without a stamper; with a host, \<open>memory\<close> does not start. A server on a data directory has a stamper if
  and only if a host is set, and then the node reported the chain of the configured network, the fee limit
  is a valid amount, and the stamper has recovered the journal with the limits of the flags. Without flags
  the directory is one below the home directory, never \<open>memory\<close>, there is no host, and the limits are those of
  the default configuration of the stamper.
\<close>

theorem calendar_start_fails_closed:
  fixes B :: "('db, 'tx) bolt"
  shows "(\<forall>srv. snd (calendar_main H env B connect submit rand_key flags fs) = Started (Inl srv) \<longrightarrow>
      cf_dataDir flags = ''memory'' \<and> cfg_Host (cf_btc flags) = '''' \<and>
      ch_stamper (cv_handler srv) = None \<and> ch_headers (cv_handler srv) = None) \<and>
   (\<forall>srv. snd (calendar_main H env B connect submit rand_key flags fs) = Started (Inr srv) \<longrightarrow>
      cf_dataDir flags \<noteq> ''memory'' \<and>
      (if cfg_Host (cf_btc flags) = '''' then ch_stamper (cv_handler srv) = None \<and> ch_headers (cv_handler srv) = None
       else \<exists>btc j maxFee s. node_matches connect (cf_btc flags) btc \<and> ch_headers (cv_handler srv) = Some (\<lambda>_. btc_BlockHeader btc) \<and>
         s_journal (ch_calendar (cv_handler srv)) = Some j \<and> cf_maxFee flags = Ok maxFee \<and>
         Recover (NewStamper j (s_store (ch_calendar (cv_handler srv))) (stamper_config flags maxFee)) = (s, Ok ()) \<and>
         ch_stamper (cv_handler srv) = Some s)) \<and>
   (cf_dataDir flags = ''memory'' \<and> cfg_Host (cf_btc flags) \<noteq> '''' \<longrightarrow>
      (\<forall>srv. snd (calendar_main H env B connect submit rand_key flags fs) \<noteq> Started srv)) \<and>
   (\<forall>home maxFee f. cal_default_flags home (Ok maxFee) = Ok f \<longrightarrow>
      (\<exists>parent. cf_dataDir f = parent @ ''.otsd/calendar'') \<and> cf_dataDir f \<noteq> ''memory'' \<and>
      cfg_Host (cf_btc f) = '''' \<and> stamper_config f maxFee = DefaultConfig maxFee)"
proof (intro conjI allI impI, goal_cases)
  case (1 srv)
  then show ?case by (auto simp: calendar_main_def split: if_splits prod.splits)
next
  case (2 srv)
  then have "start_calendar connect submit flags (cf_uri flags) key (memory_storage H) None \<noteq> Started srv" if "cfg_Host (cf_btc flags) \<noteq> ''''" for key
    using start_calendar_memory [OF that] by blast
  with 2 show ?case by (auto simp: calendar_main_def split: if_splits prod.splits)
next
  case (3 srv)
  then obtain key where "start_calendar connect submit flags (cf_uri flags) key (memory_storage H) None = Started srv"
    by (auto simp: calendar_main_def split: if_splits prod.splits)
  from start_calendar_StartedD [OF this] show ?case by (auto split: if_splits)
next
  case (4 srv)
  then obtain key where "start_calendar connect submit flags (cf_uri flags) key (memory_storage H) None = Started srv"
    by (auto simp: calendar_main_def split: if_splits prod.splits)
  from start_calendar_StartedD [OF this] show ?case by (auto split: if_splits)
next
  case (5 srv)
  then show ?case by (auto simp: calendar_main_def split: if_splits prod.splits)
next
  case (6 srv)
  then obtain dd :: "'db DataDir" where "start_calendar connect submit flags (dd_URI dd) (dd_HMACKey dd) (bolt_storage H B (dd_Store dd)) (Some (dd_Journal dd)) = Started srv"
    by (auto simp: calendar_main_def split: if_splits prod.splits)
  from start_calendar_StartedD [OF this] show ?case by (auto split: if_splits)
next
  case (7 srv)
  then show ?case using start_calendar_memory by (fastforce simp: calendar_main_def)
next
  case (8 home maxFee f)
  then show ?case using cal_default_flags_OkD by blast
next
  case (9 home maxFee f)
  then obtain parent where "cf_dataDir f = parent @ ''.otsd/calendar''" using cal_default_flags_OkD by blast
  then have "last (cf_dataDir f) = CHR ''r''" by simp
  then show ?case by auto
next
  case (10 home maxFee f)
  then show ?case using cal_default_flags_OkD by blast
next
  case (11 home maxFee f)
  then show ?case using cal_default_flags_OkD by blast
qed

definition sample_cal_flags :: cal_flags where
  "sample_cal_flags = \<lparr>cf_uri = ''http://c'', cf_dataDir = ''d'',
     cf_btc = \<lparr>cfg_Host = ''h:8332'', cfg_User = ''u'', cfg_Pass = ''p'', cfg_Network = ''mainnet''\<rparr>,
     cf_minConf = 6, cf_minTxInterval = 6 * 3600000000000, cf_maxFee = Ok 100000, cf_maxPending = 100000\<rparr>"

theorem calendar_start_fails_closed_witness:
  "\<forall>srv. snd (calendar_main const_hashes sample_env ref_bolt (\<lambda>_. Ok mainnet_node) (\<lambda>d. Err (ErrorString ''down''))
     (Ok (replicate 32 1)) (sample_cal_flags\<lparr>cf_dataDir := ''memory''\<rparr>) Map.empty) \<noteq> Started srv"
  using calendar_start_fails_closed [of const_hashes sample_env ref_bolt "\<lambda>_. Ok mainnet_node" "\<lambda>d. Err (ErrorString ''down'')"
    "Ok (replicate 32 1)" "sample_cal_flags\<lparr>cf_dataDir := ''memory''\<rparr>" Map.empty]
  by (simp add: sample_cal_flags_def)

text \<open>
  C9. A crash loses no journaled commitment. A calendar started with a Bitcoin host on a data directory that
  holds a key, an address and complete records, perhaps followed by a part of one, starts; it has that
  key and address; its stamper has read all records and has pending exactly those whose stored proof carries no
  Bitcoin attestation; its aggregator and stamper are in the initial states of their histories. A lookup of
  any journaled commitment, also of one that never reached the store, answers with exactly the attestations
  the database holds, or with 404 and the text that it is pending, never that it is not found.
\<close>

theorem calendar_restart_recovers:
  assumes "bolt_db B content committed" and "content_ok H (committed db)" and "no_faults env"
    and "OpenBoltStore B (de_path env DbFile) = Ok db" and "dir_holds fs key uri rs"
    and "cf_dataDir flags \<noteq> ''memory''" and "cfg_Host (cf_btc flags) \<noteq> ''''"
    and "node_matches connect (cf_btc flags) btc" and "cf_maxFee flags = Ok maxFee"
  shows "\<exists>fs' srv s. calendar_main H env B connect submit rand_key flags fs = (fs', Started (Inr srv)) \<and>
    fs' JournalFile = Some (concat rs) \<and>
    s_uri (ch_calendar (cv_handler srv)) = uri \<and> s_hmacKey (ch_calendar (cv_handler srv)) = key \<and>
    ch_stamper (cv_handler srv) = Some s \<and> unat (sm_cursor s) = length rs \<and>
    (\<forall>c. IsPending s c \<longleftrightarrow> c \<in> set rs \<and> \<not> confirmed_in (bolt_storage H B db) c) \<and>
    stamper_reach H (bs_Put H B) (bs_Get H B) (bs_Has B) TYPE('t) rs s \<and>
    agg_reach H (ch_calendar (cv_handler srv)) second \<lparr>st_heap = [], st_agg = cv_aggregator srv, st_callers = []\<rparr> \<and>
    (\<forall>r c. c \<in> set rs \<and> hex_DecodeString (q_PathValue r ''commitment'') = Ok c \<longrightarrow>
       (\<exists>w. cal_getTimestamp (cv_handler srv) r new_writer = Ok w \<and>
          (status_of w = 200 \<and> (\<exists>proof. ts_DeserializeBytes H (rw_body w) c = Ok proof \<and>
             content_held H (committed db) c = Some (set (AllAttestations proof))) \<or>
           status_of w = 404 \<and> rw_body w = bytes_of_string (missing_text True @ [CHR 0x0A]))))"
proof -
  obtain fs' srv j s where run: "calendar_main H env B connect submit rand_key flags fs = (fs', Started (Inr srv))"
      "fs' JournalFile = Some (concat rs)"
    and j: "journal_of j rs" "Recover (NewStamper j (bolt_storage H B db) (stamper_config flags maxFee)) = (s, Ok ())"
    and cal: "ch_calendar (cv_handler srv) = \<lparr>s_uri = uri, s_hmacKey = key, s_store = bolt_storage H B db, s_journal = Some j, s_idx = 0\<rparr>"
      "cv_aggregator srv = NewAggregator (ch_calendar (cv_handler srv)) second"
    and st: "ch_stamper (cv_handler srv) = Some s" "unat (sm_cursor s) = length rs"
      "\<forall>c. IsPending s c \<longleftrightarrow> c \<in> set rs \<and> \<not> confirmed_in (bolt_storage H B db) c"
    using calendar_main_restart [OF assms, of submit rand_key] by blast
  have reach: "stamper_reach H (bs_Put H B) (bs_Get H B) (bs_Has B) TYPE('t) rs s"
    using j by (intro stamper_reach.start) (simp_all add: bolt_storage_def)
  have agg: "agg_reach H (ch_calendar (cv_handler srv)) second \<lparr>st_heap = [], st_agg = cv_aggregator srv, st_callers = []\<rparr>"
    unfolding cal(2) by (rule agg_reach.start)
  have "s_store (ch_calendar (cv_handler srv)) = bolt_storage H B db" by (simp add: cal(1))
  from bolt_db.calendar_answers [OF assms(1,2) this]
  have get: "\<exists>w. cal_getTimestamp (cv_handler srv) r new_writer = Ok w \<and>
          (status_of w = 200 \<and> (\<exists>proof. ts_DeserializeBytes H (rw_body w) c = Ok proof \<and>
             content_held H (committed db) c = Some (set (AllAttestations proof))) \<or>
           status_of w = 404 \<and> rw_body w = bytes_of_string (missing_text True @ [CHR 0x0A]))"
    if c: "c \<in> set rs" "hex_DecodeString (q_PathValue r ''commitment'') = Ok c" for r c
  proof (cases "confirmed_in (bolt_storage H B db) c")
    case True
    with bolt_db.calendar_answers [OF assms(1,2) \<open>s_store _ = _\<close> c(2)] show ?thesis by blast
  next
    case False
    then have p: "missing_text (\<exists>s. ch_stamper (cv_handler srv) = Some s \<and> IsPending s c) = missing_text True"
      using st c(1) by simp
    from bolt_db.calendar_answers [OF assms(1,2) \<open>s_store _ = _\<close> c(2), unfolded p] show ?thesis by blast
  qed
  have ids: "s_uri (ch_calendar (cv_handler srv)) = uri" "s_hmacKey (ch_calendar (cv_handler srv)) = key" by (simp_all add: cal(1))
  from run ids st reach agg get show ?thesis by (intro exI [of _ fs'] exI [of _ srv] exI [of _ s]) simp
qed

theorem calendar_restart_recovers_witness:
  "\<exists>fs' srv s. calendar_main const_hashes sample_env ref_bolt (\<lambda>_. Ok mainnet_node) (\<lambda>d. Err (ErrorString ''down'')) (Ok [])
       sample_cal_flags [HmacKeyFile \<mapsto> replicate 32 3, UriFile \<mapsto> bytes_of_string ''http://c'', JournalFile \<mapsto> replicate 44 1 @ [9, 9]] =
       (fs', Started (Inr srv)) \<and> ch_stamper (cv_handler srv) = Some s \<and> IsPending s (replicate 44 1)"
proof -
  let ?fs = "[HmacKeyFile \<mapsto> replicate 32 3, UriFile \<mapsto> bytes_of_string ''http://c'', JournalFile \<mapsto> replicate 44 1 @ [9, 9 :: byte]]"
  have "TrimSpace (string_of_bytes (bytes_of_string ''http://c'')) = ''http://c''" by code_simp
  then have d: "dir_holds ?fs (replicate 32 3) ''http://c'' [replicate 44 1]" by (simp add: dir_holds_def JournalRecordSize_def)
  have env: "no_faults sample_env" by (simp add: no_faults_def sample_env_def)
  have db: "OpenBoltStore ref_bolt (de_path sample_env DbFile) = Ok (Some Map.empty)" by (simp add: OpenBoltStore_def ref_bolt_def)
  have c: "content_ok const_hashes (Some Map.empty)" by (simp add: content_ok_def)
  have flags: "cf_dataDir sample_cal_flags \<noteq> ''memory''" "cfg_Host (cf_btc sample_cal_flags) \<noteq> ''''" "cf_maxFee sample_cal_flags = Ok 100000"
    "cfg_Network (cf_btc sample_cal_flags) = ''mainnet''" by (simp_all add: sample_cal_flags_def)
  have "\<not> confirmed_in (bolt_storage const_hashes ref_bolt (Some Map.empty)) (replicate 44 1)"
    by (simp add: confirmed_in_def bolt_storage_def storage_of_def bs_Get_def bucket_Get_def ref_bolt_def)
  with calendar_restart_recovers [OF ref.bolt_db_axioms c env db d flags(1,2) mainnet_node_matches [OF flags(4)] flags(3),
      where submit = "\<lambda>d. Err (ErrorString ''down'')" and rand_key = "Ok []" and 't = unit]
  show ?thesis by (metis list.set_intros(1))
qed

end
