(* ===== verification/Relay_Docs.thy ===== *)
theory Relay_Docs
  imports Api_Docs Commands
begin

text \<open>
  The answers of the relay against the document of \<open>Api_Docs\<close>: every JSON body of \<^verbatim>\<open>types.go\<close> conforms to its
  schema, each handler answers with a documented status, and the answers that the document leaves out.
\<close>

section \<open>The bodies conform to their schemas\<close>

lemma dec_nat_digits: "dec_nat n \<noteq> [] \<and> list_all (in_range 48 57) (dec_nat n)"
proof (induction n rule: dec_nat.induct)
  case (1 n)
  have d: "in_range 48 57 (char_of (48 + k))" if "k < 10" for k :: nat
    using that by (simp add: in_range_def)
  show ?case using 1 d by (subst (1 2) dec_nat.simps) simp
qed

lemma conforms_items_map: "conforms_items doc schema (map f xs) \<longleftrightarrow> list_all (\<lambda>x. conforms doc schema (f x)) xs"
  by (induction xs) simp_all

lemma conforms_fields_append:
  "conforms_fields doc schema (fs @ gs) \<longleftrightarrow> conforms_fields doc schema fs \<and> conforms_fields doc schema gs"
  by (induction fs) auto

lemma conforms_fields_omitempty:
  "conforms_fields doc schema (omitempty zero k v) \<longleftrightarrow> zero \<or> conforms doc (property_schema k schema) v"
  by (simp add: omitempty_def)

lemmas conforms_simps = conforms_items_map conforms_fields_append conforms_fields_omitempty typed_def property_schema_def items_schema_def Let_def

lemma resolve_object:
  "map_of fs ''$ref'' = None \<Longrightarrow> resolve doc (JvObject ((''type'', t) # fs)) = Some (JvObject ((''type'', t) # fs))"
  by (simp add: resolve_def)

lemma conforms_ErrorResponse: "conforms (docTemplate spec) (Some (ref ''ErrorResponse'')) (json_ErrorResponse r)"
  by (simp add: json_ErrorResponse_def resolve_doc conforms_simps docSchema_ErrorResponse_def resolve_object)

lemma conforms_CalendarStatus: "conforms (docTemplate spec) (Some (ref ''CalendarStatus'')) (json_CalendarStatus r)"
  by (simp add: json_CalendarStatus_def resolve_doc conforms_simps docSchema_CalendarStatus_def resolve_object)

lemma conforms_AttestationInfoJSON: "conforms (docTemplate spec) (Some (ref ''AttestationInfoJSON'')) (json_AttestationInfoJSON r)"
  by (simp add: json_AttestationInfoJSON_def resolve_doc conforms_simps docSchema_AttestationInfoJSON_def resolve_object)

lemma conforms_CreateTimestampResponse: "conforms (docTemplate spec) (Some (ref ''CreateTimestampResponse'')) (json_CreateTimestampResponse r)"
  by (simp add: json_CreateTimestampResponse_def resolve_doc conforms_simps docSchema_CreateTimestampResponse_def resolve_object)

lemma conforms_UpgradeResponse: "conforms (docTemplate spec) (Some (ref ''UpgradeResponse'')) (json_UpgradeResponse r)"
  by (simp add: json_UpgradeResponse_def resolve_doc conforms_simps docSchema_UpgradeResponse_def resolve_object)

lemma ref_literal:
  "JvObject [(''$ref'', JvText ''#/definitions/api_server.CalendarStatus'')] = ref ''CalendarStatus''"
  "JvObject [(''$ref'', JvText ''#/definitions/api_server.AttestationInfoJSON'')] = ref ''AttestationInfoJSON''"
  by (simp_all add: ref_def definitions_prefix_def)

lemma conforms_HealthResponse: "conforms (docTemplate spec) (Some (ref ''HealthResponse'')) (json_HealthResponse r)"
  by (simp add: json_HealthResponse_def resolve_doc conforms_simps docSchema_HealthResponse_def resolve_object ref_literal conforms_CalendarStatus list_all_iff)

lemma conforms_StatusResponse: "conforms (docTemplate spec) (Some (ref ''StatusResponse'')) (json_StatusResponse r)"
  by (simp add: json_StatusResponse_def resolve_doc conforms_simps docSchema_StatusResponse_def resolve_object ref_literal conforms_CalendarStatus list_all_iff)

lemma conforms_ParseProofResponse: "conforms (docTemplate spec) (Some (ref ''ParseProofResponse'')) (json_ParseProofResponse r)"
  by (simp add: json_ParseProofResponse_def resolve_doc conforms_simps docSchema_ParseProofResponse_def resolve_object jv_uint_def dec_nat_digits [unfolded list_all_iff] list_all_iff)

lemma conforms_VerifyResponse:
  "conforms (docTemplate spec) (Some (ref ''VerifyResponse'')) (json_VerifyResponse r) \<longleftrightarrow> vr_Attestations r \<noteq> []"
  by (simp add: json_VerifyResponse_def jv_slice_def resolve_doc conforms_simps docSchema_VerifyResponse_def resolve_object
      ref_literal conforms_AttestationInfoJSON jv_uint_def dec_nat_digits [unfolded list_all_iff] list_all_iff)


section \<open>The answers of the handlers\<close>

lemma documented_JSON:
  assumes "docAnswer doc route code = Some schema" and "conforms doc (Some schema) v" and "200 \<le> code"
  shows "answer_documented doc route (writeJSON code v new_writer)"
  using assms by (auto simp: answer_documented_def response writeJSON_def)

lemma documented_JSONError:
  assumes "docAnswer (docTemplate spec) route code = Some (ref ''ErrorResponse'')" and "200 \<le> code"
  shows "answer_documented (docTemplate spec) route (writeJSONError code msg new_writer)"
  unfolding writeJSONError_def by (rule documented_JSON [OF assms(1) conforms_ErrorResponse assms(2)])

lemma documented_plain:
  "docAnswer doc route (status_of w) = Some plain_string \<Longrightarrow> answer_documented doc route w"
  by (simp add: answer_documented_def)

lemma documented_octets:
  "docAnswer doc route 200 = Some plain_string \<Longrightarrow> rw_sent w = None \<Longrightarrow> answer_documented doc route (Write bs (WriteHeader 200 w))"
  by (simp add: documented_plain response)

lemmas documented = documented_JSON documented_JSONError docAnswers

lemma getHealth_documented:
  "getHealth h new_writer = Ok w \<Longrightarrow> answer_documented (docTemplate spec) ''GET /api/v1/health'' w"
  by (auto simp: getHealth_def andThen_eq_Ok conforms_HealthResponse documented split: if_splits)

lemma getStatus_documented:
  "getStatus h new_writer = Ok w \<Longrightarrow> answer_documented (docTemplate spec) ''GET /api/v1/status'' w"
  by (auto simp: getStatus_def andThen_eq_Ok conforms_StatusResponse documented)

lemma postParseProofJSON_documented:
  "postParseProofJSON H decoded new_writer = Ok w \<Longrightarrow> answer_documented (docTemplate spec) ''POST /api/v1/parse-proof'' w"
  by (auto simp: postParseProofJSON_def check_eq_Ok conforms_ParseProofResponse documented)

lemma documented_verdict:
  assumes "docAnswer (docTemplate spec) route 200 = Some (ref ''VerifyResponse'')" and "r_Attestations res \<noteq> []"
  shows "answer_documented (docTemplate spec) route (writeJSON 200 (json_VerifyResponse (verifyResponseFrom res)) new_writer)"
  by (rule documented_JSON [OF assms(1)]) (simp_all add: conforms_VerifyResponse verifyResponseFrom_eq assms(2))

lemma andThen_eq_Err: "andThen r f = Err e \<longleftrightarrow> r = Err e \<or> (\<exists>x. r = Ok x \<and> f x = Err e)"
  by (cases r) simp_all

lemma verify_loop_no_Err: "verify_loop headers k items st \<noteq> Err e"
proof (induction items arbitrary: k st)
  case (Cons item items)
  have b: "verifyBitcoin headers j h msg \<noteq> Err e" for j h msg
    by (auto simp: verifyBitcoin_def Let_def split: option.splits result.splits if_splits)
  have "verify_item headers k item st \<noteq> Err e"
    by (auto simp: verify_item_def andThen_eq_Err b Let_def split: prod.splits attestation.splits if_splits)
  with Cons show ?case by (auto simp: andThen_eq_Err)
qed simp

context relay_backend
begin

lemma verifyOptions_upgrader: "h_backend h = b \<Longrightarrow> o_Upgrader (verifyOptions h) = Some u \<Longrightarrow> upgrader H u"
  using up.upgrader_axioms by (auto simp: verifyOptions_def)

text \<open>A proof on the digest gets a verdict with an entry for each of its attestations, and it has some.\<close>

lemma VerifyProof_full:
  assumes "h_backend h = b" and ts: "linked H ts" "full ts" "ts_Msg ts = digest"
  shows "snd (VerifyProof H (verifyOptions h) ts digest) \<noteq> Err e"
    and "snd (VerifyProof H (verifyOptions h) ts digest) = Ok res \<Longrightarrow> r_Attestations res \<noteq> []"
proof -
  obtain p r where u: "Upgrade H (rb_GetTimestamp b) ts = (p, r)" by fastforce
  then have "rb_Upgrade b ts = (p, r)" by (simp add: Upgrade_eq)
  from Upgrade_full [OF ts(1,2) this] have ne: "AllAttestations p \<noteq> []" by (rule full_AllAttestations)
  have r: "r \<noteq> Err e'" for e' by (rule up.Upgrade_keeps(7) [OF ts(1) u])
  have o: "o_Upgrader (verifyOptions h) = Some (rb_GetTimestamp b)" using assms(1) by (simp add: verifyOptions_def)
  have v: "snd (VerifyProof H (verifyOptions h) ts digest) = andThen r (\<lambda>_. andThen (verify_loop (o_Headers (verifyOptions h)) 0 (AllAttestations p)
      \<lparr>ls_result = zero_Result, ls_sawPending = False, ls_sawInvalid = False\<rparr>) (\<lambda>st. Ok (conclude st)))"
    using r ts(3) by (cases r) (auto simp: VerifyProof_def VerifyDigest_def o upgradePending_def u)
  show "snd (VerifyProof H (verifyOptions h) ts digest) \<noteq> Err e"
    using r verify_loop_no_Err by (auto simp: v andThen_eq_Err)
  show "r_Attestations res \<noteq> []" if "snd (VerifyProof H (verifyOptions h) ts digest) = Ok res"
  proof -
    from that obtain st where st: "verify_loop (o_Headers (verifyOptions h)) 0 (AllAttestations p)
      \<lparr>ls_result = zero_Result, ls_sawPending = False, ls_sawInvalid = False\<rparr> = Ok st" "res = conclude st"
      by (auto simp: v andThen_eq_Ok)
    from ne have "length (r_Attestations (conclude st)) = length (AllAttestations p)"
      by (intro conclude_verdict(4) [OF loop_start [OF st(1)]]) simp
    with ne st(2) show ?thesis by auto
  qed
qed

lemma postVerifyJSON_documented:
  assumes "h_backend h = b" and "postVerifyJSON H h decoded new_writer = Ok w"
  shows "answer_documented (docTemplate spec) ''POST /api/v1/verify'' w"
proof -
  have v: "snd (VerifyProof H (verifyOptions h) ts digest) \<noteq> Err e"
    "snd (VerifyProof H (verifyOptions h) ts digest) = Ok res \<Longrightarrow> r_Attestations res \<noteq> []"
    if "ts_DeserializeBytes H bs digest = Ok ts" for bs digest ts e res
    using ts_DeserializeBytes_ok [OF that] VerifyProof_full [OF assms(1), of ts digest] by (simp_all add: stamp_ok_def)
  from assms(2) show ?thesis by (auto simp: postVerifyJSON_def check_eq_Ok v documented documented_verdict)
qed

lemma postUpgradeJSON_documented:
  assumes "h_backend h = b" and "postUpgradeJSON H h decoded new_writer = Ok w"
  shows "answer_documented (docTemplate spec) ''POST /api/v1/upgrade'' w"
proof -
  have u: "r \<noteq> Err e" "ts_SerializeBytes ts' = Ok (ts_enc ts')"
    if ts: "ts_DeserializeBytes H bs digest = Ok ts" and run: "rb_Upgrade b ts = (ts', r)" for bs digest ts ts' r e
  proof -
    have ok: "linked H ts" "full ts" using ts_DeserializeBytes_ok [OF ts] by (simp_all add: stamp_ok_def)
    show "r \<noteq> Err e" using up.Upgrade_keeps(7) [OF ok(1), of ts' r] run by (simp add: Upgrade_eq)
    have "full ts'" by (rule Upgrade_full [OF ok run])
    then show "ts_SerializeBytes ts' = Ok (ts_enc ts')"
      by (simp add: ts_SerializeBytes_def ts_Serialize_enc(1) NewWriteContext_def Bytes_def)
  qed
  note u' = u(1) [OF _ prod.collapse [symmetric]] u(2) [OF _ prod.collapse [symmetric]]
  from assms(2) show ?thesis
    by (auto simp: postUpgradeJSON_def check_eq_Ok assms(1) case_prod_unfold conforms_UpgradeResponse documented u')
qed

lemma postCreateJSON_documented:
  assumes "h_backend h = b" and "postCreateJSON h decoded new_writer = Ok w"
  shows "answer_documented (docTemplate spec) ''POST /api/v1/timestamps'' w"
  using assms(2)
  by (auto simp: postCreateJSON_def check_eq_Ok assms(1) stamp_ok_codec(1) [OF Stamp_ok] conforms_CreateTimestampResponse documented split: if_splits)

lemma getTimestamp_documented:
  assumes "h_backend h = b" and "getTimestamp h r new_writer = Ok w"
  shows "answer_documented (docTemplate spec) ''GET /timestamp/{commitment}'' w"
  using assms(2)
  by (auto simp: getTimestamp_def check_eq_Ok assms(1) stamp_ok_codec(1) [OF GetTimestampAny_ok] setOTSHeaders_def Let_def response docAnswers intro!: documented_plain)

text \<open>The two endpoints with answers beyond the document.\<close>

lemma postDigest_documented:
  assumes "h_backend h = b" and "postDigest h r new_writer = Ok w"
  shows "answer_documented (docTemplate spec) ''POST /digest'' w \<or>
    (status_of w = 502 \<and> (\<exists>digest e. ReadAll_limited 65 [] (q_Body r) = Ok digest \<and> rb_Stamp b digest = Err e))"
  using assms(2)
  by (auto simp: postDigest_def check_eq_Ok assms(1) stamp_ok_codec(1) [OF Stamp_ok] setOTSHeaders_def Let_def response docAnswers maxDigestLength_def
    split: if_splits intro!: documented_plain)

lemma postVerifyFile_documented:
  assumes "h_backend h = b" and "postVerifyFile H h r new_writer = Ok w"
  shows "answer_documented (docTemplate spec) ''POST /api/v1/verify-file'' w \<or>
    (\<exists>name f name' g. FormFile maxUploadBytes r ''file'' = Ok (name, f) \<and> FormFile maxUploadBytes r ''ots'' = Ok (name', g) \<and>
      ((status_of w = 500 \<and> (\<exists>e. SHA256_HashReader H f = Err e)) \<or>
       (status_of w = 200 \<and> rw_body w = Encode (json_VerifyResponse (verifyResponseFrom (refuse ''file hash does not match proof''))) \<and>
        (\<exists>digest d. SHA256_HashReader H f = Ok digest \<and> DeserializeDetachedBytes H (read_proof [] g) = Ok d \<and> digest \<noteq> FileDigest d))))"
proof -
  have v: "snd (VerifyProof H (verifyOptions h) ts digest) \<noteq> Err e"
    "snd (VerifyProof H (verifyOptions h) ts digest) = Ok res \<Longrightarrow> r_Attestations res \<noteq> []"
    if "DeserializeDetachedBytes H bs = Ok d" "ts = df_Timestamp d" "digest = ts_Msg ts" for bs d digest ts e res
    using DeserializeDetached_OkD [OF that(1)] that(2,3) VerifyProof_full [OF assms(1), of ts digest] by (simp_all add: df_ok_def)
  have vd: "answer_documented (docTemplate spec) ''POST /api/v1/verify-file'' (writeJSON 200 (json_VerifyResponse (verifyResponseFrom res)) new_writer)"
    if "DeserializeDetachedBytes H bs = Ok d" "snd (VerifyProof H (verifyOptions h) (df_Timestamp d) (ts_Msg (df_Timestamp d))) = Ok res" for bs d res
    using documented_verdict docAnswers v(2) [OF that(1) refl refl that(2)] by simp
  show ?thesis
  proof (cases "FormFile maxUploadBytes r ''file''")
    case f: (Ok up)
    show ?thesis
    proof (cases "FormFile maxUploadBytes r ''ots''")
      case (Ok ots)
      obtain name f' where up: "up = (name, f')" by (cases up)
      obtain name' g where ots: "ots = (name', g)" by (cases ots)
      have form: "FormFile maxUploadBytes r ''file'' = Ok (name, f')" "FormFile maxUploadBytes r ''ots'' = Ok (name', g)"
        using f Ok up ots by simp_all
      have "answer_documented (docTemplate spec) ''POST /api/v1/verify-file'' w \<or>
        ((status_of w = 500 \<and> (\<exists>e. SHA256_HashReader H f' = Err e)) \<or>
         (status_of w = 200 \<and> rw_body w = Encode (json_VerifyResponse (verifyResponseFrom (refuse ''file hash does not match proof''))) \<and>
          (\<exists>digest d. SHA256_HashReader H f' = Ok digest \<and> DeserializeDetachedBytes H (read_proof [] g) = Ok d \<and> digest \<noteq> FileDigest d)))"
        using assms(2) form
        by (cases "SHA256_HashReader H f'")
          (auto simp: postVerifyFile_def check_eq_Ok VerifyDetached_def v documented Let_def FileDigest_def response split: if_splits dest: vd)
      with form show ?thesis by blast
    qed (use assms(2) f in \<open>auto simp: postVerifyFile_def check_eq_Ok documented split: if_splits\<close>)
  qed (use assms(2) in \<open>auto simp: postVerifyFile_def check_eq_Ok documented split: if_splits\<close>)
qed

lemma postStampFile_documented:
  assumes "h_backend h = b" and "hash_sizes H" and "postStampFile H h r new_writer = Ok w"
  shows "answer_documented (docTemplate spec) ''POST /api/v1/stamp-file'' w"
proof -
  have ok: "merge_into H det t \<noteq> Err e" "merge_into H det t = Ok d \<Longrightarrow> df_SerializeBytes d \<noteq> Err e"
    if det: "FromReader H f = Ok det" and t: "rb_Stamp b (FileDigest det) = Ok t" for f det t d e
  proof -
    obtain digest where d: "SHA256_HashReader H f = Ok digest" and dt: "df_Timestamp det = Timestamp digest [] []"
      using det by (auto simp: FromReader_def andThen_eq_Ok NewDetached_def New_def split: if_splits)
    have "FileDigest det = digest" using dt by (simp add: FileDigest_def)
    then obtain r where r: "merge_into H det t = Ok r" "df_ok H r"
      using merge_into_ok [OF dt SHA256_HashReader_length [OF assms(2) d] Stamp_ok] t by blast
    show "merge_into H det t \<noteq> Err e" using r by simp
    show "df_SerializeBytes d \<noteq> Err e" if "merge_into H det t = Ok d"
      using that r detached_codec [of H r] by auto
  qed
  from assms(3) show ?thesis
    by (auto simp: postStampFile_def check_eq_Ok assms(1) ok documented documented_octets Let_def)
qed

end

section \<open>The routes\<close>

text \<open>
  The bodies of JSON requests, as their decoder returns them, and the handler that the multiplexer calls
  for an endpoint.
\<close>

record request_bodies =
  body_Create :: "CreateTimestampRequest result"
  body_Verify :: "VerifyRequest result"
  body_Upgrade :: "UpgradeRequest result"
  body_Parse :: "ParseProofRequest result"

fun relay_serve :: "hashes \<Rightarrow> Handler \<Rightarrow> endpoint \<Rightarrow> Request \<Rightarrow> request_bodies \<Rightarrow> ResponseWriter \<Rightarrow> ResponseWriter result" where
  "relay_serve H h EpDigest r body w = postDigest h r w"
| "relay_serve H h EpTimestamp r body w = getTimestamp h r w"
| "relay_serve H h EpCreate r body w = postCreateJSON h (body_Create body) w"
| "relay_serve H h EpVerify r body w = postVerifyJSON H h (body_Verify body) w"
| "relay_serve H h EpUpgrade r body w = postUpgradeJSON H h (body_Upgrade body) w"
| "relay_serve H h EpParse r body w = postParseProofJSON H (body_Parse body) w"
| "relay_serve H h EpStampFile r body w = postStampFile H h r w"
| "relay_serve H h EpVerifyFile r body w = postVerifyFile H h r w"
| "relay_serve H h EpStatus r body w = getStatus h w"
| "relay_serve H h EpHealth r body w = getHealth h w"

text \<open>
  C22. The relay keeps to its published description. The document lists exactly the routes that the relay
  registers, and under the version that the relay reports. Every answer of the relay over a pool has a status
  that the document lists for the route, and a JSON body of the schema given there, with three
  exceptions: \<^verbatim>\<open>/digest\<close> answers 502 when no calendar returns a proof, \<^verbatim>\<open>/api/v1/verify-file\<close> answers 500 when
  the uploaded file cannot be read, and it refuses a file that is not the one of the proof without the list of
  attestations. In particular no other request gets an internal server error.
\<close>

theorem relay_answers_documented:
  assumes "h_backend h = pool_backend H http p order" and "hash_sizes H"
    and "(route, ep) \<in> set Handler_Register" and "relay_serve H h ep r body new_writer = Ok w"
  shows "(fst ` set (docRoutes (docTemplate SwaggerInfo)) = fst ` set Handler_Register \<and>
     jv_path (docTemplate SwaggerInfo) [''info'', ''version''] = Some (JvText relay_version)) \<and>
    (answer_documented (docTemplate SwaggerInfo) route w \<or>
     (ep = EpDigest \<and> status_of w = 502 \<and>
      (\<exists>digest e. ReadAll_limited 65 [] (q_Body r) = Ok digest \<and> Pool_Stamp H http p order digest = Err e)) \<or>
     (ep = EpVerifyFile \<and> (\<exists>name f name' g. FormFile maxUploadBytes r ''file'' = Ok (name, f) \<and> FormFile maxUploadBytes r ''ots'' = Ok (name', g) \<and>
       ((status_of w = 500 \<and> (\<exists>e. SHA256_HashReader H f = Err e)) \<or>
        (status_of w = 200 \<and> rw_body w = Encode (json_VerifyResponse (verifyResponseFrom (refuse ''file hash does not match proof''))) \<and>
         (\<exists>digest d. SHA256_HashReader H f = Ok digest \<and> DeserializeDetachedBytes H (read_proof [] g) = Ok d \<and> digest \<noteq> FileDigest d))))))"
    (is "?routes \<and> ?answers")
proof
  show "?routes"
    by (rule conjI, force simp: docRoutes_eq Handler_Register_def) (simp add: docTemplate_def SwaggerInfo_def relay_version_def)
  have b: "rb_Stamp (pool_backend H http p order) = Pool_Stamp H http p order" by (simp add: pool_backend_def)
  note d = pool_relay.postVerifyJSON_documented [OF assms(1)] pool_relay.postUpgradeJSON_documented [OF assms(1)]
    pool_relay.postCreateJSON_documented [OF assms(1)] pool_relay.getTimestamp_documented [OF assms(1)]
    pool_relay.postStampFile_documented [OF assms(1,2)] getHealth_documented getStatus_documented postParseProofJSON_documented
  show "?answers"
  proof (cases ep)
    case EpDigest
    with assms(3,4) pool_relay.postDigest_documented [OF assms(1), of r w SwaggerInfo] show ?thesis
      by (auto simp: Handler_Register_def b)
  next
    case EpVerifyFile
    with assms(3) have "route = ''POST /api/v1/verify-file''" by (auto simp: Handler_Register_def)
    with EpVerifyFile assms(4) pool_relay.postVerifyFile_documented [OF assms(1), of r w SwaggerInfo] show ?thesis by simp
  qed (use assms(3,4) d in \<open>auto simp: Handler_Register_def\<close>)
qed

definition no_bodies :: request_bodies where
  "no_bodies = \<lparr>body_Create = Err (ErrorString ''EOF''), body_Verify = Err (ErrorString ''EOF''), body_Upgrade = Err (ErrorString ''EOF''), body_Parse = Err (ErrorString ''EOF'')\<rparr>"

theorem relay_answers_documented_witness:
  "\<exists>w. relay_serve const_hashes sample_handler EpStampFile (sample_request []) no_bodies new_writer = Ok w \<and>
     answer_documented (docTemplate SwaggerInfo) ''POST /api/v1/stamp-file'' w"
proof -
  have f: "FormFile maxUploadBytes (sample_request []) ''file'' = Ok (''a.txt'', [([9], Some EOF)])"
    by (simp add: FormFile_def sample_request_def maxUploadBytes_def)
  have d: "SHA256_HashReader const_hashes [([9], Some EOF)] = Ok (replicate 32 7)"
    by (simp add: SHA256_HashReader_def const_hashes_def)
  have t: "rb_Stamp (pool_backend const_hashes sample_http sample_pool [''https://a'']) (replicate 32 7) = Ok sample_confirmed"
    using sample_stamp by (simp add: pool_backend_def)
  obtain w where w: "postStampFile const_hashes sample_handler (sample_request []) new_writer = Ok w"
    using pool_relay.postStampFile_outcome [OF sample_backend_sel(1) hash_sizes_const f d t] by blast
  have "(''POST /api/v1/stamp-file'', EpStampFile) \<in> set Handler_Register" by (simp add: Handler_Register_def)
  from relay_answers_documented [OF sample_backend_sel(1) hash_sizes_const this, of "sample_request []" no_bodies w] w show ?thesis by simp
qed

text \<open>
  C39. A refusal outside the document. When the uploaded file is not the one that the proof is for,
  \<^verbatim>\<open>/api/v1/verify-file\<close> answers 200 with a body whose field \<open>attestations\<close> is null, while the document
  gives that answer a schema in which the field is an array: the body does not conform to it.
\<close>

theorem verify_file_mismatch_undocumented:
  assumes "FormFile maxUploadBytes r ''file'' = Ok (name, f)" and "FormFile maxUploadBytes r ''ots'' = Ok (name', g)"
    and "SHA256_HashReader H f = Ok digest" and "length (read_proof [] g) \<le> maxProofBytes"
    and "DeserializeDetachedBytes H (read_proof [] g) = Ok d" and "digest \<noteq> FileDigest d"
  shows "\<exists>w v schema. postVerifyFile H h r new_writer = Ok w \<and> status_of w = 200 \<and> rw_body w = Encode v \<and>
    jv_field ''valid'' v = Some (JvBool False) \<and> jv_field ''attestations'' v = Some JvNull \<and>
    docAnswer (docTemplate SwaggerInfo) ''POST /api/v1/verify-file'' 200 = Some schema \<and>
    \<not> conforms (docTemplate SwaggerInfo) (Some schema) v"
proof -
  let ?v = "json_VerifyResponse (verifyResponseFrom (refuse ''file hash does not match proof''))"
  have "postVerifyFile H h r new_writer = Ok (writeJSON 200 ?v new_writer)"
    using assms by (simp add: postVerifyFile_def VerifyDetached_def FileDigest_def Let_def)
  moreover have "jv_field ''valid'' ?v = Some (JvBool False)" "jv_field ''attestations'' ?v = Some JvNull"
    by (simp_all add: json_VerifyResponse_def verifyResponseFrom_eq refuse_def zero_Result_def omitempty_def jv_slice_def)
  moreover have "\<not> conforms (docTemplate SwaggerInfo) (Some (ref ''VerifyResponse'')) ?v"
    by (simp add: conforms_VerifyResponse verifyResponseFrom_eq refuse_def zero_Result_def)
  moreover have "status_of (writeJSON 200 ?v new_writer) = 200" "rw_body (writeJSON 200 ?v new_writer) = Encode ?v"
    by (simp_all add: response)
  ultimately show ?thesis using docAnswers(19) [of SwaggerInfo] by blast
qed

definition other_file :: bytes where
  "other_file = HeaderMagic @ [MajorVersion, 0x08] @ replicate 32 8 @ ts_enc (Timestamp (replicate 32 8) [BitcoinBlockHeaderAttestation 5] [])"

theorem verify_file_mismatch_undocumented_witness:
  "\<exists>w v. postVerifyFile const_hashes sample_handler (sample_request other_file) new_writer = Ok w \<and> status_of w = 200 \<and>
     rw_body w = Encode v \<and> jv_field ''attestations'' v = Some JvNull"
proof -
  have f: "FormFile maxUploadBytes (sample_request other_file) ''file'' = Ok (''a.txt'', [([9], Some EOF)])"
    "FormFile maxUploadBytes (sample_request other_file) ''ots'' = Ok (''a.ots'', [(other_file, Some EOF)])"
    by (simp_all add: FormFile_def sample_request_def maxUploadBytes_def)
  have d: "SHA256_HashReader const_hashes [([9], Some EOF)] = Ok (replicate 32 7)"
    by (simp add: SHA256_HashReader_def const_hashes_def)
  have "length other_file < 200" "maxProofBytes > 200" by (code_simp, simp add: maxProofBytes_def)
  have
    "DeserializeDetachedBytes const_hashes other_file = Ok \<lparr>df_Timestamp = Timestamp (replicate 32 8) [BitcoinBlockHeaderAttestation 5] []\<rparr>"
    by code_simp
  with \<open>length other_file < 200\<close> \<open>maxProofBytes > 200\<close> have o: "length (read_proof [] [(other_file, Some EOF)]) \<le> maxProofBytes"
    "DeserializeDetachedBytes const_hashes (read_proof [] [(other_file, Some EOF)]) =
       Ok \<lparr>df_Timestamp = Timestamp (replicate 32 8) [BitcoinBlockHeaderAttestation 5] []\<rparr>"
    by simp_all
  from verify_file_mismatch_undocumented [OF f d o, of sample_handler] show ?thesis by (auto simp: FileDigest_def)
qed

end
