(* ===== verification/Decode_Bounds.thy ===== *)
theory Decode_Bounds
  imports Relay_Server
begin

text \<open>
  What decoding can cost: the number of items of a decoded timestamp and the bytes of all its messages, in
  terms of the bytes read, and what follows for the answers and uploads that the programs accept.
\<close>

section \<open>Sizes\<close>

text \<open>The attestations and operations of a timestamp, and the bytes of the messages it holds.\<close>

fun ts_items :: "Timestamp \<Rightarrow> nat" where
  "ts_items (Timestamp m atts ops) = length atts + sum_list (map (\<lambda>(x, s). Suc (ts_items s)) ops)"

fun ts_bytes :: "Timestamp \<Rightarrow> nat" where
  "ts_bytes (Timestamp m atts ops) = length m + sum_list (map (\<lambda>(x, s). ts_bytes s) ops)"

lemma items_New: "New m = Ok t \<Longrightarrow> ts_items t = 0"
  by (auto simp: New_def split: if_splits)

lemma items_add:
  "ts_items (Timestamp m (as @ [a]) ops) = Suc (ts_items (Timestamp m as ops))"
  "ts_items (Timestamp m as (ops @ [(x, s)])) = ts_items (Timestamp m as ops) + Suc (ts_items s)"
  by simp_all

text \<open>Each item takes at least a byte of the input.\<close>

lemma decode_consumes:
  "ts_Deserialize H c m d = Ok (t, c') \<Longrightarrow> ts_items t + length c' \<le> length c"
  "Deserialize_loop H c m d t0 tag = Ok (t, c') \<Longrightarrow> ts_items t + length c' \<le> ts_items t0 + Suc (length c)"
  "readItem H c m d t0 tag = Ok (t, c') \<Longrightarrow> ts_items t + length c' \<le> ts_items t0 + Suc (length c)"
proof (induction H c m d and H c m d t0 tag and H c m d t0 tag arbitrary: t c' and t c' and t c'
    rule: ts_Deserialize_Deserialize_loop_readItem.induct)
  case (1 H c m d)
  from "1.prems" obtain t0 tag c1 where d: "d \<noteq> 0" "New m = Ok t0" "ReadUint8 c = Ok (tag, c1)"
    and l: "Deserialize_loop H c1 m (d - 1) t0 tag = Ok (t, c')"
    by (auto simp: ts_Deserialize.simps andThen_eq_Ok split: if_splits)
  from "1.IH" [OF d(1,2,3) refl l] items_New [OF d(2)] ReadUint8_OkD [OF d(3)] show ?case by simp
next
  case (2 H c m d t0 tag)
  show ?case
  proof (cases "tag = 0xff")
    case True
    with "2.prems" obtain n c1 t1 c2 g c3 where c: "ReadUint8 c = Ok (n, c1)"
      "readItem H c1 m d t0 n = Ok (t1, c2)" "ReadUint8 c2 = Ok (g, c3)"
      and l: "Deserialize_loop H c3 m d t1 g = Ok (t, c')"
      by (subst (asm) Deserialize_loop.simps) (auto simp: andThen_eq_Ok)
    from "2.IH"(1) [OF True c(1) refl c(2)] "2.IH"(2) [OF True c(1) refl c(2) refl c(3) refl l]
      ReadUint8_OkD [OF c(1)] ReadUint8_OkD [OF c(3)] show ?thesis by simp
  next
    case False
    with "2.prems" "2.IH"(3) [OF False] show ?thesis by (simp add: Deserialize_loop.simps)
  qed
next
  case (3 H c m d t0 tag)
  obtain m0 as ops where t0: "t0 = Timestamp m0 as ops" by (cases t0)
  show ?case
  proof (cases "tag = 0")
    case True
    with "3.prems" obtain a where a: "notary_Deserialize c = Ok (a, c')" "t = Timestamp m0 (as @ [a]) ops"
      by (auto simp: readItem.simps andThen_eq_Ok t0)
    then show ?thesis using notary_Deserialize_OkD [OF a(1)] by (simp add: t0)
  next
    case False
    with "3.prems" obtain x c1 r s where x: "DeserializeFromTag c tag = Ok (x, c1)"
      and r: "op_Apply H x m = Ok r" and s: "ts_Deserialize H c1 r d = Ok (s, c')"
      and t: "t = Timestamp m0 as (ops @ [(x, s)])"
      by (auto simp: readItem.simps andThen_eq_Ok case_result_eq_Ok t0)
    from "3.IH" [OF False x refl r s] DeserializeFromTag_OkD [OF x] show ?thesis by (simp add: t t0)
  qed
qed

lemma ts_bytes_le: "linked H t \<Longrightarrow> ts_bytes t \<le> MaxMsgLength * Suc (ts_items t)"
proof (induction t rule: Timestamp_induct)
  case (Timestamp m atts ops)
  have "sum_list (map (\<lambda>(x, s). ts_bytes s) ops) \<le> sum_list (map (\<lambda>(x, s). MaxMsgLength * Suc (ts_items s)) ops)"
    using Timestamp linked_child [OF Timestamp.prems] by (intro sum_list_mono) auto
  also have "\<dots> = MaxMsgLength * sum_list (map (\<lambda>(x, s). Suc (ts_items s)) ops)"
    by (induction ops) (auto simp: distrib_left)
  finally have "sum_list (map (\<lambda>(x, s). ts_bytes s) ops) \<le> MaxMsgLength * sum_list (map (\<lambda>(x, s). Suc (ts_items s)) ops)" .
  moreover have "length m \<le> MaxMsgLength" using Timestamp.prems by simp
  ultimately have "ts_bytes (Timestamp m atts ops) \<le> MaxMsgLength + MaxMsgLength * sum_list (map (\<lambda>(x, s). Suc (ts_items s)) ops)"
    by simp
  also have "\<dots> \<le> MaxMsgLength * Suc (ts_items (Timestamp m atts ops))" by simp
  finally show ?case .
qed

lemma decode_size:
  assumes "ts_DeserializeBytes H bs m = Ok t"
  shows "ts_items t \<le> length bs \<and> ts_bytes t \<le> MaxMsgLength * Suc (length bs)"
proof -
  from assms obtain c' where d: "ts_Deserialize H bs m recursionLimit = Ok (t, c')"
    by (auto simp: ts_DeserializeBytes_def andThen_eq_Ok NewContext_def)
  have n: "ts_items t \<le> length bs" using decode_consumes(1) [OF d] by simp
  have "ts_bytes t \<le> MaxMsgLength * Suc (ts_items t)" by (rule ts_bytes_le [OF ts_Deserialize_OkD(1) [OF d, THEN conjunct1]])
  also have "\<dots> \<le> MaxMsgLength * Suc (length bs)" using n by (intro mult_le_mono2) simp
  finally show ?thesis using n by simp
qed

lemma decode_detached_size:
  assumes "DeserializeDetachedBytes H bs = Ok det"
  shows "ts_items (df_Timestamp det) \<le> length bs"
proof -
  from assms obtain c1 g c2 x c3 digest c4 c5 where "AssertMagic bs HeaderMagic = Ok c1" "ReadUint8 c1 = Ok (g, c2)"
      "op_Deserialize c2 = Ok (x, c3)" "ReadBytes c3 (int SHA256_DigestLength) = Ok (digest, c4)"
    and d: "ts_Deserialize H c4 digest recursionLimit = Ok (df_Timestamp det, c5)"
    by (auto simp: DeserializeDetachedBytes_def DeserializeDetached_def NewContext_def NewDetached_def andThen_eq_Ok split: if_splits)
  then have "length c4 \<le> length c3" "length c3 \<le> length c2" "length c2 \<le> length c1" "length c1 \<le> length bs"
    by (auto simp: AssertMagic_def op_Deserialize_def andThen_eq_Ok split: result.splits if_splits
        dest!: ReadUint8_OkD ReadBytes_OkD DeserializeFromTag_OkD)
  with decode_consumes(1) [OF d] show ?thesis by simp
qed

lemma answer_size:
  assumes "ReadAll_limited maxResponse [] r = Ok body" and "ts_DeserializeBytes H body m = Ok t"
  shows "ts_items t \<le> maxResponse \<and> ts_bytes t \<le> MaxMsgLength * Suc maxResponse"
proof -
  have "length body \<le> maxResponse" using ReadAll_limited_length [OF assms(1)] by simp
  with decode_size [OF assms(2)] show ?thesis by (meson Suc_le_mono le_trans mult_le_mono2)
qed

section \<open>Properties\<close>

text \<open>
  C26. Decoding is linear in the input: an accepted timestamp has at most as many attestations and operations as
  the input has bytes, its nesting is at most 256 and all its messages together take at most 4096 bytes per byte
  of the input and for the root. So the answer of a calendar, however long, yields at most 10000 items and
  about 41 MB; detached files are bounded in the same way.
\<close>

theorem decode_bounds:
  "(ts_DeserializeBytes H bs m = Ok t \<longrightarrow>
      ts_items t \<le> length bs \<and> ts_depth t \<le> 256 \<and> ts_bytes t \<le> 4096 * Suc (length bs)) \<and>
   (DeserializeDetachedBytes H bs = Ok det \<longrightarrow> ts_items (df_Timestamp det) \<le> length bs) \<and>
   (Client_Submit H http cl k digest = Ok t \<or> Client_GetTimestamp H http cl k uri c = Ok t \<longrightarrow>
      ts_items t \<le> 10000 \<and> ts_bytes t \<le> 40964096)"
proof (intro conjI impI)
  assume d: "ts_DeserializeBytes H bs m = Ok t"
  show "ts_items t \<le> length bs" "ts_bytes t \<le> 4096 * Suc (length bs)" using decode_size [OF d] by (simp_all add: MaxMsgLength_def)
  show "ts_depth t \<le> 256"
    using d ts_DeserializeBytes_ok [OF d] by (simp add: stamp_ok_def recursionLimit_def)
next
  show "ts_items (df_Timestamp det) \<le> length bs" if "DeserializeDetachedBytes H bs = Ok det" by (rule decode_detached_size [OF that])
next
  assume "Client_Submit H http cl k digest = Ok t \<or> Client_GetTimestamp H http cl k uri c = Ok t"
  then obtain r body msg where "ReadAll_limited maxResponse [] r = Ok body" "ts_DeserializeBytes H body msg = Ok t"
    by (auto simp: Client_Submit_def Client_GetTimestamp_def andThen_eq_Ok split: if_splits)
  from answer_size [OF this] show "ts_items t \<le> 10000" "ts_bytes t \<le> 40964096" by (simp_all add: maxResponse_def MaxMsgLength_def)
qed

theorem decode_bounds_witness:
  "\<exists>t. ts_DeserializeBytes const_hashes ([0x00] @ att_Serialize [] (BitcoinBlockHeaderAttestation 5)) [9] = Ok t \<and> ts_items t \<le> 11"
proof -
  let ?bs = "[0x00] @ att_Serialize [] (BitcoinBlockHeaderAttestation 5)"
  have d: "ts_DeserializeBytes const_hashes ?bs [9] = Ok (Timestamp [9] [BitcoinBlockHeaderAttestation 5] [])"
    using notary_Deserialize_enc [of "BitcoinBlockHeaderAttestation 5" "[]"]
    by (simp add: ts_DeserializeBytes_def recursionLimit_def ts_Deserialize.simps Deserialize_loop.simps
        readItem.simps New_def MaxMsgLength_def NewContext_def)
  have "length ?bs = 11" by code_simp
  with decode_bounds [THEN conjunct1, rule_format, OF d] d show ?thesis by (intro exI) auto
qed

end
