(* ===== verification/Anchoring.thy ===== *)
theory Anchoring
  imports Stamper_History
begin

text \<open>
  Towards the progress of the stamper: the parts of a tick, what it means that the node broadcasts a message and
  later confirms its transaction, and the tick that moves the pool into a transaction.
\<close>

section \<open>A tick in parts\<close>

lemma maybeSendTx_store: "sm_store (fst (maybeSendTx H w k s)) = sm_store s"
  by (auto simp: maybeSendTx_def Let_def split: result.split option.split prod.split)

lemma step_parts:
  assumes "ingestJournal s = (s1, Ok ())" and "trackConfirmations H w s1 = (s2, Ok ())"
  shows "stamper_step H w s = maybeSendTx H w (length (sm_unconfirmed s1)) s2"
  using assms by (simp add: stamper_step_def)

lemma ingest_parts:
  assumes "journal_of (sm_journal s) rs" and "unat (sm_cursor s) \<le> length rs"
  shows "\<exists>s'. ingestJournal s = (s', Ok ()) \<and> sm_journal s' = sm_journal s \<and> sm_cfg s' = sm_cfg s \<and> sm_store s' = sm_store s \<and>
    sm_unconfirmed s' = sm_unconfirmed s \<and> set (sm_pending s) \<subseteq> set (sm_pending s') \<and>
    set (sm_pending s') \<subseteq> set (sm_pending s) \<union> set (drop (unat (sm_cursor s)) rs) \<and> (distinct (sm_pending s) \<longrightarrow> distinct (sm_pending s')) \<and>
    unat (sm_cursor s') \<le> length rs"
proof -
  from ingest_loop_reads [OF assms refl] obtain s' where
    s': "ingest_loop (Len (sm_journal s)) s = (s', Ok ())" "sm_journal s' = sm_journal s" "sm_cfg s' = sm_cfg s" "sm_store s' = sm_store s"
      "sm_unconfirmed s' = sm_unconfirmed s" "unat (sm_cursor s') \<le> length rs"
      "set (sm_pending s') = set (sm_pending s) \<union> {rs ! i | i. unat (sm_cursor s) \<le> i \<and> i < unat (sm_cursor s')}"
      "distinct (sm_pending s) \<longrightarrow> distinct (sm_pending s')" by blast
  have "rs ! i \<in> set (drop (unat (sm_cursor s)) rs)" if "unat (sm_cursor s) \<le> i" "i < unat (sm_cursor s')" for i
  proof -
    have "drop (unat (sm_cursor s)) rs ! (i - unat (sm_cursor s)) = rs ! i" using that assms(2) by simp
    moreover have "i - unat (sm_cursor s) < length (drop (unat (sm_cursor s)) rs)" using that s'(6) by simp
    ultimately show ?thesis by (metis nth_mem)
  qed
  with s' show ?thesis by (auto simp: ingestJournal_def)
qed

lemma ingest_lastTx: "sm_lastTxTime (fst (ingestJournal s)) = sm_lastTxTime s"
proof -
  have "sm_lastTxTime (fst (ingest_loop n s)) = sm_lastTxTime s" for n
    by (induction n s rule: ingest_loop.induct) (subst ingest_loop.simps, auto split: result.split)
  then show ?thesis by (simp add: ingestJournal_def)
qed

section \<open>Confirmation\<close>

text \<open>The node reports the transaction with enough confirmations, in a block that contains it and whose header matches.\<close>

definition confirms :: "hashes \<Rightarrow> Backend \<Rightarrow> int \<Rightarrow> bytes \<Rightarrow> int \<Rightarrow> BlockHeader \<Rightarrow> nat \<Rightarrow> bool" where
  "confirms H btc minConf txid height header n \<longleftrightarrow>
     (\<exists>conf bh txids. be_TxStatus btc txid = Ok \<lparr>tx_Confirmations = conf, tx_BlockHash = Some bh\<rparr> \<and> 0 \<le> conf \<and> minConf \<le> conf \<and>
        be_BlockTxIDs btc bh = Ok (height, txids) \<and> txid \<in> set txids \<and> (\<forall>t \<in> set txids. length t = 32) \<and> length txids = n \<and>
        be_BlockHeader btc (word_of_int height) = Ok header \<and> bh_MerkleRoot header = block_root H txids)"

lemma index_of_mem: "x \<in> set xs \<Longrightarrow> \<exists>i. index_of x xs = Some i"
  by (induction x xs rule: index_of.induct) auto

text \<open>A transaction that carries the data in one place and is not too long.\<close>

definition carries :: "bytes \<Rightarrow> bytes \<Rightarrow> bool" where
  "carries tx data \<longleftrightarrow> (\<exists>j. bytes_Index tx data = Some j \<and> bytes_Index (drop (j + 1) tx) data = None) \<and> length tx \<le> MaxMsgLength"

section \<open>A tick that sends\<close>

text \<open>The node broadcasts the data and answers with a transaction that carries it.\<close>

definition broadcasts :: "hashes \<Rightarrow> 'tx world \<Rightarrow> nat \<Rightarrow> bytes \<Rightarrow> int \<Rightarrow> bytes \<Rightarrow> bool" where
  "broadcasts H w k data maxFee tx \<longleftrightarrow>
     (\<exists>raw. be_SendOpReturn (w_btc w k) data maxFee = Ok (sha256d H tx, raw) \<and>
        StripWitness (w_tx_Deserialize w) (w_tx_SerializeNoWitness w) raw = Ok tx) \<and> carries tx data"

lemma tick_sends:
  assumes H: "hash_sizes H" and p: "pool_ok s" and un: "sm_unconfirmed s = []" and j: "journal_of (sm_journal s) rs"
    and cur: "unat (sm_cursor s) \<le> length rs" and w: "world_ok w" and due: "due w s" and ne: "sm_pending s \<noteq> []"
    and ing: "ingestJournal s = (s0, r0)" and pool: "cs = w_order w 0 (sm_pending s0)"
    and node: "broadcasts H w 0 (merkle_root H (map (sha256_Sum256 H) cs)) (sc_MaxFee (sm_cfg s)) tx"
  shows "\<exists>s' utx. stamper_step H w s = (s', Ok ()) \<and> set (sm_pending s) \<subseteq> set cs \<and> set cs \<subseteq> set (sm_pending s) \<union> set rs \<and>
    sm_pending s' = [] \<and> sm_unconfirmed s' = [utx] \<and> sm_cfg s' = sm_cfg s \<and> unat (sm_cursor s') \<le> length rs \<and>
    u_txid utx = sha256d H tx \<and> u_rawTx utx = tx \<and> map fst (u_leaves utx) = cs \<and>
    n_Msg (u_heap utx ! u_tip utx) = merkle_root H (map (sha256_Sum256 H) cs) \<and> anchored H utx"
proof -
  from ingest_parts [OF j cur] ing have s0: "r0 = Ok ()" "sm_cfg s0 = sm_cfg s" "sm_unconfirmed s0 = []" "set (sm_pending s) \<subseteq> set (sm_pending s0)"
    "set (sm_pending s0) \<subseteq> set (sm_pending s) \<union> set rs" "distinct (sm_pending s) \<longrightarrow> distinct (sm_pending s0)" "unat (sm_cursor s0) \<le> length rs"
    using un by (auto dest: in_set_dropD)
  have last: "sm_lastTxTime s0 = sm_lastTxTime s" using ing ingest_lastTx [of s] by (simp add: prod_eq_iff)
  have track: "trackConfirmations H w s0 = (s0, Ok ())" using s0(3) by (simp add: trackConfirmations_def)
  have step: "stamper_step H w s = maybeSendTx H w 0 s0" using step_parts [of s s0 H w s0] ing s0(1,3) track by simp
  have ord: "mset cs = mset (sm_pending s0)" using w pool by (simp add: world_ok_def)
  have ne0: "sm_pending s0 \<noteq> []" using s0(4) ne by (cases "sm_pending s") auto
  have d: "distinct (sm_pending s0)" using p s0(6) by (simp add: pool_ok_def)
  have len: "\<forall>c \<in> set (sm_pending s0). length c = JournalRecordSize"
    using s0(5) p journal_records [OF j] by (auto simp: pool_ok_def waiting_in_def)
  have due0: "due w s0" using due last s0(2) by (simp add: due_def)
  from node obtain raw where raw: "be_SendOpReturn (w_btc w 0) (merkle_root H (map (sha256_Sum256 H) cs)) (sc_MaxFee (sm_cfg s0)) = Ok (sha256d H tx, raw)"
    "StripWitness (w_tx_Deserialize w) (w_tx_SerializeNoWitness w) raw = Ok tx" by (auto simp: broadcasts_def s0(2))
  from maybeSendTx_outcome [OF H ne0 d len ord [unfolded pool] due0 refl refl] raw
  obtain utx where u: "maybeSendTx H w 0 s0 = (s0\<lparr>sm_pending := [], sm_unconfirmed := sm_unconfirmed s0 @ [utx], sm_lastTxTime := Some (w_lastTx w)\<rparr>, Ok ())"
    "u_txid utx = sha256d H tx" "u_rawTx utx = tx" "map fst (u_leaves utx) = cs"
    "n_Msg (u_heap utx ! u_tip utx) = merkle_root H (map (sha256_Sum256 H) cs)" "anchored H utx"
    unfolding pool by auto
  have "set cs = set (sm_pending s0)" using ord by (rule mset_eq_setD)
  with u s0 step show ?thesis by simp
qed

end
