(* ===== verification/Anchoring_Runs.thy ===== *)
theory Anchoring_Runs
  imports Anchoring
begin

text \<open>
  The stamper with several transactions under way: what a tick does with each of them while the node answers
  honestly and the store accepts writes, and that each is confirmed whatever happens to the others.
\<close>

section \<open>An honest node\<close>

text \<open>A transaction as \<open>maybeSendTx\<close> records it: the objects lead to its tip, and its bytes carry the message of the tip.\<close>

definition under_way :: "hashes \<Rightarrow> unconfirmedTx \<Rightarrow> bool" where
  "under_way H u \<longleftrightarrow> anchored H u \<and> u_txid u = sha256d H (u_rawTx u) \<and> carries (u_rawTx u) (n_Msg (u_heap u ! u_tip u))"

text \<open>
  A node is honest about a transaction if the calls return and, when it reports the transaction in a block, what it
  tells of this block is consistent; the proof must stay within the recursion limit.
\<close>

definition answers_honestly :: "hashes \<Rightarrow> Backend \<Rightarrow> unconfirmedTx \<Rightarrow> bool" where
  "answers_honestly H btc u \<longleftrightarrow> \<not> is_panic (be_TxStatus btc (u_txid u)) \<and>
     (\<forall>conf bh. be_TxStatus btc (u_txid u) = Ok \<lparr>tx_Confirmations = conf, tx_BlockHash = Some bh\<rparr> \<longrightarrow>
        \<not> is_panic (be_BlockTxIDs btc bh) \<and>
        (\<forall>height txids. be_BlockTxIDs btc bh = Ok (height, txids) \<longrightarrow>
           \<not> is_panic (be_BlockHeader btc (word_of_int height)) \<and>
           (\<forall>header. be_BlockHeader btc (word_of_int height) = Ok header \<longrightarrow>
              bh_MerkleRoot header = block_root H txids \<and> (\<forall>t \<in> set txids. length t = 32) \<and>
              2 * levels (length (u_leaves u)) + 3 * levels (length txids) + 6 \<le> recursionLimit)))"

text \<open>
  It is honest about a message it is asked to send if, when it answers with a transaction, this is the transaction of the
  answered id and carries the message in one place.
\<close>

definition sends_honestly :: "hashes \<Rightarrow> 'tx world \<Rightarrow> nat \<Rightarrow> bytes \<Rightarrow> int \<Rightarrow> bool" where
  "sends_honestly H w k data maxFee \<longleftrightarrow> \<not> is_panic (be_SendOpReturn (w_btc w k) data maxFee) \<and>
     (\<forall>txid raw. be_SendOpReturn (w_btc w k) data maxFee = Ok (txid, raw) \<longrightarrow>
        \<not> is_panic (StripWitness (w_tx_Deserialize w) (w_tx_SerializeNoWitness w) raw) \<and>
        (\<forall>tx. StripWitness (w_tx_Deserialize w) (w_tx_SerializeNoWitness w) raw = Ok tx \<longrightarrow> txid = sha256d H tx \<and> carries tx data))"

text \<open>The message of a tick that comes to sending in the state \<open>s2\<close>: the merkle root of the pool.\<close>

definition tick_data :: "hashes \<Rightarrow> 'tx world \<Rightarrow> nat \<Rightarrow> 's Stamper \<Rightarrow> bytes" where
  "tick_data H w k s2 = merkle_root H (map (sha256_Sum256 H) (w_order w k (sm_pending s2)))"

text \<open>A node that is honest at a tick, about the transactions under way and about the message of this tick, if it sends one.\<close>

definition honest_node :: "hashes \<Rightarrow> 'tx world \<Rightarrow> 's Stamper \<Rightarrow> bool" where
  "honest_node H w s \<longleftrightarrow>
     (\<forall>k < length (sm_unconfirmed s). answers_honestly H (w_btc w k) (sm_unconfirmed s ! k)) \<and>
     (\<forall>s1 s2. ingestJournal s = (s1, Ok ()) \<and> trackConfirmations H w s1 = (s2, Ok ()) \<and> due w s2 \<and> sm_pending s2 \<noteq> [] \<longrightarrow>
        sends_honestly H w (length (sm_unconfirmed s)) (tick_data H w (length (sm_unconfirmed s)) s2) (sc_MaxFee (sm_cfg s)))"

text \<open>
  The store takes the proofs of a tick: those that \<open>finalize\<close> puts for the transactions that the node reports with enough
  confirmations, one after the other. Nothing is asked of other keys or values.
\<close>

fun store_takes :: "hashes \<Rightarrow> 'tx world \<Rightarrow> nat \<Rightarrow> unconfirmedTx list \<Rightarrow> 's Stamper \<Rightarrow> bool" where
  "store_takes H w k [] s = True"
| "store_takes H w k (u # us) s =
     ((\<forall>conf bh. be_TxStatus (w_btc w k) (u_txid u) = Ok \<lparr>tx_Confirmations = conf, tx_BlockHash = Some bh\<rparr> \<and>
         0 \<le> conf \<and> sc_MinConfirmations (sm_cfg s) \<le> conf \<longrightarrow> puts_taken H (w_btc w k) (w_order w k) s u bh) \<and>
      store_takes H w (Suc k) us (fst (track_loop H w k [u] s)))"

definition takes_tick :: "hashes \<Rightarrow> 'tx world \<Rightarrow> 's Stamper \<Rightarrow> bool" where
  "takes_tick H w s \<longleftrightarrow> (\<forall>s1. ingestJournal s = (s1, Ok ()) \<longrightarrow> store_takes H w 0 (sm_unconfirmed s1) s1)"

text \<open>The node has not decided about the transaction: it cannot answer, or reports too few confirmations or no block.\<close>

definition undecided :: "Backend \<Rightarrow> int \<Rightarrow> bytes \<Rightarrow> bool" where
  "undecided btc minConf txid \<longleftrightarrow>
     (case be_TxStatus btc txid of
        Panic p \<Rightarrow> False
      | Err e \<Rightarrow> True
      | Ok st \<Rightarrow> 0 \<le> tx_Confirmations st \<and> (tx_Confirmations st < minConf \<or> tx_BlockHash st = None))"

text \<open>The store holds a proof of the commitment with a Bitcoin attestation.\<close>

definition completed :: "('s \<Rightarrow> bytes \<rightharpoonup> (bytes \<times> attestation) set) \<Rightarrow> 's \<Rightarrow> bytes \<Rightarrow> bool" where
  "completed held x c \<longleftrightarrow> (\<exists>A m height. held x c = Some A \<and> (m, BitcoinBlockHeaderAttestation height) \<in> A)"

section \<open>A tick under an honest node\<close>

lemma finalize_honest:
  assumes st: "storage H I held put get has" and H: "hash_sizes H" and u: "under_way H u"
    and store: "sm_store s = storage_of put get has x" "I x" and ord: "mset (ord (map fst (u_leaves u))) = mset (map fst (u_leaves u))"
    and puts: "puts_taken H btc ord s u bh"
    and hon: "answers_honestly H btc u" and status: "be_TxStatus btc (u_txid u) = Ok \<lparr>tx_Confirmations = conf, tx_BlockHash = Some bh\<rparr>"
    and conf: "0 \<le> conf" "minConf \<le> conf"
  obtains (later) e where "finalize H btc ord s u bh = (s, u, Err e)" "\<And>height header n. \<not> confirms H btc minConf (u_txid u) height header n"
    | (final) x' u' where "finalize H btc ord s u bh = (s\<lparr>sm_store := storage_of put get has x'\<rparr>, u', Ok ())" "I x'"
        "\<forall>c \<in> fst ` set (u_leaves u). completed held x' c" "\<forall>c. completed held x c \<longrightarrow> completed held x' c"
proof -
  have none: "\<not> confirms H btc minConf (u_txid u) height header n"
    if "\<And>height txids i header. be_BlockTxIDs btc bh = Ok (height, txids) \<Longrightarrow> index_of (u_txid u) txids = Some i \<Longrightarrow>
      be_BlockHeader btc (word_of_int height) \<noteq> Ok header" for height header n
    using that status by (auto simp: confirms_def dest: index_of_mem)
  have h: "\<not> is_panic (be_BlockTxIDs btc bh)"
    "be_BlockTxIDs btc bh = Ok (height, txids) \<Longrightarrow> \<not> is_panic (be_BlockHeader btc (word_of_int height))"
    "be_BlockTxIDs btc bh = Ok (height, txids) \<Longrightarrow> be_BlockHeader btc (word_of_int height) = Ok header \<Longrightarrow>
       bh_MerkleRoot header = block_root H txids \<and> (\<forall>t \<in> set txids. length t = 32) \<and>
       2 * levels (length (u_leaves u)) + 3 * levels (length txids) + 6 \<le> recursionLimit" for height txids header
    using hon status by (auto simp: answers_honestly_def)
  show ?thesis
  proof (cases "be_BlockTxIDs btc bh")
    case (Err e)
    then show ?thesis using later none by (simp add: finalize_def)
  next
    case (Ok b)
    obtain height txids where b: "be_BlockTxIDs btc bh = Ok (height, txids)" using Ok by (cases b) simp
    show ?thesis
    proof (cases "index_of (u_txid u) txids")
      case None
      then show ?thesis using later none b by (simp add: finalize_def)
    next
      case (Some i)
      show ?thesis
      proof (cases "be_BlockHeader btc (word_of_int height)")
        case (Err e)
        then have "\<not> confirms H btc minConf (u_txid u) height' header' n" for height' header' n
          by (intro none) (use b in auto)
        then show ?thesis using later b Some Err by (simp add: finalize_def)
      next
        case header: (Ok header)
        note hh = h(3) [OF b header]
        from u have a: "anchored H u" "u_txid u = sha256d H (u_rawTx u)" by (simp_all add: under_way_def)
        from u obtain j where once: "bytes_Index (u_rawTx u) (n_Msg (u_heap u ! u_tip u)) = Some j"
          "bytes_Index (drop (j + 1) (u_rawTx u)) (n_Msg (u_heap u ! u_tip u)) = None" "length (u_rawTx u) \<le> MaxMsgLength"
          by (auto simp: under_way_def carries_def)
        obtain s' u' r where run: "finalize H btc ord s u bh = (s', u', r)" by (metis prod.exhaust)
        have len: "\<forall>t \<in> set txids. length t = 32" and d: "2 * levels (length (u_leaves u)) + 3 * levels (length txids) + 6 \<le> recursionLimit"
          and root: "block_root H txids = bh_MerkleRoot header" using hh by simp_all
        note f = finalize_outcome [OF st H a(1) store ord b Some a(2) len header once d run, unfolded if_P [OF root]]
        from f puts obtain x' where x': "sm_store s' = storage_of put get has x'" "I x'" "r = Ok ()"
          "\<forall>c \<in> fst ` set (u_leaves u). \<exists>A. held x' c = Some A \<and> (bh_MerkleRoot header, BitcoinBlockHeaderAttestation (word_of_int height)) \<in> A"
          "\<forall>c. c \<notin> fst ` set (u_leaves u) \<longrightarrow> held x' c = held x c"
          by blast
        have "s' = s\<lparr>sm_store := sm_store s'\<rparr>" by (rule finalize_cases [OF run]) (simp_all add: x'(3))
        then have s': "s' = s\<lparr>sm_store := storage_of put get has x'\<rparr>" using x'(1) by simp
        have done_leaves: "\<forall>c \<in> fst ` set (u_leaves u). completed held x' c" using x'(4) unfolding completed_def by blast
        then have "\<forall>c. completed held x c \<longrightarrow> completed held x' c" using x'(5) unfolding completed_def by metis
        then show ?thesis using final run s' x'(2,3) done_leaves by blast
      qed (use h(2) [OF b] in simp)
    qed
  qed (use h(1) in simp)
qed

definition track_outcome ::
  "hashes \<Rightarrow> ('s \<Rightarrow> bytes \<rightharpoonup> (bytes \<times> attestation) set) \<Rightarrow> Backend \<Rightarrow> int \<Rightarrow> unconfirmedTx \<Rightarrow> unconfirmedTx list \<Rightarrow> 's \<Rightarrow> bool" where
  "track_outcome H held btc minConf u remaining x \<longleftrightarrow>
     (undecided btc minConf (u_txid u) \<longrightarrow> u \<in> set remaining) \<and>
     (\<forall>height header n. confirms H btc minConf (u_txid u) height header n \<longrightarrow> (\<forall>c \<in> fst ` set (u_leaves u). completed held x c))"

lemma track_honest:
  assumes st: "storage H I held put get has" and H: "hash_sizes H" and w: "world_ok w"
    and "\<forall>u \<in> set us. under_way H u" and "\<forall>i < length us. answers_honestly H (w_btc w (k + i)) (us ! i)"
    and "store_takes H w k us s" and "sm_store s = storage_of put get has x" and "I x"
  shows "\<exists>s' remaining x'. track_loop H w k us s = (s', Ok remaining) \<and> sm_store s' = storage_of put get has x' \<and> I x' \<and>
    set remaining \<subseteq> set us \<and> frame s s' \<and> set (sm_pending s) \<subseteq> set (sm_pending s') \<and> sm_unconfirmed s' = sm_unconfirmed s \<and>
    (\<forall>c. completed held x c \<longrightarrow> completed held x' c) \<and>
    (\<forall>i < length us. track_outcome H held (w_btc w (k + i)) (sc_MinConfirmations (sm_cfg s)) (us ! i) remaining x')"
  using assms(4-8)
proof (induction us arbitrary: k s x)
  case Nil
  then show ?case by (auto simp: frame_def)
next
  case (Cons u us)
  let ?btc = "w_btc w k" and ?min = "sc_MinConfirmations (sm_cfg s)"
  have u: "under_way H u" and us: "\<forall>u \<in> set us. under_way H u" and hu: "answers_honestly H ?btc u" using Cons.prems(1,2) by auto
  have hus: "\<forall>i < length us. answers_honestly H (w_btc w (Suc k + i)) (us ! i)"
    using Cons.prems(2) by (metis Suc_less_eq add_Suc_shift length_Cons nth_Cons_Suc)
  have ord: "mset (w_order w k (map fst (u_leaves u))) = mset (map fst (u_leaves u))" using w by (simp add: world_ok_def)
  have rest: "\<exists>s' remaining x'. track_loop H w (Suc k) us s1 = (s', Ok remaining) \<and> sm_store s' = storage_of put get has x' \<and> I x' \<and>
    set remaining \<subseteq> set us \<and> frame s s' \<and> set (sm_pending s) \<subseteq> set (sm_pending s') \<and> sm_unconfirmed s' = sm_unconfirmed s \<and>
    (\<forall>c. completed held x1 c \<longrightarrow> completed held x' c) \<and>
    (\<forall>i < length us. track_outcome H held (w_btc w (Suc k + i)) ?min (us ! i) remaining x')"
    if takes: "fst (track_loop H w k [u] s) = s1" and that: "sm_store s1 = storage_of put get has x1" "I x1" "frame s s1" "set (sm_pending s) \<subseteq> set (sm_pending s1)" "sm_unconfirmed s1 = sm_unconfirmed s" for s1 x1
  proof -
    from that(3) have f: "sm_cfg s1 = sm_cfg s" "frame s1 s' \<Longrightarrow> frame s s'" for s' by (simp_all add: frame_def)
    have "store_takes H w (Suc k) us s1" using Cons.prems(3) takes by simp
    from Cons.IH [OF us hus this that(1,2)] show ?thesis
    proof (elim exE conjE, goal_cases)
      case (1 s' remaining x')
      show ?case by (intro exI [of _ s'] exI [of _ remaining] exI [of _ x'] conjI) (use 1 f that(4,5) in auto)
    qed
  qed
  have outcomes: "\<forall>i < length (u # us). track_outcome H held (w_btc w (k + i)) ?min ((u # us) ! i) r y"
    if "track_outcome H held ?btc ?min u r y" "\<forall>i < length us. track_outcome H held (w_btc w (Suc k + i)) ?min (us ! i) r y" for r y
    using that by (auto simp: less_Suc_eq_0_disj)
  define ends where "ends s' remaining x' \<longleftrightarrow> track_loop H w k (u # us) s = (s', Ok remaining) \<and> sm_store s' = storage_of put get has x' \<and> I x' \<and>
    set remaining \<subseteq> set (u # us) \<and> frame s s' \<and> set (sm_pending s) \<subseteq> set (sm_pending s') \<and> sm_unconfirmed s' = sm_unconfirmed s \<and>
    (\<forall>c. completed held x c \<longrightarrow> completed held x' c) \<and>
    (\<forall>i < length (u # us). track_outcome H held (w_btc w (k + i)) ?min ((u # us) ! i) remaining x')" for s' remaining x'
  have frame: "frame s s" by (simp add: frame_def)
  have keep: "\<exists>s' remaining x'. ends s' remaining x'"
    if run: "track_loop H w k (u # us) s = (case track_loop H w (Suc k) us s of (s', r) \<Rightarrow> (s', andThen r (\<lambda>rest. Ok (u # rest))))"
      and one: "fst (track_loop H w k [u] s) = s"
      and no: "\<And>height header n. \<not> confirms H ?btc ?min (u_txid u) height header n"
    using rest [OF one Cons.prems(4,5) frame order_refl refl]
  proof (elim exE conjE, goal_cases)
    case (1 s' remaining x')
    have "track_loop H w k (u # us) s = (s', Ok (u # remaining))" unfolding run using 1 by simp
    moreover have "\<forall>i < length (u # us). track_outcome H held (w_btc w (k + i)) ?min ((u # us) ! i) (u # remaining) x'"
      by (intro outcomes) (use no 1 in \<open>auto simp: track_outcome_def\<close>)
    ultimately have "ends s' (u # remaining) x'" unfolding ends_def using 1 by auto
    then show ?case by blast
  qed
  have "\<exists>s' remaining x'. ends s' remaining x'"
  proof (cases "be_TxStatus ?btc (u_txid u)")
    case (Err e)
    then show ?thesis by (intro keep) (simp_all add: confirms_def)
  next
    case (Ok stat)
    show ?thesis
    proof (cases "tx_Confirmations stat < 0")
      case True
      let ?s1 = "requeue (w_order w k (map fst (u_leaves u))) s"
      have run: "track_loop H w k (u # us) s = track_loop H w (Suc k) us ?s1" using Ok True by simp
      have no: "\<not> undecided ?btc ?min (u_txid u)" "\<not> confirms H ?btc ?min (u_txid u) height header n" for height header n
        using Ok True by (auto simp: undecided_def confirms_def)
      have "sm_store ?s1 = storage_of put get has x" "frame s ?s1" "set (sm_pending s) \<subseteq> set (sm_pending ?s1)" "sm_unconfirmed ?s1 = sm_unconfirmed s"
        using Cons.prems(4) by (simp_all add: frame_def)
      note step = this
      have one: "fst (track_loop H w k [u] s) = ?s1" using Ok True by simp
      from rest [OF one step(1) Cons.prems(5) step(2-4)] show ?thesis
      proof (elim exE conjE, goal_cases)
        case (1 s' remaining x')
        have "track_outcome H held ?btc ?min u remaining x'" using no by (simp add: track_outcome_def)
        then have "ends s' remaining x'" unfolding ends_def run using 1 outcomes by auto
        then show ?case by blast
      qed
    next
      case pos: False
      show ?thesis
      proof (cases "tx_Confirmations stat \<ge> ?min \<and> tx_BlockHash stat \<noteq> None")
        case False
        then show ?thesis using Ok pos by (intro keep) (auto simp: confirms_def)
      next
        case True
        then obtain bh where bh: "tx_BlockHash stat = Some bh" by blast
        have status: "be_TxStatus ?btc (u_txid u) = Ok \<lparr>tx_Confirmations = tx_Confirmations stat, tx_BlockHash = Some bh\<rparr>" using Ok bh by simp
        have conf: "0 \<le> tx_Confirmations stat" "?min \<le> tx_Confirmations stat" using pos True by simp_all
        have puts: "puts_taken H ?btc (w_order w k) s u bh" using Cons.prems(3) status conf by simp
        show ?thesis
        proof (cases rule: finalize_honest [where s = s and ord = "w_order w k", OF st H u Cons.prems(4,5) ord puts hu status conf])
          case (1 e)
          then show ?thesis using status pos True bh by (intro keep) simp_all
        next
          case (2 x1 u')
          let ?s1 = "s\<lparr>sm_store := storage_of put get has x1\<rparr>"
          have run: "track_loop H w k (u # us) s = track_loop H w (Suc k) us ?s1" using Ok pos True bh 2(1) by simp
          have no: "\<not> undecided ?btc ?min (u_txid u)" using Ok pos True by (auto simp: undecided_def)
          have "sm_store ?s1 = storage_of put get has x1" "frame s ?s1" "set (sm_pending s) \<subseteq> set (sm_pending ?s1)" "sm_unconfirmed ?s1 = sm_unconfirmed s"
            by (simp_all add: frame_def)
          note step = this
          have one: "fst (track_loop H w k [u] s) = ?s1" using Ok pos True bh 2(1) by simp
          from rest [OF one step(1) 2(2) step(2-4)] show ?thesis
          proof (elim exE conjE, goal_cases)
            case (1 s' remaining x')
            have "track_outcome H held ?btc ?min u remaining x'" using no 1 2(3) by (simp add: track_outcome_def)
            then have "ends s' remaining x'" unfolding ends_def run using 1 2(4) outcomes by auto
            then show ?case by blast
          qed
        qed
      qed
    qed
  qed (use hu in \<open>simp add: answers_honestly_def\<close>)
  then show ?case unfolding ends_def .
qed

lemma send_honest:
  assumes H: "hash_sizes H" and p: "pool_ok s" and w: "world_ok w" 
    and hon: "due w s \<Longrightarrow> sm_pending s \<noteq> [] \<Longrightarrow> sends_honestly H w k (tick_data H w k s) (sc_MaxFee (sm_cfg s))"
  shows "\<exists>s'. maybeSendTx H w k s = (s', Ok ()) \<and> set (sm_unconfirmed s) \<subseteq> set (sm_unconfirmed s') \<and>
    (\<forall>u \<in> set (sm_unconfirmed s'). u \<in> set (sm_unconfirmed s) \<or> under_way H u) \<and>
    (\<forall>tx. due w s \<and> sm_pending s \<noteq> [] \<and> broadcasts H w k (tick_data H w k s) (sc_MaxFee (sm_cfg s)) tx \<longrightarrow>
       (\<exists>u \<in> set (sm_unconfirmed s'). u_txid u = sha256d H tx \<and> fst ` set (u_leaves u) = set (sm_pending s)))"
proof (cases "due w s \<and> sm_pending s \<noteq> []")
  case False
  then have "maybeSendTx H w k s = (s, Ok ())" by (auto simp: maybeSendTx_def due_def not_le split: option.split)
  then show ?thesis using False by auto
next
  case True
  have ord: "mset (w_order w k (sm_pending s)) = mset (sm_pending s)" using w by (simp add: world_ok_def)
  have pend: "distinct (sm_pending s)" "\<forall>c \<in> set (sm_pending s). length c = JournalRecordSize"
    using p by (auto simp: pool_ok_def waiting_in_def)
  define data where data: "data = merkle_root H (map (sha256_Sum256 H) (w_order w k (sm_pending s)))"
  then have data_def: "data = tick_data H w k s" by (simp add: tick_data_def)
  define ans where "ans = be_SendOpReturn (w_btc w k) data (sc_MaxFee (sm_cfg s))"
  have h: "\<not> is_panic ans" "ans = Ok (txid, raw) \<Longrightarrow> \<not> is_panic (StripWitness (w_tx_Deserialize w) (w_tx_SerializeNoWitness w) raw)"
    "ans = Ok (txid, raw) \<Longrightarrow> StripWitness (w_tx_Deserialize w) (w_tx_SerializeNoWitness w) raw = Ok tx \<Longrightarrow> txid = sha256d H tx \<and> carries tx data" for txid raw tx
    using hon True by (auto simp: sends_honestly_def ans_def data_def)
  note out = maybeSendTx_outcome [OF H conjunct2 [OF True] pend ord conjunct1 [OF True] data ans_def]
  show ?thesis
  proof (cases ans)
    case (Err e)
    then have "\<not> broadcasts H w k data (sc_MaxFee (sm_cfg s)) tx" for tx by (auto simp: broadcasts_def ans_def)
    then show ?thesis using out Err by (auto simp: data_def)
  next
    case (Ok tr)
    obtain txid raw where tr: "ans = Ok (txid, raw)" using Ok by (cases tr) simp
    show ?thesis
    proof (cases "StripWitness (w_tx_Deserialize w) (w_tx_SerializeNoWitness w) raw")
      case (Err e)
      then have "\<not> broadcasts H w k data (sc_MaxFee (sm_cfg s)) tx" for tx using tr by (auto simp: broadcasts_def ans_def)
      then show ?thesis using out tr Err by (auto simp: data_def)
    next
      case strip: (Ok tx)
      from out tr strip obtain u where
        u: "maybeSendTx H w k s = (s\<lparr>sm_pending := [], sm_unconfirmed := sm_unconfirmed s @ [u], sm_lastTxTime := Some (w_lastTx w)\<rparr>, Ok ())"
          "u_txid u = txid" "u_rawTx u = tx" "map fst (u_leaves u) = w_order w k (sm_pending s)"
          "n_Msg (u_heap u ! u_tip u) = data" "anchored H u" by auto
      have "under_way H u" using u h(3) [OF tr strip] by (simp add: under_way_def)
      moreover have "fst ` set (u_leaves u) = set (sm_pending s)" using u(4) mset_eq_setD [OF ord] by (metis list.set_map)
      moreover have "txid = sha256d H tx'" if "broadcasts H w k data (sc_MaxFee (sm_cfg s)) tx'" for tx'
        using that tr by (auto simp: broadcasts_def ans_def)
      ultimately show ?thesis using u(1,2) by (auto simp: data_def)
    qed (use h(2) [OF tr] in simp)
  qed (use h(1) in simp)
qed

lemma trivial_records: "record_keeping (\<lambda>_ _. True) put get"
  by unfold_locales auto

text \<open>
  A tick: it returns, what is under way afterwards is again as \<open>maybeSendTx\<close> records it, and each transaction that
  was under way has its outcome, whatever those of the others are.
\<close>

lemma tick_honest:
  assumes st: "storage H I held put get has" and H: "hash_sizes H" and w: "world_ok w"
    and puts: "takes_tick H w s"
    and p: "pool_ok s" and j: "journal_of (sm_journal s) rs" and cur: "unat (sm_cursor s) \<le> length rs"
    and under: "\<forall>u \<in> set (sm_unconfirmed s). under_way H u" and hon: "honest_node H w s"
    and store: "sm_store s = storage_of put get has x" "I x"
  shows "\<exists>s' x' s1 s2. stamper_step H w s = (s', Ok ()) \<and> sm_cfg s' = sm_cfg s \<and> sm_store s' = storage_of put get has x' \<and> I x' \<and>
    (\<forall>u \<in> set (sm_unconfirmed s'). under_way H u) \<and> (\<forall>c. completed held x c \<longrightarrow> completed held x' c) \<and>
    (\<forall>i < length (sm_unconfirmed s). track_outcome H held (w_btc w i) (sc_MinConfirmations (sm_cfg s)) (sm_unconfirmed s ! i) (sm_unconfirmed s') x') \<and>
    ingestJournal s = (s1, Ok ()) \<and> trackConfirmations H w s1 = (s2, Ok ()) \<and> set (sm_pending s) \<subseteq> set (sm_pending s2) \<and>
    (\<forall>tx. due w s2 \<and> sm_pending s2 \<noteq> [] \<and> broadcasts H w (length (sm_unconfirmed s))
         (tick_data H w (length (sm_unconfirmed s)) s2) (sc_MaxFee (sm_cfg s)) tx \<longrightarrow>
       (\<exists>u \<in> set (sm_unconfirmed s'). u_txid u = sha256d H tx \<and> fst ` set (u_leaves u) = set (sm_pending s2)))"
proof -
  let ?us = "sm_unconfirmed s"
  from ingest_parts [OF j cur] obtain s1 where s1: "ingestJournal s = (s1, Ok ())" "sm_journal s1 = sm_journal s" "sm_cfg s1 = sm_cfg s"
      "sm_store s1 = sm_store s" "sm_unconfirmed s1 = ?us" "set (sm_pending s) \<subseteq> set (sm_pending s1)"
      "set (sm_pending s1) \<subseteq> set (sm_pending s) \<union> set (drop (unat (sm_cursor s)) rs)" "distinct (sm_pending s) \<longrightarrow> distinct (sm_pending s1)"
    by blast
  have p1: "pool_ok s1" using p s1(5,7,8) journal_records [OF j] by (auto simp: pool_ok_def waiting_in_def dest: in_set_dropD)
  have store1: "sm_store s1 = storage_of put get has x" using s1(4) store(1) by simp
  have hon': "\<forall>i < length ?us. answers_honestly H (w_btc w (0 + i)) (?us ! i)"
    using hon by (simp add: honest_node_def)
  have takes: "store_takes H w 0 ?us s1" using puts s1(1,5) by (simp add: takes_tick_def)
  from track_honest [OF st H w under hon' takes store1 store(2)] obtain t remaining x' where
    t: "track_loop H w 0 ?us s1 = (t, Ok remaining)" "sm_store t = storage_of put get has x'" "I x'" "set remaining \<subseteq> set ?us"
      "frame s1 t" "set (sm_pending s1) \<subseteq> set (sm_pending t)" "\<forall>c. completed held x c \<longrightarrow> completed held x' c"
      "\<forall>i < length ?us. track_outcome H held (w_btc w (0 + i)) (sc_MinConfirmations (sm_cfg s1)) (?us ! i) remaining x'"
    by blast
  let ?s2 = "t\<lparr>sm_unconfirmed := remaining\<rparr>"
  have track: "trackConfirmations H w s1 = (?s2, Ok ())" using t(1) s1(5) by (simp add: trackConfirmations_def)
  have u1: "uses put get has s1" using store1 by (auto simp: uses_def)
  have d1: "\<forall>u \<in> set ?us. distinct (map fst (u_leaves u))" using p by (simp add: pool_ok_def)
  note k = record_keeping.track_loop_keeps [OF trivial_records u1 d1 w t(1)]
  have p2: "pool_ok ?s2" using k p1 s1(5) by (auto simp: pool_ok_def waiting_in_def)
  have cfg: "sm_cfg ?s2 = sm_cfg s" using t(5) s1(3) by (simp add: frame_def)
  have hon2: "sends_honestly H w (length ?us) (tick_data H w (length ?us) ?s2) (sc_MaxFee (sm_cfg ?s2))"
    if "due w ?s2" "sm_pending ?s2 \<noteq> []"
    using hon s1(1) track that cfg unfolding honest_node_def by metis
  from send_honest [OF H p2 w hon2] obtain s' where m: "maybeSendTx H w (length ?us) ?s2 = (s', Ok ())"
    "set remaining \<subseteq> set (sm_unconfirmed s')" "\<forall>u \<in> set (sm_unconfirmed s'). u \<in> set remaining \<or> under_way H u"
    "\<forall>tx. due w ?s2 \<and> sm_pending ?s2 \<noteq> [] \<and> broadcasts H w (length ?us) (tick_data H w (length ?us) ?s2)
       (sc_MaxFee (sm_cfg s)) tx \<longrightarrow> (\<exists>u \<in> set (sm_unconfirmed s'). u_txid u = sha256d H tx \<and> fst ` set (u_leaves u) = set (sm_pending ?s2))"
    by (auto simp: cfg)
  have step: "stamper_step H w s = (s', Ok ())" using step_parts [OF s1(1) track] m(1) s1(5) by simp
  have cfg': "sm_cfg s' = sm_cfg s" using maybeSendTx_keeps [OF H p2 w m(1)] cfg by (simp add: frame_def)
  have store': "sm_store s' = storage_of put get has x'" using maybeSendTx_store [of H w "length ?us" ?s2] m(1) t(2) by simp
  have under': "\<forall>u \<in> set (sm_unconfirmed s'). under_way H u" using m(3) t(4) under by blast
  have outcomes: "\<forall>i < length ?us. track_outcome H held (w_btc w i) (sc_MinConfirmations (sm_cfg s)) (?us ! i) (sm_unconfirmed s') x'"
    using t(8) m(2) s1(3) by (auto simp: track_outcome_def)
  have pend: "set (sm_pending s) \<subseteq> set (sm_pending ?s2)" using s1(6) t(6) by simp
  show ?thesis
    by (intro exI [of _ s'] exI [of _ x'] exI [of _ s1] exI [of _ ?s2] conjI) (fact step cfg' store' t(3,7) under' outcomes s1(1) track pend m(4))+
qed

section \<open>Runs\<close>

text \<open>
  What an honest tick meets: a grown journal, the store after further puts, a node that is honest about what the tick asks, and
  a store that takes the proofs of the tick.
\<close>

definition meets ::
  "hashes \<Rightarrow> ('s \<Rightarrow> bool) \<Rightarrow> ('s \<Rightarrow> bytes \<Rightarrow> Timestamp \<Rightarrow> 's \<times> unit result) \<Rightarrow> ('s \<Rightarrow> bytes \<Rightarrow> Timestamp result) \<Rightarrow> ('s \<Rightarrow> bytes \<Rightarrow> bool result) \<Rightarrow>
   bytes list \<Rightarrow> 's Stamper \<Rightarrow> Journal \<Rightarrow> 's \<Rightarrow> 'tx world \<Rightarrow> bytes list \<Rightarrow> bool" where
  "meets H I put get has rs s j x w new \<longleftrightarrow>
     journal_of j (rs @ new) \<and> put_star put (in_store s) x \<and> I x \<and> world_ok w \<and>
     honest_node H w (s\<lparr>sm_journal := j, sm_store := storage_of put get has x\<rparr>) \<and>
     takes_tick H w (s\<lparr>sm_journal := j, sm_store := storage_of put get has x\<rparr>)"

inductive honest_ticks ::
  "hashes \<Rightarrow> ('s \<Rightarrow> bool) \<Rightarrow> ('s \<Rightarrow> bytes \<Rightarrow> Timestamp \<Rightarrow> 's \<times> unit result) \<Rightarrow> ('s \<Rightarrow> bytes \<Rightarrow> Timestamp result) \<Rightarrow> ('s \<Rightarrow> bytes \<Rightarrow> bool result) \<Rightarrow>
   ('tx world \<Rightarrow> 's Stamper \<Rightarrow> bool) \<Rightarrow> bytes list \<Rightarrow> 's Stamper \<Rightarrow> bytes list \<Rightarrow> 's Stamper \<Rightarrow> bool"
  for H I put get has P rs s
where
  no_tick: "honest_ticks H I put get has P rs s rs s"
| more_ticks: "honest_ticks H I put get has P rs s rs1 s1 \<Longrightarrow> meets H I put get has rs1 s1 j x w new \<Longrightarrow> P w s1 \<Longrightarrow>
    stamper_step H w (s1\<lparr>sm_journal := j, sm_store := storage_of put get has x\<rparr>) = (s2, Ok ()) \<Longrightarrow>
    honest_ticks H I put get has P rs s (rs1 @ new) s2"

lemma meets_tick:
  assumes st: "storage H I held put get has" and rk: "record_keeping recorded put get" and H: "hash_sizes H"
    and reach: "stamper_reach H put get has TYPE('tx) rs s" and under: "\<forall>u \<in> set (sm_unconfirmed s). under_way H u"
    and m: "meets H I put get has rs s j x (w :: 'tx world) new"
  shows "\<exists>s' x' s1 s2. stamper_step H w (s\<lparr>sm_journal := j, sm_store := storage_of put get has x\<rparr>) = (s', Ok ()) \<and> sm_cfg s' = sm_cfg s \<and>
    sm_store s' = storage_of put get has x' \<and> I x' \<and>
    (\<forall>u \<in> set (sm_unconfirmed s'). under_way H u) \<and> (\<forall>c. completed held x c \<longrightarrow> completed held x' c) \<and>
    (\<forall>i < length (sm_unconfirmed s). track_outcome H held (w_btc w i) (sc_MinConfirmations (sm_cfg s)) (sm_unconfirmed s ! i) (sm_unconfirmed s') x') \<and>
    ingestJournal (s\<lparr>sm_journal := j, sm_store := storage_of put get has x\<rparr>) = (s1, Ok ()) \<and>
    trackConfirmations H w s1 = (s2, Ok ()) \<and> set (sm_pending s) \<subseteq> set (sm_pending s2) \<and>
    (\<forall>tx. due w s2 \<and> sm_pending s2 \<noteq> [] \<and> broadcasts H w (length (sm_unconfirmed s))
         (tick_data H w (length (sm_unconfirmed s)) s2) (sc_MaxFee (sm_cfg s)) tx \<longrightarrow>
       (\<exists>u \<in> set (sm_unconfirmed s'). u_txid u = sha256d H tx \<and> fst ` set (u_leaves u) = set (sm_pending s2)))"
proof -
  let ?s = "s\<lparr>sm_journal := j, sm_store := storage_of put get has x\<rparr>"
  from record_keeping.stamper_invariant [OF rk reach H] have "pool_ok s" "unat (sm_cursor s) \<le> length rs" by (auto simp: accounted_def)
  then have s: "pool_ok ?s" "unat (sm_cursor ?s) \<le> length (rs @ new)" by (simp_all add: pool_ok_def waiting_in_def)
  have h: "honest_node H w ?s" "\<forall>u \<in> set (sm_unconfirmed ?s). under_way H u" "journal_of (sm_journal ?s) (rs @ new)" "I x" "world_ok w"
    using m under by (simp_all add: meets_def)
  have t: "takes_tick H w ?s" using m by (simp add: meets_def)
  have store: "sm_store ?s = storage_of put get has x" by simp
  from tick_honest [OF st H h(5) t s(1) h(3) s(2) h(2,1) store h(4)] show ?thesis by simp
qed

text \<open>Along a run everything under way stays as recorded, and a transaction that the node never decides about stays under way.\<close>

lemma honest_ticks_keep:
  assumes st: "storage H I held put get has" and rk: "record_keeping recorded put get" and H: "hash_sizes H"
    and run: "honest_ticks H I put get has (P :: 'tx world \<Rightarrow> 's Stamper \<Rightarrow> bool) rs s rs' s'"
    and reach: "stamper_reach H put get has TYPE('tx) rs s" and under: "\<forall>u \<in> set (sm_unconfirmed s). under_way H u"
  shows "stamper_reach H put get has TYPE('tx) rs' s' \<and> (\<forall>u \<in> set (sm_unconfirmed s'). under_way H u) \<and> sm_cfg s' = sm_cfg s \<and>
    (\<forall>u \<in> set (sm_unconfirmed s). (\<forall>w s k. P w s \<longrightarrow> undecided (w_btc w k) (sc_MinConfirmations (sm_cfg s)) (u_txid u)) \<longrightarrow> u \<in> set (sm_unconfirmed s'))"
  using run
proof (induction rule: honest_ticks.induct)
  case no_tick
  then show ?case using reach under by simp
next
  case (more_ticks rs1 s1 j x w new s2)
  note IH = more_ticks.IH
  from meets_tick [OF st rk H conjunct1 [OF IH] conjunct1 [OF conjunct2 [OF IH]] more_ticks.hyps(2)] more_ticks.hyps(4)
  have u2: "\<forall>u \<in> set (sm_unconfirmed s2). under_way H u" and cfg: "sm_cfg s2 = sm_cfg s1"
    and out: "\<exists>x'. \<forall>i < length (sm_unconfirmed s1). track_outcome H held (w_btc w i) (sc_MinConfirmations (sm_cfg s1)) (sm_unconfirmed s1 ! i) (sm_unconfirmed s2) x'"
    by auto
  have "stamper_reach H put get has TYPE('tx) (rs1 @ new) s2"
    using stamper_reach.tick [OF conjunct1 [OF IH]] more_ticks.hyps(2,4) by (auto simp: meets_def)
  moreover have "u \<in> set (sm_unconfirmed s2)"
    if u: "u \<in> set (sm_unconfirmed s)" "\<forall>w s k. P w s \<longrightarrow> undecided (w_btc w k) (sc_MinConfirmations (sm_cfg s)) (u_txid u)" for u
  proof -
    from IH u have "u \<in> set (sm_unconfirmed s1)" by blast
    then obtain i where i: "i < length (sm_unconfirmed s1)" "sm_unconfirmed s1 ! i = u" by (auto simp: in_set_conv_nth)
    have "undecided (w_btc w i) (sc_MinConfirmations (sm_cfg s1)) (u_txid u)" using u(2) more_ticks.hyps(3) by blast
    with out i show ?thesis by (auto simp: track_outcome_def)
  qed
  ultimately show ?case using u2 cfg IH by auto
qed

section \<open>Properties\<close>

text \<open>
  C7. Every pending commitment is confirmed, whatever else is under way. Take a stamper that has recovered and run
  for any number of ticks at which the node is honest about what it is asked and the store takes the proofs that the tick puts. If a tick
  with commitments in the pool is due and the node broadcasts, they enter a transaction. The stamper then runs on, through ticks at which it
  may send, drop and finalize other transactions, while the node has not decided about this one. At the first tick at
  which the node confirms it the step succeeds, and the store holds for each of the commitments a proof with a Bitcoin attestation.
\<close>

theorem stamper_confirms_each:
  assumes st: "storage H I held put get has" and rk: "record_keeping recorded put get" and H: "hash_sizes H"
    and start: "journal_of j0 rs0" "Recover (NewStamper j0 (storage_of put get has x0) cfg) = (s0, Ok ())"
    and before: "honest_ticks H I put get has (\<lambda>(w :: 'tx world) s. True) rs0 s0 rs s"
    and send: "meets H I put get has rs s j1 x1 (w1 :: 'tx world) new1" "sm_pending s \<noteq> []"
      "ingestJournal (s\<lparr>sm_journal := j1, sm_store := storage_of put get has x1\<rparr>) = (t1, r1)" "trackConfirmations H w1 t1 = (t2, r2)"
      "due w1 t2" "k = length (sm_unconfirmed s)"
      "broadcasts H w1 k (tick_data H w1 k t2) (sc_MaxFee (sm_cfg s)) tx"
      "stamper_step H w1 (s\<lparr>sm_journal := j1, sm_store := storage_of put get has x1\<rparr>) = (s1, r)"
    and waiting: "honest_ticks H I put get has
      (\<lambda>(w :: 'tx world) s. \<forall>k. undecided (w_btc w k) (sc_MinConfirmations (sm_cfg s)) (sha256d H tx)) (rs @ new1) s1 rs2 s2"
    and confirm: "meets H I put get has rs2 s2 j2 x2 (w2 :: 'tx world) new2"
      "\<forall>k. confirms H (w_btc w2 k) (sc_MinConfirmations (sm_cfg s)) (sha256d H tx) height header n"
  shows "\<exists>s3 x3. stamper_step H w2 (s2\<lparr>sm_journal := j2, sm_store := storage_of put get has x2\<rparr>) = (s3, Ok ()) \<and>
    sm_store s3 = storage_of put get has x3 \<and>
    (\<forall>c \<in> set (sm_pending s). completed held x3 c \<and> (\<forall>t. get x3 c = Ok t \<longrightarrow> IsComplete t))"
proof -
  have reach0: "stamper_reach H put get has TYPE('tx) rs0 s0" by (rule stamper_reach.start [OF start])
  have un: "sm_unconfirmed s0 = []" using Recover_unconfirmed [of "NewStamper j0 (storage_of put get has x0) cfg"] start(2) by (simp add: NewStamper_def)
  from honest_ticks_keep [OF st rk H before reach0] un
  have s: "stamper_reach H put get has TYPE('tx) rs s" "\<forall>u \<in> set (sm_unconfirmed s). under_way H u" by simp_all
  from meets_tick [OF st rk H s send(1)] obtain a x1' t1' t2' where
    tick: "stamper_step H w1 (s\<lparr>sm_journal := j1, sm_store := storage_of put get has x1\<rparr>) = (a, Ok ())" "sm_cfg a = sm_cfg s"
      "\<forall>u \<in> set (sm_unconfirmed a). under_way H u"
      "ingestJournal (s\<lparr>sm_journal := j1, sm_store := storage_of put get has x1\<rparr>) = (t1', Ok ())" "trackConfirmations H w1 t1' = (t2', Ok ())"
      "set (sm_pending s) \<subseteq> set (sm_pending t2')"
      "\<forall>tx. due w1 t2' \<and> sm_pending t2' \<noteq> [] \<and> broadcasts H w1 (length (sm_unconfirmed s))
         (tick_data H w1 (length (sm_unconfirmed s)) t2') (sc_MaxFee (sm_cfg s)) tx \<longrightarrow>
         (\<exists>u \<in> set (sm_unconfirmed a). u_txid u = sha256d H tx \<and> fst ` set (u_leaves u) = set (sm_pending t2'))"
    by (elim exE conjE)
  have same: "a = s1" "r = Ok ()" "t1' = t1" "t2' = t2" using tick(1,4,5) send(3,4,8) by simp_all
  note s1 = same(2) tick(2,3,6) [unfolded same] and sent = tick(7) [unfolded same, rule_format, of tx, folded send(6)]
  have "sm_pending t2 \<noteq> []" using s1(4) send(2) by (cases "sm_pending s") auto
  with sent send(5,7) obtain u where u: "u \<in> set (sm_unconfirmed s1)" "u_txid u = sha256d H tx" "set (sm_pending s) \<subseteq> fst ` set (u_leaves u)"
    using s1(4) by blast
  have reach1: "stamper_reach H put get has TYPE('tx) (rs @ new1) s1"
    using stamper_reach.tick [OF s(1), of j1 new1 x1 w1 s1] send(1,8) s1(1) unfolding meets_def by blast
  note later = honest_ticks_keep [OF st rk H waiting reach1 s1(3)]
  have s2: "stamper_reach H put get has TYPE('tx) rs2 s2" "\<forall>u \<in> set (sm_unconfirmed s2). under_way H u" and cfg: "sm_cfg s2 = sm_cfg s"
    using later s1(2) by simp_all
  have u2: "u \<in> set (sm_unconfirmed s2)"
    by (rule mp [OF bspec [OF later [THEN conjunct2, THEN conjunct2, THEN conjunct2] u(1)]]) (simp add: u(2))
  from u2 obtain i where i: "i < length (sm_unconfirmed s2)" "sm_unconfirmed s2 ! i = u" unfolding in_set_conv_nth by blast
  from meets_tick [OF st rk H s2 confirm(1)] obtain s3 x3 where
    s3: "stamper_step H w2 (s2\<lparr>sm_journal := j2, sm_store := storage_of put get has x2\<rparr>) = (s3, Ok ())"
      "sm_store s3 = storage_of put get has x3" "I x3"
      "\<forall>i < length (sm_unconfirmed s2). track_outcome H held (w_btc w2 i) (sc_MinConfirmations (sm_cfg s2)) (sm_unconfirmed s2 ! i) (sm_unconfirmed s3) x3"
    by (elim exE conjE)
  have "track_outcome H held (w_btc w2 i) (sc_MinConfirmations (sm_cfg s)) u (sm_unconfirmed s3) x3" using s3(4) i cfg by auto
  moreover have "confirms H (w_btc w2 i) (sc_MinConfirmations (sm_cfg s)) (u_txid u) height header n" using confirm(2) u(2) by simp
  ultimately have done_all: "\<forall>c \<in> set (sm_pending s). completed held x3 c" using u(3) unfolding track_outcome_def by (meson subsetD)
  have complete: "IsComplete t" if "completed held x3 c" "get x3 c = Ok t" for c t
    using storage.get_Ok [OF st s3(3) that(2)] that(1) by (auto simp: completed_def IsComplete_iff)
  from done_all have "\<forall>c \<in> set (sm_pending s). completed held x3 c \<and> (\<forall>t. get x3 c = Ok t \<longrightarrow> IsComplete t)" using complete by blast
  with s3(1,2) show ?thesis by (intro exI [of _ s3] exI [of _ x3] conjI)
qed

lemma sample_carries: "carries ([1] @ replicate 32 7 @ [2]) (replicate 32 7)"
  unfolding carries_def by (intro conjI exI, rule sample_tx_index(1), rule sample_tx_index(2)) (simp add: MaxMsgLength_def)

lemma sample_sends: "StripWitness Ok Ok tx = Ok tx" "sha256d const_hashes tx = replicate 32 7"
  by (simp_all add: StripWitness_def sha256d_def const_sha256)

lemma sample_merkle_root: "\<forall>x \<in> set xs. x = replicate 32 7 \<Longrightarrow> xs \<noteq> [] \<Longrightarrow> merkle_root const_hashes xs = replicate 32 7"
proof (induction const_hashes xs rule: merkle_root.induct)
  case (3 x y zs)
  have "\<forall>v \<in> set xs. v = replicate 32 7 \<Longrightarrow> \<forall>v \<in> set (pair_level const_hashes xs). v = replicate 32 7" for xs
    by (induction const_hashes xs rule: pair_level.induct) (auto simp: sample_sends(2) const_sha256)
  from this [OF 3(2)] 3(1) show ?case by (simp add: sample_sends(2) const_sha256)
qed simp_all

text \<open>The node of the sample world is honest about the sample transaction and about every message of a tick.\<close>

lemma sample_node_honest:
  assumes "set (sm_unconfirmed s) \<subseteq> {sample_utx}"
  shows "honest_node const_hashes sample_world s"
proof -
  have lv: "levels (Suc 0) = 0" "levels (length sample_ids) = 1" by code_simp+
  have ids: "be_BlockTxIDs sample_backend bh = Ok (5, sample_ids)" "length (u_leaves sample_utx) = Suc 0" "\<forall>t \<in> set sample_ids. length t = 32" for bh
    by (simp_all add: sample_backend_def sample_ids_def sample_utx_def)
  have "answers_honestly const_hashes sample_backend sample_utx"
    unfolding answers_honestly_def ids(1,2) lv using ids(3) by (auto simp: lv sample_root recursionLimit_def) (auto simp: sample_backend_def)
  then have hu: "answers_honestly const_hashes sample_backend (sm_unconfirmed s ! k)" if "k < length (sm_unconfirmed s)" for k
    using assms nth_mem [OF that] by auto
  have "sends_honestly const_hashes sample_world k (tick_data const_hashes sample_world k s2) maxFee" if "sm_pending s2 \<noteq> []" for k s2 maxFee
  proof -
    have "tick_data const_hashes sample_world k s2 = replicate 32 7"
      unfolding tick_data_def using that by (intro sample_merkle_root) (auto simp: const_sha256 sample_world_def)
    then show ?thesis
      using sample_carries by (simp add: sends_honestly_def sample_world_def sample_backend_def sample_sends)
  qed
  then show ?thesis using hu by (auto simp: honest_node_def sample_world_def)
qed

text \<open>The stamper on the sample journal once it has recovered, and after the tick that sends.\<close>

definition sample_ready :: "ref_db Stamper" where
  "sample_ready = sample_stamper\<lparr>sm_pending := [replicate 44 1], sm_cursor := 1\<rparr>"

definition sample_waiting :: "ref_db Stamper" where
  "sample_waiting = sample_stamper\<lparr>sm_cursor := 1, sm_pending := [], sm_unconfirmed := [sample_utx], sm_lastTxTime := Some 0\<rparr>"

lemma sample_sel:
  "sm_journal sample_stamper = sample_journal" "sm_store sample_stamper = ref_storage sample_db" "sm_cfg sample_stamper = DefaultConfig 100000"
  "sm_pending sample_stamper = []" "sm_unconfirmed sample_stamper = []" "sm_lastTxTime sample_stamper = None"
  by (simp_all add: sample_stamper_def NewStamper_def DefaultConfig_def)

lemma sample_recovered: "Recover sample_stamper = (sample_ready, Ok ())"
proof -
  have "Read sample_journal 0 = Ok (replicate 44 1)" using Read_cursor [OF sample_journal_ok, of 0] by simp
  moreover have "isConfirmed sample_stamper (replicate 44 1) = Ok False" by code_simp
  moreover have "Len sample_journal = 1" by (simp add: Len_def sample_journal_def)
  ultimately show ?thesis by (simp add: Recover_def Let_def set_pending_def sample_ready_def sample_sel)
qed

lemma sample_ticks:
  "ingestJournal sample_ready = (sample_ready, Ok ())" "ingestJournal sample_waiting = (sample_waiting, Ok ())"
  "trackConfirmations const_hashes sample_world sample_ready = (sample_ready, Ok ())"
  "stamper_step const_hashes sample_world sample_ready = (sample_waiting, Ok ())"
proof -
  show ing: "ingestJournal sample_ready = (sample_ready, Ok ())" "ingestJournal sample_waiting = (sample_waiting, Ok ())"
    using Len_journal [OF sample_journal_ok]
    by (simp_all add: ingestJournal_def ingest_loop.simps sample_ready_def sample_waiting_def sample_sel)
  show track: "trackConfirmations const_hashes sample_world sample_ready = (sample_ready, Ok ())"
    by (simp add: trackConfirmations_def sample_ready_def sample_sel)
  show "stamper_step const_hashes sample_world sample_ready = (sample_waiting, Ok ())"
    using step_parts [OF ing(1) track] sample_sent [of 1] by (simp add: sample_ready_def sample_waiting_def sample_sel)
qed

lemma sample_meets:
  assumes "s = sample_ready \<or> s = sample_waiting"
  shows "meets const_hashes (content_ok const_hashes) (bs_Put const_hashes ref_bolt) (bs_Get const_hashes ref_bolt) (bs_Has ref_bolt)
    [replicate 44 1] s sample_journal sample_db sample_world []"
    and "s\<lparr>sm_journal := sample_journal, sm_store := ref_storage sample_db\<rparr> = s"
proof -
  have s: "sm_journal s = sample_journal" "sm_store s = ref_storage sample_db" "set (sm_unconfirmed s) \<subseteq> {sample_utx}"
    "sm_unconfirmed s = [] \<or> sm_unconfirmed s = [sample_utx]" "sm_cfg s = DefaultConfig 100000" "ingestJournal s = (s, Ok ())"
    using assms sample_ticks by (auto simp: sample_ready_def sample_waiting_def sample_sel)
  show same: "s\<lparr>sm_journal := sample_journal, sm_store := ref_storage sample_db\<rparr> = s" using s(1,2) by simp
  have "puts_taken const_hashes sample_backend (\<lambda>xs. xs) s sample_utx bh" for bh
    by (rule sample_puts_taken [where header = "\<lparr>bh_Height = 5, bh_Hash = ''aa'', bh_MerkleRoot = replicate 32 7, bh_Time = 100\<rparr>"])
      (simp_all add: sample_backend_def sample_ids_def s(2))
  then have "takes_tick const_hashes sample_world s" using s(4,6) by (auto simp: takes_tick_def sample_world_def)
  moreover have "world_ok sample_world" by (simp add: world_ok_def sample_world_def)
  moreover have "in_store s = sample_db" by (simp add: s(2) storage_of_def)
  ultimately show "meets const_hashes (content_ok const_hashes) (bs_Put const_hashes ref_bolt) (bs_Get const_hashes ref_bolt) (bs_Has ref_bolt)
    [replicate 44 1] s sample_journal sample_db sample_world []"
    using sample_journal_ok sample_node_honest [OF s(3)] same by (simp add: meets_def put_none)
qed

theorem stamper_confirms_each_witness:
  "\<exists>s3 x3. stamper_step const_hashes sample_world (fst (Recover sample_stamper)) = (sample_waiting, Ok ()) \<and>
     stamper_step const_hashes sample_world sample_waiting = (s3, Ok ()) \<and>
     sm_store s3 = ref_storage x3 \<and> completed (content_held const_hashes) x3 (replicate 44 1)"
proof -
  let ?tx = "[1] @ replicate 32 7 @ [2] :: bytes"
  have start: "journal_of sample_journal [replicate 44 1]"
    "Recover (NewStamper sample_journal (ref_storage sample_db) (DefaultConfig 100000)) = (sample_ready, Ok ())"
    using sample_journal_ok sample_recovered unfolding sample_stamper_def by blast+
  note m1 = sample_meets [OF disjI1 [OF refl]] and m2 = sample_meets [OF disjI2 [OF refl]]
  have ready: "sm_pending sample_ready = [replicate 44 1]" "sm_unconfirmed sample_ready = []" "sm_cfg sample_ready = DefaultConfig 100000"
    "due sample_world sample_ready" by (simp_all add: sample_ready_def sample_sel due_def)
  have "tick_data const_hashes sample_world 0 sample_ready = replicate 32 7"
    by (simp add: tick_data_def ready(1) sample_world_def const_sha256)
  then have cast: "broadcasts const_hashes sample_world 0 (tick_data const_hashes sample_world 0 sample_ready) (sc_MaxFee (sm_cfg sample_ready)) ?tx"
    unfolding broadcasts_def sample_sends(2) using sample_carries by (simp add: sample_world_def sample_backend_def sample_sends)
  have conf: "\<forall>k. confirms const_hashes (w_btc sample_world k) (sc_MinConfirmations (sm_cfg sample_ready)) (sha256d const_hashes ?tx) 5
      \<lparr>bh_Height = 5, bh_Hash = ''aa'', bh_MerkleRoot = replicate 32 7, bh_Time = 100\<rparr> 2"
    using sample_root by (simp add: confirms_def sample_world_def sample_backend_def ready(3) DefaultConfig_def sample_sends sample_ids_def)
  have tick1: "ingestJournal (sample_ready\<lparr>sm_journal := sample_journal, sm_store := ref_storage sample_db\<rparr>) = (sample_ready, Ok ())"
    "stamper_step const_hashes sample_world (sample_ready\<lparr>sm_journal := sample_journal, sm_store := ref_storage sample_db\<rparr>) = (sample_waiting, Ok ())"
    unfolding m1(2) by (rule sample_ticks(1), rule sample_ticks(4))
  have ne: "sm_pending sample_ready \<noteq> []" and k0: "0 = length (sm_unconfirmed sample_ready)" by (simp_all add: ready)
  have nil: "[replicate 44 1] @ [] = [replicate 44 (1 :: byte)]" by simp
  from stamper_confirms_each [OF ref.bs.storage_axioms ref.rk.record_keeping_axioms hash_sizes_const start no_tick m1(1) ne
      tick1(1) sample_ticks(3) ready(4) k0 cast tick1(2), unfolded nil, OF no_tick m2(1) conf]
  obtain s3 x3 where "stamper_step const_hashes sample_world (sample_waiting\<lparr>sm_journal := sample_journal, sm_store := ref_storage sample_db\<rparr>) = (s3, Ok ())"
    "sm_store s3 = ref_storage x3" "completed (content_held const_hashes) x3 (replicate 44 1)" by (auto simp: ready)
  then show ?thesis using sample_recovered sample_ticks(4) unfolding m2(2) by (intro exI [of _ s3] exI [of _ x3]) simp
qed

end
