(* ===== verification/Shutdown.thy ===== *)
theory Shutdown
  imports Batch_Proofs
begin

text \<open>
  The end of the calendar: \<open>Aggregator.Close\<close>, which closes the queue and waits until the goroutine \<open>loop\<close> has
  drained it, as \<^verbatim>\<open>cmd/calendar/main.go\<close> calls it after the HTTP server has shut down.
\<close>

section \<open>Draining the queue\<close>

lemma write_commitment_uri: "write_commitment s h x d = (s', r) \<Longrightarrow> s_uri s' = s_uri s"
proof -
  have aj: "s_uri s' = s_uri s" if "journal_Append s c d = (s', r)" for s s' :: "'a Service" and c d r
    using that by (auto simp: journal_Append_def split: option.splits prod.splits)
  have ps: "s_uri s' = s_uri s" if "store_Put s c t = (s', r)" for s s' :: "'a Service" and c t r
    using that by (auto simp: store_Put_def split: prod.splits)
  show "write_commitment s h x d = (s', r) \<Longrightarrow> s_uri s' = s_uri s"
    by (auto simp: write_commitment_def split: result.splits prod.splits dest!: aj ps)
qed

lemma Service_Submit_uri: "Service_Submit H now d s h x = (s', h', r) \<Longrightarrow> s_uri s' = s_uri s"
  by (auto simp: Service_Submit_def Let_def split: result.splits prod.splits dest!: write_commitment_uri)

lemma flush_keeps:
  assumes "flush H now d h a = (h', a', r)"
  shows "ag_queue a' = ag_queue a \<and> ag_open a' = ag_open a \<and> s_uri (ag_calendar a') = s_uri (ag_calendar a)"
proof -
  have c: "ag_queue a1 = ag_queue a \<and> ag_open a1 = ag_open a \<and> s_uri (ag_calendar a1) = s_uri (ag_calendar a)"
    if "flush_commit H now d h a = (h1, a1, r1)" for h1 a1 r1
    using that by (auto simp: flush_commit_def split: prod.splits result.splits option.splits dest: Service_Submit_uri)
  from assms show ?thesis
    by (auto simp: flush_def dest!: c split: if_splits prod.splits result.splits)
qed

text \<open>
  The turns of \<open>loop\<close> on a closed queue: before turn \<open>k\<close> the ticker may fire, with the clock and the disk that \<open>ticks\<close>
  gives; then the next request is received, or, if there is none, the last flush ends the loop.
\<close>

definition turn_tick :: "hashes \<Rightarrow> (int \<times> disk) option \<Rightarrow> store \<Rightarrow> 's Aggregator \<Rightarrow> store \<times> 's Aggregator \<times> unit result" where
  "turn_tick H t h a = (case t of None \<Rightarrow> (h, a, Ok ()) | Some (now, d) \<Rightarrow> flush H now d h a)"

lemma turn_tick_keeps:
  "turn_tick H t h a = (h', a', r) \<Longrightarrow> ag_queue a' = ag_queue a \<and> ag_open a' = ag_open a"
  by (auto simp: turn_tick_def dest: flush_keeps split: option.splits)

function drain ::
  "hashes \<Rightarrow> (nat \<Rightarrow> (int \<times> disk) option) \<Rightarrow> int \<Rightarrow> disk \<Rightarrow> nat \<Rightarrow> store \<Rightarrow> 's Aggregator \<Rightarrow> store \<times> 's Aggregator \<times> unit result"
where
  "drain H ticks now d k h a =
     (case turn_tick H (ticks k) h a of
        (h1, a1, Ok _) \<Rightarrow>
          if ag_queue a1 = [] then loop_closed H now d h1 a1
          else drain H ticks now d (Suc k) h1 (loop_receive a1)
      | (h1, a1, r) \<Rightarrow> (h1, a1, r))"
  by pat_completeness auto
termination
proof (relation "measure (\<lambda>(H, ticks, now, d, k, h, a). length (ag_queue a))", goal_cases)
  case (2 H ticks now d k h a h1 q a1 r)
  then have "ag_queue a1 = ag_queue a" using turn_tick_keeps [of H "ticks k" h a h1 a1 r] by simp
  with 2 show ?case by (auto simp: loop_receive_def split: list.splits)
qed simp

declare drain.simps [simp del]

text \<open>\<open>Close\<close>, with the wait for the goroutine.\<close>

definition Close :: "hashes \<Rightarrow> (nat \<Rightarrow> (int \<times> disk) option) \<Rightarrow> int \<Rightarrow> disk \<Rightarrow> store \<Rightarrow> 's Aggregator \<Rightarrow> store \<times> 's Aggregator \<times> unit result" where
  "Close H ticks now d h a =
     (case Aggregator_Close a of
        (a1, Ok _) \<Rightarrow> drain H ticks now d 0 h a1
      | (a1, r) \<Rightarrow> (h, a1, r))"

section \<open>What the callers are left with\<close>

text \<open>
  The store accepts up to \<open>n\<close> puts, one after the other, of 44-byte commitments with the pending attestation of the
  calendar. Nothing is asked of other keys (the database refuses a blank one) or other values.
\<close>

definition takes_pending :: "('s \<Rightarrow> bytes \<Rightarrow> Timestamp \<Rightarrow> 's \<times> unit result) \<Rightarrow> attestation \<Rightarrow> nat \<Rightarrow> 's \<Rightarrow> bool" where
  "takes_pending put pending n st \<longleftrightarrow>
     (\<forall>cs. length cs \<le> n \<and> (\<forall>c \<in> set cs. length c = JournalRecordSize) \<longrightarrow>
        set (snd (run_puts put st (map (\<lambda>c. (c, pending_stamp pending c)) cs))) \<subseteq> {Ok ()})"

lemma takes_pending_mono: "takes_pending put pending n st \<Longrightarrow> m \<le> n \<Longrightarrow> takes_pending put pending m st"
  by (auto simp: takes_pending_def)

lemma takes_pending_put:
  assumes "takes_pending put pending (Suc n) st" and "length c = JournalRecordSize"
  shows "snd (put st c (pending_stamp pending c)) = Ok ()"
    and "put st c (pending_stamp pending c) = (st', r) \<Longrightarrow> takes_pending put pending n st'"
proof -
  have one: "set (snd (run_puts put st (map (\<lambda>c. (c, pending_stamp pending c)) (c # cs)))) \<subseteq> {Ok ()}"
    if "length cs \<le> n" "\<forall>c \<in> set cs. length c = JournalRecordSize" for cs
    using assms that unfolding takes_pending_def by (metis Suc_le_mono length_Cons set_ConsD)
  show "snd (put st c (pending_stamp pending c)) = Ok ()" using one [of "[]"] by (simp add: split_def Let_def)
  show "takes_pending put pending n st'" if "put st c (pending_stamp pending c) = (st', r)"
    unfolding takes_pending_def
  proof (intro allI impI, elim conjE)
    fix cs :: "bytes list" assume "length cs \<le> n" "\<forall>c \<in> set cs. length c = JournalRecordSize"
    from one [OF this] that show "set (snd (run_puts put st' (map (\<lambda>c. (c, pending_stamp pending c)) cs))) \<subseteq> {Ok ()}"
      by (simp add: split_def Let_def)
  qed
qed

text \<open>
  The service of the calendar: a valid address, a store that meets the contract, a journal with room for what waits, and
  a store that accepts the commitments of what waits.
\<close>

definition serves ::
  "('s \<Rightarrow> bool) \<Rightarrow> ('s \<Rightarrow> bytes \<Rightarrow> Timestamp \<Rightarrow> 's \<times> unit result) \<Rightarrow> ('s \<Rightarrow> bytes \<Rightarrow> Timestamp result) \<Rightarrow> ('s \<Rightarrow> bytes \<Rightarrow> bool result) \<Rightarrow>
   attestation \<Rightarrow> 's Aggregator \<Rightarrow> 's \<Rightarrow> bytes list \<Rightarrow> bool" where
  "serves I put get has pending a st rs \<longleftrightarrow>
     NewPendingAttestation (s_uri (ag_calendar a)) = Ok pending \<and> s_store (ag_calendar a) = storage_of put get has st \<and> I st \<and>
     (\<exists>j. s_journal (ag_calendar a) = Some j \<and> journal_of j rs) \<and> JournalRecordSize * (length rs + Suc (length (waiting a))) < 2 ^ 63 \<and>
     takes_pending put pending (length (waiting a)) st"

lemma serves_same:
  "serves I put get has pending a st rs \<Longrightarrow> ag_calendar a' = ag_calendar a \<Longrightarrow> waiting a' = waiting a \<Longrightarrow>
   serves I put get has pending a' st rs"
  by (simp add: serves_def)

text \<open>
  A caller is served: operations lead from its timestamp to a node on a commitment with the pending
  attestation, and the commitment is in the journal and in the store.
\<close>

definition served ::
  "hashes \<Rightarrow> ('s \<Rightarrow> bytes \<rightharpoonup> (bytes \<times> attestation) set) \<Rightarrow> attestation \<Rightarrow> store \<Rightarrow> 's \<Rightarrow> bytes list \<Rightarrow> nat \<Rightarrow> bool" where
  "served H held pending h st rs ts \<longleftrightarrow>
     (\<exists>xs x A. reach h ts xs x \<and> apply_ops H xs (n_Msg (h ! ts)) = Ok (n_Msg (h ! x)) \<and> n_Attestations (h ! x) = [pending] \<and>
        n_Msg (h ! x) \<in> set rs \<and> held st (n_Msg (h ! x)) = Some A \<and> (n_Msg (h ! x), pending) \<in> A)"

lemma reach_length: "reach h a xs b \<Longrightarrow> a < length h \<and> b < length h"
  by (induction rule: reach.induct) simp_all

lemma served_later:
  assumes "served H held pending h st rs ts" and "extends h h'" and "set rs \<subseteq> set rs'"
    and "held st' = (held st)(c \<mapsto> B)" and "(c, pending) \<in> B"
  shows "served H held pending h' st' rs' ts"
proof -
  from assms(1) obtain xs x A where x: "reach h ts xs x" "apply_ops H xs (n_Msg (h ! ts)) = Ok (n_Msg (h ! x))" "n_Attestations (h ! x) = [pending]"
    "n_Msg (h ! x) \<in> set rs" "held st (n_Msg (h ! x)) = Some A" "(n_Msg (h ! x), pending) \<in> A" by (auto simp: served_def)
  have same: "n_Msg (h' ! ts) = n_Msg (h ! ts)" "n_Msg (h' ! x) = n_Msg (h ! x)" "n_Attestations (h' ! x) = n_Attestations (h ! x)"
    using reach_length [OF x(1)] extendsD [OF assms(2)] by blast+
  have "\<exists>A. held st' (n_Msg (h ! x)) = Some A \<and> (n_Msg (h ! x), pending) \<in> A" using x(5,6) assms(4,5) by auto
  then obtain B where "held st' (n_Msg (h ! x)) = Some B" "(n_Msg (h ! x), pending) \<in> B" by blast
  then show ?thesis unfolding served_def using reach_extends [OF x(1) assms(2)] x(2-4) assms(3) same
    by (intro exI [of _ xs] exI [of _ x] exI [of _ B]) auto
qed

lemma shutdown_flush:
  assumes st: "storage H I held put get has" and H: "hash_sizes H" and i: "agg_inv H s"
    and sv: "serves I put get has pending (st_agg s) st rs"
  shows "\<exists>h a st' rs'. flush H now (Written, Ok ()) (st_heap s) (st_agg s) = (h, a, Ok ()) \<and>
    agg_inv H (s\<lparr>st_heap := h, st_agg := a\<rparr>) \<and> serves I put get has pending a st' rs' \<and> waiting a = ag_queue (st_agg s) \<and>
    ag_queue a = ag_queue (st_agg s) \<and> ag_open a = ag_open (st_agg s) \<and> ag_running a = ag_running (st_agg s) \<and>
    (\<forall>ts. served H held pending (st_heap s) st rs ts \<longrightarrow> served H held pending h st' rs' ts) \<and>
    (\<forall>(ts, q) \<in> set (st_callers s). q \<in> set (ag_batch (st_agg s)) \<longrightarrow> served H held pending h st' rs' ts)"
proof (cases "ag_batch (st_agg s) = []")
  case True
  then have "flush H now (Written, Ok ()) (st_heap s) (st_agg s) = (st_heap s, st_agg s, Ok ())" by (simp add: flush_def)
  then show ?thesis using i sv True
    by (intro exI [of _ "st_heap s"] exI [of _ "st_agg s"] exI [of _ st] exI [of _ rs]) (simp add: waiting_def)
next
  case False
  let ?w = "length (waiting (st_agg s))"
  from sv obtain j where j: "NewPendingAttestation (s_uri (ag_calendar (st_agg s))) = Ok pending"
    "s_store (ag_calendar (st_agg s)) = storage_of put get has st" "I st" "s_journal (ag_calendar (st_agg s)) = Some j" "journal_of j rs"
    and room: "JournalRecordSize * (length rs + Suc (length (waiting (st_agg s)))) < 2 ^ 63"
    and takes: "takes_pending put pending ?w st" by (auto simp: serves_def)
  have "0 < ?w" using False by (simp add: waiting_def)
  then obtain n where n: "?w = Suc n" by (cases ?w) auto
  have one: "JournalRecordSize * Suc (length rs) < 2 ^ 63" using room by (simp add: JournalRecordSize_def)
  have d: "\<not> is_panic (snd (Written, Ok () :: unit result))" by simp
  have put: "snd (put st c (pending_stamp pending c)) = Ok ()" if "length c = 44" for c
    using takes_pending_put(1) [OF takes [unfolded n]] that by (simp add: JournalRecordSize_def)
  from storage.flush_run [OF st i H False j one d, of now] put obtain h a st' j' x c where
    f: "flush H now (Written, Ok ()) (st_heap s) (st_agg s) = (h, a, Ok ())"
    and st': "s_store (ag_calendar a) = storage_of put get has st'" "I st'" "s_journal (ag_calendar a) = Some j'" "journal_of j' (rs @ [c])"
      "\<exists>A. held st' = (held st)(c \<mapsto> A) \<and> (c, pending) \<in> A" "length c = 44" "put st c (pending_stamp pending c) = (st', Ok ())"
    and x: "n_Msg (h ! x) = c" "n_Attestations (h ! x) = [pending]" "store_ok H h" "extends (st_heap s) h"
      "\<forall>q \<in> set (ag_batch (st_agg s)). \<exists>k. leads h x k (sr_digest q)" by blast
  note k = flush_keeps [OF f] and inv = flush_inv [OF i H f]
  have w: "waiting a = ag_queue (st_agg s)" using inv by (simp add: waiting_def)
  have "length (rs @ [c]) + Suc (length (waiting a)) \<le> length rs + Suc (length (waiting (st_agg s)))"
    using False w by (cases "ag_batch (st_agg s)") (simp_all add: waiting_def)
  then have "JournalRecordSize * (length (rs @ [c]) + Suc (length (waiting a))) < 2 ^ 63" "length (waiting a) \<le> n"
    using room n by (simp_all add: JournalRecordSize_def)
  moreover have "takes_pending put pending n st'"
    using takes_pending_put(2) [OF takes [unfolded n] _ st'(7)] st'(6) by (simp add: JournalRecordSize_def)
  ultimately have sv': "serves I put get has pending a st' (rs @ [c])"
    using k j(1) st' by (auto simp: serves_def intro: takes_pending_mono)
  obtain A where A: "held st' = (held st)(c \<mapsto> A)" "(c, pending) \<in> A" using st'(5) by blast
  have "batch_promised H s h a c pending" by (rule batch_promisedI [OF i H f x(3,4,1,2,5)])
  then obtain y where y: "n_Msg (h ! y) = c" "n_Attestations (h ! y) = [pending]"
    "\<forall>(ts, q) \<in> set (st_callers s). q \<in> set (ag_batch (st_agg s)) \<longrightarrow> (\<exists>xs. reach h ts xs y \<and> apply_ops H xs (n_Msg (st_heap s ! ts)) = Ok c)"
    unfolding batch_promised_def by blast
  have new: "served H held pending h st' (rs @ [c]) ts" if q: "(ts, q) \<in> set (st_callers s)" "q \<in> set (ag_batch (st_agg s))" for ts q
  proof -
    from y(3) q obtain xs where "reach h ts xs y" by blast
    with reach_apply_ops [OF this x(3)] show ?thesis unfolding served_def using y(1,2) A by (intro exI [of _ xs] exI [of _ y] exI [of _ A]) simp
  qed
  have old: "served H held pending h st' (rs @ [c]) ts" if "served H held pending (st_heap s) st rs ts" for ts
    by (rule served_later [OF that x(4) _ A]) auto
  have all_new: "\<forall>(ts, q) \<in> set (st_callers s). q \<in> set (ag_batch (st_agg s)) \<longrightarrow> served H held pending h st' (rs @ [c]) ts" using new by blast
  show ?thesis
    by (rule exI [of _ h], rule exI [of _ a], rule exI [of _ st'], rule exI [of _ "rs @ [c]"])
      (use f inv w sv' old all_new in simp)
qed

lemma shutdown_turn:
  assumes st: "storage H I held put get has" and H: "hash_sizes H" and i: "agg_inv H s"
    and sv: "serves I put get has pending (st_agg s) st rs"
    and t: "t = None \<or> (\<exists>now. t = Some (now, Written, Ok ()))"
  shows "\<exists>h a st' rs'. turn_tick H t (st_heap s) (st_agg s) = (h, a, Ok ()) \<and>
    agg_inv H (s\<lparr>st_heap := h, st_agg := a\<rparr>) \<and> serves I put get has pending a st' rs' \<and> set (waiting a) \<subseteq> set (waiting (st_agg s)) \<and>
    ag_queue a = ag_queue (st_agg s) \<and> ag_open a = ag_open (st_agg s) \<and> ag_running a = ag_running (st_agg s) \<and>
    (\<forall>ts. served H held pending (st_heap s) st rs ts \<longrightarrow> served H held pending h st' rs' ts) \<and>
    (\<forall>(ts, q) \<in> set (st_callers s). q \<in> set (waiting (st_agg s)) \<longrightarrow> q \<in> set (waiting a) \<or> served H held pending h st' rs' ts)"
proof (cases t)
  case None
  then show ?thesis using i sv
    by (intro exI [of _ "st_heap s"] exI [of _ "st_agg s"] exI [of _ st] exI [of _ rs]) (simp add: turn_tick_def)
next
  case (Some x)
  with t obtain now where "t = Some (now, Written, Ok ())" by auto
  then have run: "turn_tick H t (st_heap s) (st_agg s) = flush H now (Written, Ok ()) (st_heap s) (st_agg s)" by (simp add: turn_tick_def)
  from shutdown_flush [OF st H i sv, of now] obtain h a st' rs' where
    f: "flush H now (Written, Ok ()) (st_heap s) (st_agg s) = (h, a, Ok ())" "agg_inv H (s\<lparr>st_heap := h, st_agg := a\<rparr>)"
      "serves I put get has pending a st' rs'" "waiting a = ag_queue (st_agg s)"
      "ag_queue a = ag_queue (st_agg s)" "ag_open a = ag_open (st_agg s)" "ag_running a = ag_running (st_agg s)"
      "\<forall>ts. served H held pending (st_heap s) st rs ts \<longrightarrow> served H held pending h st' rs' ts"
      "\<forall>(ts, q) \<in> set (st_callers s). q \<in> set (ag_batch (st_agg s)) \<longrightarrow> served H held pending h st' rs' ts"
    by (elim exE conjE)
  have sub: "set (waiting a) \<subseteq> set (waiting (st_agg s))" unfolding f(4) by (simp add: waiting_def)
  have "\<forall>(ts, q) \<in> set (st_callers s). q \<in> set (waiting (st_agg s)) \<longrightarrow> q \<in> set (waiting a) \<or> served H held pending h st' rs' ts"
    using f(9) unfolding f(4) by (auto simp: waiting_def)
  with f sub run show ?thesis by (intro exI [of _ h] exI [of _ a] exI [of _ st'] exI [of _ rs'] conjI) auto
qed

lemma drain_serves:
  assumes st: "storage H I held put get has" and H: "hash_sizes H"
    and ticks: "\<forall>k. ticks k = None \<or> (\<exists>now. ticks k = Some (now, Written, Ok ()))"
    and i: "agg_inv H s" and sv: "serves I put get has pending (st_agg s) st rs"
    and run: "ag_running (st_agg s)" "\<not> ag_open (st_agg s)"
  shows "\<exists>h a st' rs'. drain H ticks now (Written, Ok ()) k (st_heap s) (st_agg s) = (h, a, Ok ()) \<and>
    agg_inv H (s\<lparr>st_heap := h, st_agg := a\<rparr>) \<and> serves I put get has pending a st' rs' \<and> \<not> ag_running a \<and> \<not> ag_open a \<and> waiting a = [] \<and>
    (\<forall>ts. served H held pending (st_heap s) st rs ts \<longrightarrow> served H held pending h st' rs' ts) \<and>
    (\<forall>(ts, q) \<in> set (st_callers s). q \<in> set (waiting (st_agg s)) \<longrightarrow> served H held pending h st' rs' ts)"
  using i sv run
proof (induction "length (ag_queue (st_agg s))" arbitrary: k s st rs rule: less_induct)
  case less
  from shutdown_turn [OF st H less.prems(1,2) spec [OF ticks, of k]] obtain h1 a1 st1 rs1 where
    t: "turn_tick H (ticks k) (st_heap s) (st_agg s) = (h1, a1, Ok ())" "agg_inv H (s\<lparr>st_heap := h1, st_agg := a1\<rparr>)"
      "serves I put get has pending a1 st1 rs1" "set (waiting a1) \<subseteq> set (waiting (st_agg s))"
      "ag_queue a1 = ag_queue (st_agg s)" "ag_open a1 = ag_open (st_agg s)" "ag_running a1 = ag_running (st_agg s)"
      "\<forall>ts. served H held pending (st_heap s) st rs ts \<longrightarrow> served H held pending h1 st1 rs1 ts"
      "\<forall>(ts, q) \<in> set (st_callers s). q \<in> set (waiting (st_agg s)) \<longrightarrow> q \<in> set (waiting a1) \<or> served H held pending h1 st1 rs1 ts"
    by (elim exE conjE)
  let ?s1 = "s\<lparr>st_heap := h1, st_agg := a1\<rparr>"
  show ?case
  proof (cases "ag_queue a1")
    case Nil
    have sv1: "serves I put get has pending (st_agg ?s1) st1 rs1" using t(3) by simp
    from shutdown_flush [OF st H t(2) sv1, of now] obtain h a st' rs' where
      f: "flush H now (Written, Ok ()) h1 a1 = (h, a, Ok ())" "agg_inv H (s\<lparr>st_heap := h, st_agg := a\<rparr>)"
        "serves I put get has pending a st' rs'" "waiting a = ag_queue a1" "ag_open a = ag_open a1"
        "\<forall>ts. served H held pending h1 st1 rs1 ts \<longrightarrow> served H held pending h st' rs' ts"
        "\<forall>(ts, q) \<in> set (st_callers s). q \<in> set (ag_batch a1) \<longrightarrow> served H held pending h st' rs' ts"
      by auto
    let ?a = "a\<lparr>ag_running := False\<rparr>"
    have "drain H ticks now (Written, Ok ()) k (st_heap s) (st_agg s) = (h, ?a, Ok ())"
      using t(1) f(1) Nil by (simp add: drain.simps [of H ticks now _ k "st_heap s"] loop_closed_def)
    moreover have "agg_inv H (s\<lparr>st_heap := h, st_agg := ?a\<rparr>)"
      using f(2,4,5) Nil t(6) less.prems(4) by (auto simp: agg_inv_def waiting_def)
    moreover have "serves I put get has pending ?a st' rs'" by (rule serves_same [OF f(3)]) simp_all
    moreover have "waiting a1 = ag_batch a1" using Nil by (simp add: waiting_def)
    ultimately show ?thesis using f(4-7) Nil t(6,8,9) less.prems(4)
      by (intro exI [of _ h] exI [of _ ?a] exI [of _ st'] exI [of _ rs'] conjI) auto
  next
    case (Cons req queue)
    let ?a2 = "loop_receive a1"
    let ?s2 = "s\<lparr>st_heap := h1, st_agg := ?a2\<rparr>"
    have w: "waiting ?a2 = waiting a1" "ag_running ?a2 = ag_running a1" "ag_open ?a2 = ag_open a1" "ag_calendar ?a2 = ag_calendar a1"
      "ag_queue ?a2 = queue" using Cons by (simp_all add: loop_receive_def waiting_def)
    have "agg_step H ?s1 ?s2" using agg_step.receive [of ?s1 H] t(7) less.prems(3) by simp
    from agg_inv_step [OF t(2) H this] have i2: "agg_inv H ?s2" .
    have sv2: "serves I put get has pending (st_agg ?s2) st1 rs1" by (rule serves_same [OF t(3)]) (simp_all add: w)
    have "length (ag_queue (st_agg ?s2)) < length (ag_queue (st_agg s))" using Cons w(5) t(5) by simp
    from less.hyps [OF this i2 sv2, of "Suc k"] w t(6,7) less.prems(3,4) obtain h a st' rs' where
      r: "drain H ticks now (Written, Ok ()) (Suc k) h1 ?a2 = (h, a, Ok ())" "agg_inv H (s\<lparr>st_heap := h, st_agg := a\<rparr>)"
        "serves I put get has pending a st' rs'" "\<not> ag_running a" "\<not> ag_open a" "waiting a = []"
        "\<forall>ts. served H held pending h1 st1 rs1 ts \<longrightarrow> served H held pending h st' rs' ts"
        "\<forall>(ts, q) \<in> set (st_callers s). q \<in> set (waiting a1) \<longrightarrow> served H held pending h st' rs' ts"
      by auto
    have "drain H ticks now (Written, Ok ()) k (st_heap s) (st_agg s) = (h, a, Ok ())"
      using t(1) r(1) Cons by (simp add: drain.simps [of H ticks now _ k "st_heap s"])
    with r t(8,9) show ?thesis by (intro exI [of _ h] exI [of _ a] exI [of _ st'] exI [of _ rs'] conjI) auto
  qed
qed

section \<open>Properties\<close>

text \<open>
  C8. An orderly shutdown keeps every promise. Close the queue in any reachable state, with requests queued and in the batch,
  over a store that meets its contract and takes the 44-byte commitments of what waits, a journal with room and a disk that takes the writes: \<open>Close\<close>
  returns, whenever the ticker fires meanwhile. Then the goroutine is gone, every caller that was let in can return without an error, and
  for each that was still waiting operations lead from its timestamp to a commitment with the pending attestation that is in
  the journal and in the store. A request that a handler still sends afterwards panics.
\<close>

theorem shutdown_serves_callers:
  assumes "agg_reach H svc interval s" and "hash_sizes H" and "ag_open (st_agg s)" and "storage H I held put get has"
    and "serves I put get has pending (st_agg s) st rs"
    and "\<forall>k. ticks k = None \<or> (\<exists>now. ticks k = Some (now, Written, Ok ()))"
  shows "\<exists>h a st' rs'. Close H ticks now (Written, Ok ()) (st_heap s) (st_agg s) = (h, a, Ok ()) \<and>
    \<not> ag_running a \<and> serves I put get has pending a st' rs' \<and>
    (\<forall>(ts, q) \<in> set (st_callers s). Submit_wait a q ts None = Some (Ok ts) \<and>
       (q \<in> set (ag_batch (st_agg s)) \<union> set (ag_queue (st_agg s)) \<longrightarrow> served H held pending h st' rs' ts)) \<and>
    (\<forall>req. snd (Submit_send a req) = Panic ''send on closed channel'')"
proof -
  let ?a = "st_agg s\<lparr>ag_open := False\<rparr>"
  let ?s = "s\<lparr>st_agg := ?a\<rparr>"
  have c: "Aggregator_Close (st_agg s) = (?a, Ok ())" using assms(3) by (simp add: Aggregator_Close_def)
  note i = agg_reach_inv [OF assms(1,2)]
  have i': "agg_inv H ?s" by (rule agg_inv_step [OF i assms(2) agg_step.close [OF c]])
  have sv: "serves I put get has pending (st_agg ?s) st rs" by (rule serves_same [OF assms(5)]) simp_all
  have run: "ag_running (st_agg ?s)" "\<not> ag_open (st_agg ?s)" using i assms(3) by (simp_all add: agg_inv_def)
  from drain_serves [OF assms(4,2,6) i' sv run, of now 0] obtain h a st' rs' where
    d: "drain H ticks now (Written, Ok ()) 0 (st_heap s) ?a = (h, a, Ok ())" "agg_inv H (?s\<lparr>st_heap := h, st_agg := a\<rparr>)"
      "serves I put get has pending a st' rs'" "\<not> ag_running a" "\<not> ag_open a" "waiting a = []"
      "\<forall>(ts, q) \<in> set (st_callers s). q \<in> set (waiting ?a) \<longrightarrow> served H held pending h st' rs' ts"
    by auto
  have "Close H ticks now (Written, Ok ()) (st_heap s) (st_agg s) = (h, a, Ok ())" using c d(1) by (simp add: Close_def)
  moreover have "Submit_wait a q ts None = Some (Ok ts)" if "(ts, q) \<in> set (st_callers s)" for ts q
    using agg_inv_partition(2) [OF d(2), of ts q] that d(6) by (simp add: Submit_wait_def)
  moreover have "served H held pending h st' rs' ts"
    if "(ts, q) \<in> set (st_callers s)" "q \<in> set (ag_batch (st_agg s)) \<union> set (ag_queue (st_agg s))" for ts q
    using d(7) that by (auto simp: waiting_def)
  moreover have "snd (Submit_send a req) = Panic ''send on closed channel''" for req using d(5) by (simp add: Submit_send_def)
  ultimately show ?thesis using d(3,4) by (intro exI [of _ h] exI [of _ a] exI [of _ st'] exI [of _ rs'] conjI) auto
qed

theorem shutdown_serves_callers_witness:
  "\<exists>h a st' rs'. Close const_hashes (\<lambda>k. Some (1700000000, Written, Ok ())) 1700000000 (Written, Ok ()) (st_heap sample_agg) (st_agg sample_agg) = (h, a, Ok ()) \<and>
     Submit_wait a \<lparr>sr_digest = 2, sr_done = 0\<rparr> 0 None = Some (Ok 0) \<and>
     served const_hashes (content_held const_hashes) (PendingAttestation ''a'') h st' rs' 0"
proof -
  have w: "length (waiting (st_agg sample_agg)) = 1" by (simp add: sample_agg_def waiting_def NewAggregator_def)
  have "takes_pending (bs_Put const_hashes ref_bolt) (PendingAttestation ''a'') 1 sample_db"
    by (auto simp: takes_pending_def JournalRecordSize_def le_Suc_eq length_Suc_conv sample_db_put)
  then have sv: "serves (content_ok const_hashes) (bs_Put const_hashes ref_bolt) (bs_Get const_hashes ref_bolt) (bs_Has ref_bolt) (PendingAttestation ''a'')
      (st_agg sample_agg) sample_db []"
    using sample_agg_service w by (simp add: serves_def JournalRecordSize_def)
  have "ag_open (st_agg sample_agg)" by (simp add: sample_agg_def NewAggregator_def)
  then show ?thesis
    using shutdown_serves_callers [OF sample_agg_reach hash_sizes_const _ ref.bs.storage_axioms sv, of "\<lambda>k. Some (1700000000, Written, Ok ())" 1700000000]
    by (fastforce simp: sample_agg_def)
qed

end
