(* ===== verification/Truncation.thy ===== *)
theory Truncation
  imports Timestamp_Codec
begin

text \<open>
  What the missing check of \<open>ReadBytes\<close> (\<^verbatim>\<open>internal/core/serialize/serialize.go\<close>) does to a proof that has lost its
  last byte: \<open>bytes.Buffer.Read\<close> returns the bytes there are, the rest of the slice stays zero, and the end of the
  payload of an attestation may be that rest.
\<close>

section \<open>A varuint with its last byte zero\<close>

lemma ReadVarUint_loop_cut:
  "ReadVarUint_loop (butlast (varuint_enc v) @ [0]) acc s =
     Ok (acc OR push_bit s (take_bit (7 * (length (varuint_enc v) - 1)) v), [])"
proof (induction v arbitrary: acc s rule: varuint_enc.induct)
  case (1 v)
  show ?case
  proof (cases "drop_bit 7 v = 0")
    case True
    then show ?thesis by (simp add: varuint_enc.simps [of v])
  next
    case False
    let ?k = "7 * (length (varuint_enc (drop_bit 7 v)) - 1)"
    have "take_bit 7 v OR push_bit 7 (take_bit ?k (drop_bit 7 v)) = take_bit (?k + 7) v"
    proof (rule bit_word_eqI)
      fix n
      show "bit (take_bit 7 v OR push_bit 7 (take_bit ?k (drop_bit 7 v))) n = bit (take_bit (?k + 7) v) n" if "n < LENGTH(64)"
        using that by (cases "n < 7") (auto simp: bit_simps)
    qed
    note b = this
    have e: "(acc OR push_bit s (take_bit 7 v)) OR push_bit (s + 7) (take_bit ?k (drop_bit 7 v)) = acc OR push_bit s (take_bit (?k + 7) v)"
      unfolding b [symmetric] by (simp add: push_bit_or or.assoc add.commute)
    have k: "7 * (length (varuint_enc v) - 1) = ?k + 7"
      using False by (cases "varuint_enc (drop_bit 7 v)") (simp_all add: varuint_enc.simps [of v])
    show ?thesis using False "1" [OF False, of "acc OR push_bit s (take_bit 7 v)" "s + 7"] unfolding k
      by (simp add: varuint_enc.simps [of v] ots_simps e [unfolded One_nat_def])
  qed
qed

lemma varuint_enc_top: "v \<noteq> 0 \<Longrightarrow> drop_bit (7 * (length (varuint_enc v) - 1)) v \<noteq> 0"
proof (induction v rule: varuint_enc.induct)
  case (1 v)
  show ?case
  proof (cases "drop_bit 7 v = 0")
    case True
    then show ?thesis using "1.prems" by (simp add: varuint_enc.simps [of v])
  next
    case False
    have k: "7 * (length (varuint_enc v) - 1) = 7 * (length (varuint_enc (drop_bit 7 v)) - 1) + 7"
      using False by (cases "varuint_enc (drop_bit 7 v)") (simp_all add: varuint_enc.simps [of v])
    show ?thesis using "1.IH" [OF False False] unfolding k by (simp add: drop_bit_drop_bit)
  qed
qed

text \<open>A height from 128 on, cut by the last of its bytes.\<close>

definition cut_height :: "u64 \<Rightarrow> u64" where
  "cut_height h = take_bit (7 * (length (varuint_enc h) - 1)) h"

lemma cut_height_less:
  assumes "h \<noteq> 0"
  shows "cut_height h < h"
proof -
  let ?k = "7 * (length (varuint_enc h) - 1)"
  have u: "unat (cut_height h) = unat h mod 2 ^ ?k" unfolding cut_height_def unsigned_take_bit_eq by (rule take_bit_eq_mod)
  have "unat (drop_bit ?k h) \<noteq> 0" using varuint_enc_top [OF assms] by (simp only: unat_eq_0 not_False_eq_True)
  then have "drop_bit ?k (unat h) \<noteq> 0" by (simp only: unat_drop_bit_eq not_False_eq_True)
  then have "2 ^ ?k \<le> unat h" by (simp add: drop_bit_eq_div div_eq_0_iff)
  moreover have "unat h mod 2 ^ ?k < 2 ^ ?k" by simp
  ultimately show ?thesis unfolding word_less_nat_alt u by linarith
qed

section \<open>A proof without its last byte\<close>

lemma notary_Deserialize_cut:
  assumes "128 \<le> unat h"
  shows "notary_Deserialize (butlast (att_Serialize [] (BitcoinBlockHeaderAttestation h))) = Ok (BitcoinBlockHeaderAttestation (cut_height h), [])"
proof -
  let ?p = "varuint_enc h"
  have "0 < unat h div 128" using assms by (simp add: div_greater_zero_iff)
  then have "drop_bit 7 h \<noteq> 0" by (metis unat_0 unat_drop_bit_7 less_numeral_extra(3))
  then have ne: "butlast ?p \<noteq> []" by (simp add: varuint_enc.simps [of h])
  have len: "length ?p \<le> 10" by (rule varuint_enc_length_10)
  have short: "length ?p - (length ?p - Suc 0) = Suc 0" "length ?p - Suc 0 < length ?p" by (cases ?p; simp)+
  have bl: "butlast (att_Serialize [] (BitcoinBlockHeaderAttestation h)) =
      bitcoinTag @ varuint_enc (word_of_nat (length ?p)) @ butlast ?p"
    by (simp add: att_Serialize_parts WriteVarBytes_def WriteBytes_def WriteVarUint_enc butlast_append)
  have "ReadBytes (butlast ?p) (int (length ?p)) = Ok (butlast ?p @ [0], [])"
    using ReadBytes_pads_short_input [OF ne, of "int (length ?p)"] len short by simp
  moreover have "sint (word_of_nat (length ?p) :: u64) = int (length ?p)" using len by (simp add: sint_small)
  ultimately have r: "ReadVarBytes (varuint_enc (word_of_nat (length ?p)) @ butlast ?p) (int MaxPayloadSize) = Ok (butlast ?p @ [0], [])"
    using len by (simp add: ReadVarBytes_def ReadVarUint_enc MaxPayloadSize_def)
  have tag: "length bitcoinTag = TagSize" by (simp add: bitcoinTag_def TagSize_def)
  have "deserializeBitcoin (butlast ?p @ [0]) = Ok (BitcoinBlockHeaderAttestation (cut_height h), [])"
    using ReadVarUint_loop_cut [of h 0 0] by (simp add: deserializeBitcoin_def ReadVarUint_def cut_height_def)
  then show ?thesis unfolding bl using r tag
    by (simp add: notary_Deserialize_def ReadBytes_append TagSize_def NewContext_def AssertEOF_def)
qed

text \<open>The proof that applies the operations one after the other and ends in the attestation.\<close>

fun line :: "hashes \<Rightarrow> bytes \<Rightarrow> op list \<Rightarrow> attestation \<Rightarrow> Timestamp" where
  "line H m [] a = Timestamp m [a] []"
| "line H m (x # xs) a = Timestamp m [] [(x, line H (case op_Apply H x m of Ok r \<Rightarrow> r | _ \<Rightarrow> []) xs a)]"

lemma ts_Msg_line [simp]: "ts_Msg (line H m xs a) = m"
  by (cases xs) simp_all

lemma ts_enc_line: "ts_enc (line H m [] a) = 0x00 # att_Serialize [] a"
  "ts_enc (line H m (x # xs) a) = op_Serialize [] x @ ts_enc (line H (case op_Apply H x m of Ok r \<Rightarrow> r | _ \<Rightarrow> []) xs a)"
proof -
  have "mset (SortAttestations [a]) = {#a#}" by simp
  then have "SortAttestations [a] = [a]" by (simp only: mset_single_iff)
  then show "ts_enc (line H m [] a) = 0x00 # att_Serialize [] a" by (simp add: ts_enc_Timestamp)
qed (simp add: ts_enc_Timestamp)

lemma ts_enc_line_nonempty: "ts_enc (line H m xs a) \<noteq> []"
  by (cases xs) (simp_all add: ts_enc_line op_Serialize_tag del: line.simps)

lemma ts_Deserialize_cut:
  assumes "linked H (line H m xs (BitcoinBlockHeaderAttestation h))" and "length xs < d" and "128 \<le> unat h"
  shows "ts_Deserialize H (butlast (ts_enc (line H m xs (BitcoinBlockHeaderAttestation h)))) m d =
    Ok (line H m xs (BitcoinBlockHeaderAttestation (cut_height h)), [])"
  using assms(1,2)
proof (induction xs arbitrary: m d)
  case Nil
  then obtain k where d: "d = Suc k" by (cases d) auto
  have "att_Serialize [] (BitcoinBlockHeaderAttestation h) \<noteq> []" by (simp add: att_Serialize_parts bitcoinTag_def)
  then show ?case using Nil.prems(1) notary_Deserialize_cut [OF assms(3)]
    by (simp add: ts_enc_line(1) [simplified] d ts_Deserialize.simps Deserialize_loop.simps readItem.simps New_def)
next
  case (Cons x xs)
  from Cons.prems(2) obtain k where d: "d = Suc k" "length xs < k" by (cases d) auto
  from Cons.prems(1) obtain r where x: "length m \<le> MaxMsgLength" "op_ok x" "op_Apply H x m = Ok r"
    by (cases "op_Apply H x m") auto
  let ?s = "line H r xs (BitcoinBlockHeaderAttestation h)"
  have IH: "ts_Deserialize H (butlast (ts_enc ?s)) r k = Ok (line H r xs (BitcoinBlockHeaderAttestation (cut_height h)), [])"
    using Cons.IH [OF _ d(2)] Cons.prems(1) x(3) by simp
  have "butlast (ts_enc (line H m (x # xs) (BitcoinBlockHeaderAttestation h))) = op_Serialize [] x @ butlast (ts_enc ?s)"
    by (simp add: ts_enc_line x(3) butlast_append ts_enc_line_nonempty del: line.simps)
  then show ?case using x IH op_Tag_not_0_ff [of x]
    by (simp add: d(1) op_Serialize_tag ts_Deserialize.simps Deserialize_loop.simps readItem.simps New_def DeserializeFromTag_enc)
qed

section \<open>Properties\<close>

text \<open>
  C35. A truncated proof is accepted, with another height. Take a proof that applies any operations to the message and
  ends in a Bitcoin attestation of a height from 128 on, and cut the last byte of its encoding. Decoding does
  not fail: it returns the same chain of operations ending in a Bitcoin attestation of a lower height, the height without its
  highest seven-bit group. The same holds for the detached file of such a proof.
\<close>

theorem truncated_proof_accepted:
  assumes "linked H (line H m xs (BitcoinBlockHeaderAttestation h))" and "length xs < recursionLimit" and "128 \<le> unat h"
  shows "let t = line H m xs (BitcoinBlockHeaderAttestation h); t' = line H m xs (BitcoinBlockHeaderAttestation (cut_height h)) in
    ts_SerializeBytes t = Ok (ts_enc t) \<and> ts_DeserializeBytes H (butlast (ts_enc t)) m = Ok t' \<and> cut_height h < h \<and>
    (length m = 32 \<longrightarrow> (\<exists>file. df_SerializeBytes \<lparr>df_Timestamp = t\<rparr> = Ok file \<and>
       DeserializeDetachedBytes H (butlast file) = Ok \<lparr>df_Timestamp = t'\<rparr>))"
proof -
  let ?t = "line H m xs (BitcoinBlockHeaderAttestation h)" and ?t' = "line H m xs (BitcoinBlockHeaderAttestation (cut_height h))"
  have "full (line H m xs a)" for a by (induction xs arbitrary: m) simp_all
  then have full: "full ?t" .
  note cut = ts_Deserialize_cut [OF assms]
  have "\<exists>file. df_SerializeBytes \<lparr>df_Timestamp = ?t\<rparr> = Ok file \<and> DeserializeDetachedBytes H (butlast file) = Ok \<lparr>df_Timestamp = ?t'\<rparr>"
    if "length m = 32"
  proof (intro exI conjI)
    show "df_SerializeBytes \<lparr>df_Timestamp = ?t\<rparr> = Ok (HeaderMagic @ [MajorVersion] @ [0x08] @ m @ ts_enc ?t)"
      using df_Serialize_enc [of "\<lparr>df_Timestamp = ?t\<rparr>"] full by (simp add: FileDigest_def)
    have "butlast (HeaderMagic @ [MajorVersion] @ [0x08] @ m @ ts_enc ?t) = HeaderMagic @ [MajorVersion] @ [0x08] @ m @ butlast (ts_enc ?t)"
      using ts_enc_line_nonempty by (simp add: butlast_append)
    then show "DeserializeDetachedBytes H (butlast (HeaderMagic @ [MajorVersion] @ [0x08] @ m @ ts_enc ?t)) = Ok \<lparr>df_Timestamp = ?t'\<rparr>"
      using DeserializeDetached_prefix [OF that, of H "butlast (ts_enc ?t)"] cut that
      by (simp add: DeserializeDetachedBytes_def NewContext_def AssertEOF_def NewDetached_def SHA256_DigestLength_def)
  qed
  moreover have "ts_SerializeBytes ?t = Ok (ts_enc ?t)"
    using ts_Serialize_enc(1) [OF full, of "[]"] by (simp add: ts_SerializeBytes_def NewWriteContext_def Bytes_def)
  moreover have "cut_height h < h" using assms(3) by (intro cut_height_less) auto
  ultimately show ?thesis using cut by (simp add: Let_def ts_DeserializeBytes_def NewContext_def)
qed

theorem truncated_proof_accepted_witness:
  "ts_DeserializeBytes const_hashes (butlast (ts_enc (line const_hashes [1] [SHA256Op] (BitcoinBlockHeaderAttestation 850000)))) [1] =
     Ok (line const_hashes [1] [SHA256Op] (BitcoinBlockHeaderAttestation 14416))"
proof -
  have "linked const_hashes (line const_hashes [1] [SHA256Op] (BitcoinBlockHeaderAttestation 850000))" by code_simp
  moreover have "cut_height 850000 = 14416" by code_simp
  ultimately show ?thesis
    using truncated_proof_accepted [of const_hashes "[1]" "[SHA256Op]" 850000] by (simp add: Let_def recursionLimit_def)
qed

end
