(* ===== verification/Spec2Isabelle.thy ===== *)
theory Spec2Isabelle
  imports Relay_Docs Decode_Bounds Anchoring_Runs Shutdown Truncation
begin

text \<open>
  A verification library for OTS, an OpenTimestamps relay, client SDK and calendar server written in Go.

  \<^bold>\<open>The program.\<close> A timestamp proof is a tree: a node has a message, attestations on it, and operations, each
  leading to a node on the result of the operation. The packages under \<^verbatim>\<open>src/internal/core\<close> define the binary
  format of proofs and the operations on them. \<^verbatim>\<open>src/internal/verify\<close> checks proofs against block headers and
  upgrades pending ones by asking calendars. \<^verbatim>\<open>src/pkg/ots\<close> is the SDK: clients of calendars, a pool of them,
  stamping, upgrading and verifying. \<^verbatim>\<open>src/internal/calendar\<close> is a calendar: an aggregator collects submitted
  digests, commits the merkle root of each batch through the service, which journals and stores the
  commitment. \<^verbatim>\<open>src/internal/stamper\<close> reads the journal, anchors commitments in Bitcoin transactions through the
  client of \<^verbatim>\<open>src/internal/bitcoin\<close>, and stores completed proofs. Two programs serve this over HTTP: the relay,
  \<^verbatim>\<open>src/api/server\<close> and \<^verbatim>\<open>src/cmd/server\<close>, stamps and upgrades through a pool of public calendars; the calendar,
  \<^verbatim>\<open>src/api/calendarserver\<close> and \<^verbatim>\<open>src/cmd/calendar\<close>, runs the aggregator, the service and the stamper.

  \<^bold>\<open>Conventions.\<close> Theory \<open>Prelude\<close> has the machine types, the errors of the program and the outcome of a call:
  a value, an error or a run-time panic. Integers of the program are words where their width matters
  (lengths and counters of the codec and the journal, heights, the index of a commitment). Nil pointers are
  \<open>None\<close> where the code tests for them. The network, the disk, the clock, the random source, the hash
  functions, the database, the Bitcoin node, the parsing of HTTP requests and of JSON bodies are parameters; what they are assumed to do is stated by the
  laws of locales (\<open>hash_sizes\<close>, \<open>storage\<close>, \<open>bolt_db\<close>, \<open>record_keeping\<close>, \<open>relay_backend\<close>) or as hypotheses. Each answer of a
  parameter may depend on the position of the call, so that repeated calls may differ.

  \<^bold>\<open>Theories and sources.\<close>
  \<^item> \<open>Serialize\<close>: \<^verbatim>\<open>internal/core/serialize\<close>. Reading and writing of integers and byte strings; the \<open>codec\<close> locale.
  \<^item> \<open>Op\<close>: \<^verbatim>\<open>internal/core/op\<close>. Operations, their results, order, encoding and registry.
  \<^item> \<open>Notary\<close>: \<^verbatim>\<open>internal/core/notary\<close>. Attestations, their order, encoding and sorting.
  \<^item> \<open>Timestamp\<close>, \<open>Timestamp_Codec\<close>, \<open>Timestamp_Merge\<close>: \<^verbatim>\<open>internal/core/timestamp\<close> on trees. Decoding, encoding,
    detached files, merging, comparing. \<open>Truncation\<close>: what is read of a proof whose end is cut off.
  \<^item> \<open>Builder\<close>: the functions of the same file that build shared structure, on an explicit store of nodes.
  \<^item> \<open>Verify\<close>: \<^verbatim>\<open>internal/verify\<close>. Verification, upgrading, parsing.
  \<^item> \<open>Client\<close>: \<^verbatim>\<open>pkg/ots\<close>. The SDK over an HTTP parameter.
  \<^item> \<open>Journal\<close>, \<open>Storage\<close>, \<open>Calendar\<close>, \<open>Aggregator\<close>, \<open>Data_Directory\<close>: \<^verbatim>\<open>internal/calendar\<close>.
  \<^item> \<open>Block_Proof\<close>, \<open>Bitcoin_Client\<close>: \<^verbatim>\<open>internal/bitcoin\<close>, and the header source of \<^verbatim>\<open>pkg/ots/verify.go\<close>.
  \<^item> \<open>Stamper\<close>, \<open>Stamper_History\<close>, \<open>Anchoring\<close>, \<open>Anchoring_Runs\<close>: \<^verbatim>\<open>internal/stamper\<close>. Its steps, the states it reaches,
    what one honest tick does, and its progress in runs with several transactions under way.
  \<^item> \<open>Http_Api\<close>: the response writer of \<^verbatim>\<open>net/http\<close>, the JSON bodies of the relay's \<^verbatim>\<open>types.go\<close>, and the request log of \<^verbatim>\<open>logging.go\<close>
    for both servers (each has its own; the definitions for the calendar's have the prefix \<open>cal_\<close>).
  \<^item> \<open>Relay_Server\<close>, \<open>Calendar_Server\<close>: the handlers of \<^verbatim>\<open>api/server\<close> and \<^verbatim>\<open>api/calendarserver\<close>, one definition each, named as
    the methods, those of the calendar with the prefix \<open>cal_\<close>. \<open>Calendar_Server\<close> also has the calendar's own limits, its requests, and its
    answers with their JSON bodies (its \<^verbatim>\<open>handler.go\<close> and \<^verbatim>\<open>types.go\<close>).
  \<^item> \<open>Batch_Proofs\<close>: what the callers of the aggregator get, between \<open>Aggregator\<close> and the handlers of the calendar.
  \<^item> \<open>Shutdown\<close>: \<open>Close\<close> of the aggregator, with the drain of its queue.
  \<^item> \<open>Commands\<close>: the start of both programs, \<^verbatim>\<open>cmd/server/main.go\<close> and \<^verbatim>\<open>cmd/calendar/main.go\<close>.
  \<^item> \<open>Decode_Bounds\<close>: the size of what the decoders return.
  \<^item> \<open>Api_Docs\<close>: \<^verbatim>\<open>docs/docs.go\<close>, the generated description of the relay's interface as a JSON value, one definition per route and
    schema, and what it means that an answer conforms to it. \<open>Relay_Docs\<close>: the handlers of the relay against it.

  \<^bold>\<open>What is shown.\<close> For the format: every encodable value is read back, and everything the decoders accept is
  well formed (linked from its message, no empty node, within the limits). For trees: merging keeps proofs
  well formed and holds exactly the attestations of both. For the builders: merkle trees and block inclusion
  proofs lead from every leaf to the root, and every link computes its operation. For verification: a valid
  verdict means that a chain of operations leads from the digest (of the file) to the merkle root of a
  header the source returned for the reported height. For upgrading and polling: no attestation is lost. For
  the stores: the database store refines a map of attestation sets and the journal a list of records. For
  the calendar: a submission is journaled and stored under its commitment; in every interleaving of callers
  and the aggregator each request is answered once, with a path to the attestation of the batch, no channel is closed twice, and the goroutine panics only if the submission of the
  root does. For the
  stamper: finalizing stores for every commitment of a transaction a well-formed proof with a Bitcoin
  attestation, and in every reachable state each record read from the journal is pending or recorded; if the node, honest about what
  it is asked, broadcasts and later confirms, and the store takes the proofs that are put, everything that was pending gets a
  complete proof, whatever other transactions the stamper sends, drops and
  finalizes meanwhile. At an orderly end of the calendar every caller that was let in is served, if the disk and the store take what they are given. For the servers: an HTTP answer that
  says valid is backed by a header, a file stamped by the relay verifies, a caller of the calendar gets a body from which the client
  reads its proof, the two servers, each with its own limits and types, answer alike, the answers of the relay
  conform to its description with three exceptions, and the request logs do not change answers. For the commands: a
  calendar anchors only from a persistent journal and on the configured network, and one started after a crash
  answers for every journaled commitment. Where the
  code does less than it means to, a theorem states what it does: decoding can panic on a huge length, a proof cut
  short is read as one of another height, an unknown attestation with a payload cannot be read, a failed append shifts the journal, a
  submission refused by the disk or the store still yields promises, a second inclusion proof on the same objects fails, and
  one refusal of the relay has a body that its description does not allow.

  \<^bold>\<open>Termination and bounds.\<close> The decoder, the merkle loops and the journal loop are total functions with
  termination proofs; no fuel is used for them. Two functions follow pointers and would not return on a cyclic
  structure, \<open>heap_Equal\<close> and \<open>unfold\<close>: they descend through at most as many nodes as the store has, and running past that
  is the stack overflow of the program, a panic. \<open>leads_unfold\<close> shows that it does not happen on what the
  stamper builds. The depth of a stored proof stays below the recursion limit of the decoder, 256, for
  \<open>n\<close> commitments and a block of \<open>m\<close> transactions if \<open>2 * levels n + 3 * levels m + 6 \<le> 256\<close>; \<open>levels_power\<close> bounds
  \<open>levels\<close> by the logarithm, so the configured 100000 commitments and any block fit.

  Every decoded proof has at most one item per byte of its input (\<open>decode_bounds\<close>), and polling returns
  with its context (\<open>polling_terminates\<close>).

  The drain of a closed queue ends because each turn takes one request (\<open>drain\<close>, by the length of the queue).

  \<^bold>\<open>Where the model chooses.\<close> \<open>sort.Slice\<close> is a stable sort here, which Go promises only up to twelve elements: with more operations at
  a node, equal ones among them may be written in another order. \<open>make\<close> of a byte slice panics above the address space of the
  machine, \<open>maxAlloc\<close> (\<open>2 ^ 48\<close> bytes); running out of memory below it is not represented. The Bitcoin client that \<open>New\<close> of the stamper
  keeps is not a field of its state: each step gets the answers of the node from the \<open>world\<close> at that step, so that they may differ
  over time; that the calendar starts the stamper only with a client whose network was checked is in \<open>Commands\<close>. A step of the aggregator that panics ends the
  program and has no successor state; \<open>agg_panics\<close> says which steps panic, and in which way.

  \<^bold>\<open>Not modelled.\<close> The HTTP server of \<^verbatim>\<open>net/http\<close> with its routing, its shutdown and its limits of time; the parsing of a command line
  (the flags and their defaults are records); signals; the rendering of the description by the swag library and its pages; the
  text of log messages other than the request log; file modes; the closing of files and connections; timeouts and cancellation
  of contexts beyond the cases that the code selects on. What is left of \<^verbatim>\<open>cmd\<close> are calls of these libraries.
\<close>

end
